theory Spec2Isabelle
  imports Main
begin

section \<open>Incremental maximum flow: \<open>dgl/EdmondsKarpDynamic.h\<close>\<close>

subsection \<open>The graph collaborator\<close>

text \<open>
  The class \<open>DynamicGraph\<close> is not among the sources; the engine only reads it.
  Its view is a record: the number of nodes, the edge records \<open>(from, to)\<close> (the id of an
  edge is its index in \<open>all_edges\<close>), the enabled flags, the mutation log of pairs
  \<open>(id, addition)\<close>, the monotone counters and the \<open>changed\<close> flag.
  Weights are integers (\<open>Weight\<close> is a template parameter of the class).
\<close>

record DynamicGraph =
  nodes :: nat
  all_edges :: "(nat \<times> nat) list"
  edge_status :: "bool list"
  history :: "(nat \<times> bool) list"
  modifications :: int
  additions :: int
  deletions :: int
  historyclears :: int
  is_changed :: bool

definition edges :: "DynamicGraph \<Rightarrow> nat" where
  "edges g = length (all_edges g)"

definition edgeEnabled :: "DynamicGraph \<Rightarrow> nat \<Rightarrow> bool" where
  "edgeEnabled g i = (edge_status g ! i)"

definition isEdge :: "DynamicGraph \<Rightarrow> nat \<Rightarrow> bool" where
  "isEdge g i = (i < length (all_edges g))"

text \<open>
  Modelled from the spec: the forward adjacency \<open>incident(u, k) \<rightarrow> (node, id)\<close> and the
  reverse adjacency \<open>incoming(u, k) \<rightarrow> (node, id)\<close> of \<open>DynamicGraph\<close>, which is absent
  from the sources. Both list the edges at \<open>u\<close> in the order of their ids, enabled or not.
\<close>

definition incident :: "DynamicGraph \<Rightarrow> nat \<Rightarrow> (nat \<times> nat) list" where
  "incident g u =
     map (\<lambda>i. (snd (all_edges g ! i), i))
       (filter (\<lambda>i. fst (all_edges g ! i) = u) [0..<length (all_edges g)])"

definition incoming :: "DynamicGraph \<Rightarrow> nat \<Rightarrow> (nat \<times> nat) list" where
  "incoming g u =
     map (\<lambda>i. (fst (all_edges g ! i), i))
       (filter (\<lambda>i. snd (all_edges g ! i) = u) [0..<length (all_edges g)])"

text \<open>
  Modelled from the spec: the two mutations of \<open>DynamicGraph\<close> that the engine replays.
  Each flips the enabled flag, bumps the monotone counters and appends one event
  \<open>(id, addition)\<close> to the log; enabling an enabled edge (or disabling a disabled one)
  does nothing.
\<close>

definition enableEdge :: "nat \<Rightarrow> DynamicGraph \<Rightarrow> DynamicGraph" where
  "enableEdge i g =
     (if edge_status g ! i then g
      else g\<lparr>edge_status := (edge_status g)[i := True],
             modifications := modifications g + 1,
             additions := modifications g + 1,
             history := history g @ [(i, True)]\<rparr>)"

definition disableEdge :: "nat \<Rightarrow> DynamicGraph \<Rightarrow> DynamicGraph" where
  "disableEdge i g =
     (if edge_status g ! i then
        g\<lparr>edge_status := (edge_status g)[i := False],
          modifications := modifications g + 1,
          deletions := modifications g + 1,
          history := history g @ [(i, False)]\<rparr>
      else g)"

subsection \<open>The engine's state\<close>

text \<open>
  \<open>LocalEdge\<close> is the predecessor record of the search: \<open>lfrom = -1\<close> marks an unvisited
  node, \<open>lfrom = -2\<close> the source of the search, and \<open>lid = -1\<close> the virtual shortcut arc.
  (The source's field names \<open>from\<close> and \<open>id\<close> are taken in Isabelle.)
\<close>

record LocalEdge =
  lfrom :: int
  lid :: int
  backward :: bool

record MaxFlowEdge =
  mf_u :: nat
  mf_v :: nat
  mf_id :: nat

text \<open>
  The members of \<open>EdmondsKarpDynamic\<close>. The one-letter members \<open>f\<close>, \<open>F\<close>, \<open>M\<close> and \<open>Q\<close>
  carry the prefix \<open>ek_\<close>.
\<close>

record EdmondsKarpDynamic =
  ek_f :: int
  ek_F :: "int list"
  shortCircuitFlow :: int
  curflow :: int
  last_modification :: int
  last_deletion :: int
  last_addition :: int
  history_qhead :: nat
  last_history_clear :: int
  prev :: "LocalEdge list"
  ek_M :: "int list"
  ek_Q :: "nat list"
  edge_enabled :: "bool list"
  seen :: "bool list"

definition ek_INF :: int where
  "ek_INF = 15790320"

text \<open>The constructor: \<open>curflow = 0\<close>, the stamps at \<open>-1\<close>, \<open>history_qhead = 0\<close>.\<close>

definition EdmondsKarpDynamic_init :: EdmondsKarpDynamic where
  "EdmondsKarpDynamic_init =
     \<lparr>ek_f = 0, ek_F = [], shortCircuitFlow = 0, curflow = 0,
      last_modification = -1, last_deletion = -1, last_addition = -1,
      history_qhead = 0, last_history_clear = -1,
      prev = [], ek_M = [], ek_Q = [], edge_enabled = [], seen = []\<rparr>"

subsection \<open>Breadth-first search on the residual graph\<close>

text \<open>
  The loop over the forward edges of \<open>u\<close> (lines 87-111). It returns whether it left by
  the \<open>break\<close> that follows the discovery of \<open>t\<close>.
\<close>

fun bfs_incident ::
  "int list \<Rightarrow> nat \<Rightarrow> nat \<Rightarrow> (nat \<times> nat) list \<Rightarrow> EdmondsKarpDynamic \<Rightarrow> bool \<times> EdmondsKarpDynamic"
where
  "bfs_incident cap t u [] st = (False, st)"
| "bfs_incident cap t u ((v, i) # es) st =
     (if \<not> edge_enabled st ! i then bfs_incident cap t u es st
      else if cap ! i - ek_F st ! i > 0 \<and> lfrom (prev st ! v) = -1 then
        (let st' = st\<lparr>prev := (prev st)[v := \<lparr>lfrom = int u, lid = int i, backward = False\<rparr>],
                      ek_M := (ek_M st)[v := min (ek_M st ! u) (cap ! i - ek_F st ! i)]\<rparr>
         in if v \<noteq> t then bfs_incident cap t u es (st'\<lparr>ek_Q := ek_Q st' @ [v]\<rparr>)
            else (True, st'))
      else bfs_incident cap t u es st)"

text \<open>The loop over the incoming edges of \<open>u\<close>, walked backward (lines 112-137).\<close>

fun bfs_incoming ::
  "nat \<Rightarrow> nat \<Rightarrow> (nat \<times> nat) list \<Rightarrow> EdmondsKarpDynamic \<Rightarrow> bool \<times> EdmondsKarpDynamic"
where
  "bfs_incoming t u [] st = (False, st)"
| "bfs_incoming t u ((v, i) # es) st =
     (if \<not> edge_enabled st ! i then bfs_incoming t u es st
      else if ek_F st ! i - 0 > 0 \<and> lfrom (prev st ! v) = -1 then
        (let st' = st\<lparr>prev := (prev st)[v := \<lparr>lfrom = int u, lid = int i, backward = True\<rparr>],
                      ek_M := (ek_M st)[v := min (ek_M st ! u) (ek_F st ! i - 0)]\<rparr>
         in if v \<noteq> t then bfs_incoming t u es (st'\<lparr>ek_Q := ek_Q st' @ [v]\<rparr>)
            else (True, st'))
      else bfs_incoming t u es st)"

text \<open>
  The loop over the queue (line 84). The \<open>break\<close> leaves only the inner loop, so the
  search goes on after \<open>t\<close> is found.
\<close>

partial_function (option) bfs_queue ::
  "DynamicGraph \<Rightarrow> int list \<Rightarrow> nat \<Rightarrow> nat \<Rightarrow> bool \<Rightarrow> EdmondsKarpDynamic
     \<Rightarrow> (bool \<times> EdmondsKarpDynamic) option"
where
  "bfs_queue g cap t j found st =
     (if j < length (ek_Q st) then
        (let u = ek_Q st ! j;
             r1 = bfs_incident cap t u (incident g u) st;
             r2 = bfs_incoming t u (incoming g u) (snd r1)
         in bfs_queue g cap t (j + 1) (found \<or> fst r1 \<or> fst r2) (snd r2))
      else Some (found, st))"

definition reset_prev :: "nat \<Rightarrow> LocalEdge list \<Rightarrow> LocalEdge list" where
  "reset_prev n ps = map (\<lambda>p. p\<lparr>lfrom := -1\<rparr>) (take n ps) @ drop n ps"

definition BreadthFirstSearch ::
  "DynamicGraph \<Rightarrow> int list \<Rightarrow> nat \<Rightarrow> nat \<Rightarrow> EdmondsKarpDynamic
     \<Rightarrow> (int \<times> EdmondsKarpDynamic) option"
where
  "BreadthFirstSearch g cap s t st =
     (let ps = reset_prev (nodes g) (prev st);
          st0 = st\<lparr>prev := ps[s := (ps ! s)\<lparr>lfrom := -2\<rparr>], ek_Q := [s]\<rparr>
      in case bfs_queue g cap t 0 False st0 of
           None \<Rightarrow> None
         | Some (found, st') \<Rightarrow> Some (if found then ek_M st' ! t else 0, st'))"


text \<open>
  The search with the virtual shortcut arc (lines 458-534). Here the discovery of \<open>t\<close>
  returns at once. The arc from \<open>shortCircuitFrom\<close> to \<open>shortCircuitTo\<close> is tried first
  when \<open>shortCircuitFrom\<close> is taken from the queue, without the test that
  \<open>shortCircuitTo\<close> is unvisited.
\<close>

definition bfs_shortcut ::
  "nat \<Rightarrow> nat \<Rightarrow> nat \<Rightarrow> nat \<Rightarrow> int \<Rightarrow> int \<Rightarrow> EdmondsKarpDynamic \<Rightarrow> bool \<times> EdmondsKarpDynamic"
where
  "bfs_shortcut t u shortCircuitFrom shortCircuitTo shortCircuitCapacity scFlow st =
     (if u = shortCircuitFrom \<and> shortCircuitCapacity - scFlow > 0 then
        (let v = shortCircuitTo;
             st' = st\<lparr>prev := (prev st)[v := \<lparr>lfrom = int u, lid = -1, backward = False\<rparr>],
                      ek_M := (ek_M st)[v := min (ek_M st ! u) (shortCircuitCapacity - scFlow)]\<rparr>
         in if v \<noteq> t then (False, st'\<lparr>ek_Q := ek_Q st' @ [v]\<rparr>) else (True, st'))
      else (False, st))"

partial_function (option) bfs_queue_sc ::
  "DynamicGraph \<Rightarrow> int list \<Rightarrow> nat \<Rightarrow> nat \<Rightarrow> nat \<Rightarrow> int \<Rightarrow> int \<Rightarrow> nat \<Rightarrow> EdmondsKarpDynamic
     \<Rightarrow> (int \<times> EdmondsKarpDynamic) option"
where
  "bfs_queue_sc g cap t shortCircuitFrom shortCircuitTo shortCircuitCapacity scFlow j st =
     (if j < length (ek_Q st) then
        (let u = ek_Q st ! j;
             r0 = bfs_shortcut t u shortCircuitFrom shortCircuitTo shortCircuitCapacity scFlow st
         in if fst r0 then Some (ek_M (snd r0) ! t, snd r0)
            else
              (let r1 = bfs_incident cap t u (incident g u) (snd r0)
               in if fst r1 then Some (ek_M (snd r1) ! t, snd r1)
                  else
                    (let r2 = bfs_incoming t u (incoming g u) (snd r1)
                     in if fst r2 then Some (ek_M (snd r2) ! t, snd r2)
                        else bfs_queue_sc g cap t shortCircuitFrom shortCircuitTo
                               shortCircuitCapacity scFlow (j + 1) (snd r2))))
      else Some (0, st))"

definition BreadthFirstSearch_sc ::
  "DynamicGraph \<Rightarrow> int list \<Rightarrow> nat \<Rightarrow> nat \<Rightarrow> nat \<Rightarrow> nat \<Rightarrow> int \<Rightarrow> int \<Rightarrow> EdmondsKarpDynamic
     \<Rightarrow> (int \<times> EdmondsKarpDynamic) option"
where
  "BreadthFirstSearch_sc g cap s t shortCircuitFrom shortCircuitTo shortCircuitCapacity scFlow st =
     (let ps = reset_prev (nodes g) (prev st);
          st0 = st\<lparr>prev := ps[s := (ps ! s)\<lparr>lfrom := -2\<rparr>], ek_Q := [s]\<rparr>
      in bfs_queue_sc g cap t shortCircuitFrom shortCircuitTo shortCircuitCapacity scFlow 0 st0)"

subsection \<open>Augmentation\<close>

text \<open>
  The walk from \<open>t\<close> back to \<open>s\<close> along \<open>prev\<close> (lines 381-395 and 420-445), adding \<open>m\<close> on a
  forward step and subtracting it on a backward one. The walk may not end, and a negative
  \<open>from\<close> or \<open>id\<close> is an index out of bounds: both are the value \<open>None\<close>.
\<close>

definition push_flow :: "LocalEdge \<Rightarrow> int \<Rightarrow> EdmondsKarpDynamic \<Rightarrow> EdmondsKarpDynamic" where
  "push_flow e m st =
     (if backward e then st\<lparr>ek_F := (ek_F st)[nat (lid e) := ek_F st ! nat (lid e) - m]\<rparr>
      else st\<lparr>ek_F := (ek_F st)[nat (lid e) := ek_F st ! nat (lid e) + m]\<rparr>)"

partial_function (option) augment ::
  "nat \<Rightarrow> int \<Rightarrow> nat \<Rightarrow> EdmondsKarpDynamic \<Rightarrow> EdmondsKarpDynamic option"
where
  "augment s m v st =
     (if v = s then Some st
      else if lfrom (prev st ! v) < 0 \<or> lid (prev st ! v) < 0 then None
      else augment s m (nat (lfrom (prev st ! v))) (push_flow (prev st ! v) m st))"

text \<open>
  The walk of the shortcut variant (lines 617-646): a step whose edge id is negative is
  the shortcut arc; it changes no entry of \<open>F\<close> and jumps to \<open>shortCircuitFrom\<close>.
\<close>

partial_function (option) augment_sc ::
  "nat \<Rightarrow> nat \<Rightarrow> int \<Rightarrow> nat \<Rightarrow> EdmondsKarpDynamic \<Rightarrow> EdmondsKarpDynamic option"
where
  "augment_sc s shortCircuitFrom m v st =
     (if v = s then Some st
      else if lid (prev st ! v) \<ge> 0 then
        (if lfrom (prev st ! v) < 0 then None
         else augment_sc s shortCircuitFrom m (nat (lfrom (prev st ! v)))
                (push_flow (prev st ! v) m st))
      else augment_sc s shortCircuitFrom m shortCircuitFrom st)"

subsection \<open>The three augmentation loops\<close>

text \<open>\<open>maxFlow_p(s, t)\<close>, lines 410-456: classical Edmonds-Karp, adding to the member \<open>f\<close>.\<close>

partial_function (option) maxFlow_p ::
  "DynamicGraph \<Rightarrow> int list \<Rightarrow> nat \<Rightarrow> nat \<Rightarrow> EdmondsKarpDynamic
     \<Rightarrow> (int \<times> EdmondsKarpDynamic) option"
where
  "maxFlow_p g cap s t st =
     (case BreadthFirstSearch g cap s t st of
        None \<Rightarrow> None
      | Some r \<Rightarrow>
          (if fst r = 0 then Some (ek_f (snd r), snd r)
           else
             (case augment s (fst r) t ((snd r)\<lparr>ek_f := ek_f (snd r) + fst r\<rparr>) of
                None \<Rightarrow> None
              | Some st2 \<Rightarrow> maxFlow_p g cap s t st2)))"

text \<open>\<open>maxFlow_residual(s, t, bound)\<close>, lines 339-408; \<open>new_flow\<close> is the loop's local.\<close>

partial_function (option) maxFlow_residual_loop ::
  "DynamicGraph \<Rightarrow> int list \<Rightarrow> nat \<Rightarrow> nat \<Rightarrow> int \<Rightarrow> int \<Rightarrow> EdmondsKarpDynamic
     \<Rightarrow> (int \<times> EdmondsKarpDynamic) option"
where
  "maxFlow_residual_loop g cap s t bound new_flow st =
     (case BreadthFirstSearch g cap s t st of
        None \<Rightarrow> None
      | Some r \<Rightarrow>
          (let m = (if bound \<ge> 0 \<and> new_flow + fst r > bound then bound - new_flow else fst r)
           in if m \<le> 0 then Some (new_flow, snd r)
              else
                (case augment s m t (snd r) of
                   None \<Rightarrow> None
                 | Some st2 \<Rightarrow> maxFlow_residual_loop g cap s t bound (new_flow + m) st2)))"

definition maxFlow_residual ::
  "DynamicGraph \<Rightarrow> int list \<Rightarrow> nat \<Rightarrow> nat \<Rightarrow> int \<Rightarrow> EdmondsKarpDynamic
     \<Rightarrow> (int \<times> EdmondsKarpDynamic) option"
where
  "maxFlow_residual g cap s t bound st = maxFlow_residual_loop g cap s t bound 0 st"

text \<open>
  \<open>maxFlow_p(s, t, shortCircuitFrom, shortCircuitTo, bound)\<close>, lines 570-669. The bound is
  also the capacity of the shortcut arc, and the member \<open>shortCircuitFlow\<close> is its flow:
  it is set to zero on entry and never changed.
\<close>

partial_function (option) maxFlow_p_sc_loop ::
  "DynamicGraph \<Rightarrow> int list \<Rightarrow> nat \<Rightarrow> nat \<Rightarrow> nat \<Rightarrow> nat \<Rightarrow> int \<Rightarrow> int \<Rightarrow> EdmondsKarpDynamic
     \<Rightarrow> (int \<times> EdmondsKarpDynamic) option"
where
  "maxFlow_p_sc_loop g cap s t shortCircuitFrom shortCircuitTo bound newFlow st =
     (case BreadthFirstSearch_sc g cap s t shortCircuitFrom shortCircuitTo bound
             (shortCircuitFlow st) st of
        None \<Rightarrow> None
      | Some r \<Rightarrow>
          (let m = (if bound \<ge> 0 \<and> newFlow + fst r > bound then bound - newFlow else fst r)
           in if m = 0 then Some (newFlow, snd r)
              else
                (case augment_sc s shortCircuitFrom m t (snd r) of
                   None \<Rightarrow> None
                 | Some st2 \<Rightarrow>
                     maxFlow_p_sc_loop g cap s t shortCircuitFrom shortCircuitTo bound
                       (newFlow + m) st2)))"

definition maxFlow_p_sc ::
  "DynamicGraph \<Rightarrow> int list \<Rightarrow> nat \<Rightarrow> nat \<Rightarrow> nat \<Rightarrow> nat \<Rightarrow> int \<Rightarrow> EdmondsKarpDynamic
     \<Rightarrow> (int \<times> EdmondsKarpDynamic) option"
where
  "maxFlow_p_sc g cap s t shortCircuitFrom shortCircuitTo bound st =
     maxFlow_p_sc_loop g cap s t shortCircuitFrom shortCircuitTo bound 0
       (st\<lparr>shortCircuitFlow := 0\<rparr>)"


subsection \<open>\<open>maxFlow\<close>\<close>

definition resize_list :: "nat \<Rightarrow> 'a \<Rightarrow> 'a list \<Rightarrow> 'a list" where
  "resize_list n d xs = take n xs @ replicate (n - length xs) d"

text \<open>The full reinitialisation of lines 206-219.\<close>

definition full_reinit :: "DynamicGraph \<Rightarrow> nat \<Rightarrow> EdmondsKarpDynamic \<Rightarrow> EdmondsKarpDynamic" where
  "full_reinit g s st =
     (let ps = map (\<lambda>p. p\<lparr>lfrom := -1\<rparr>)
                 (resize_list (nodes g) \<lparr>lfrom = -1, lid = -1, backward = False\<rparr> (prev st))
      in st\<lparr>ek_F := replicate (length (all_edges g)) 0,
             prev := ps[s := (ps ! s)\<lparr>lfrom := -2\<rparr>],
             ek_M := (replicate (nodes g) 0)[s := ek_INF],
             ek_f := 0,
             edge_enabled := map (\<lambda>i. isEdge g i \<and> edgeEnabled g i) [0..<edges g]\<rparr>)"

text \<open>
  The repair after the deletion of an edge that carries flow (lines 251-274). The
  result says whether \<open>needsReflow\<close> was set. The calls are
  \<open>maxFlow_residual(u, v, fv)\<close> and \<open>maxFlow_p(u, v, s, t, delta)\<close>.
\<close>

definition repair_deleted_edge ::
  "DynamicGraph \<Rightarrow> int list \<Rightarrow> nat \<Rightarrow> nat \<Rightarrow> nat \<Rightarrow> EdmondsKarpDynamic
     \<Rightarrow> (bool \<times> EdmondsKarpDynamic) option"
where
  "repair_deleted_edge g cap s t edgeid st =
     (let fv0 = ek_F st ! edgeid;
          u = (if fv0 < 0 then snd (all_edges g ! edgeid) else fst (all_edges g ! edgeid));
          v = (if fv0 < 0 then fst (all_edges g ! edgeid) else snd (all_edges g ! edgeid));
          fv = (if fv0 < 0 then - fv0 else fv0)
      in case maxFlow_residual g cap u v fv st of
           None \<Rightarrow> None
         | Some r \<Rightarrow>
             (if fst r = fv then Some (False, (snd r)\<lparr>ek_F := (ek_F (snd r))[edgeid := 0]\<rparr>)
              else
                (case maxFlow_p_sc g cap u v s t (fv - fst r) (snd r) of
                   None \<Rightarrow> None
                 | Some r2 \<Rightarrow> Some (True, (snd r2)\<lparr>ek_F := (ek_F (snd r2))[edgeid := 0]\<rparr>))))"

text \<open>
  One turn of the replay loop (lines 239-277) on the event \<open>(edgeid, addition)\<close>; the
  accumulator holds \<open>added_Edges\<close>, \<open>needsReflow\<close> and the engine.
\<close>

definition replay_event ::
  "DynamicGraph \<Rightarrow> int list \<Rightarrow> nat \<Rightarrow> nat \<Rightarrow> nat \<times> bool \<Rightarrow> bool \<times> bool \<times> EdmondsKarpDynamic
     \<Rightarrow> (bool \<times> bool \<times> EdmondsKarpDynamic) option"
where
  "replay_event g cap s t ev acc =
     (let edgeid = fst ev; addition = snd ev;
          added_Edges = fst acc; needsReflow = fst (snd acc); st = snd (snd acc)
      in if addition \<and> edgeEnabled g edgeid then
           Some (True, needsReflow, st\<lparr>edge_enabled := (edge_enabled st)[edgeid := True]\<rparr>)
         else if \<not> addition \<and> \<not> edgeEnabled g edgeid then
           (let st1 = st\<lparr>edge_enabled := (edge_enabled st)[edgeid := False]\<rparr>
            in if ek_F st1 ! edgeid = 0 then Some (added_Edges, needsReflow, st1)
               else
                 (case repair_deleted_edge g cap s t edgeid st1 of
                    None \<Rightarrow> None
                  | Some r \<Rightarrow> Some (added_Edges, needsReflow \<or> fst r, snd r)))
         else Some acc)"

fun replay ::
  "DynamicGraph \<Rightarrow> int list \<Rightarrow> nat \<Rightarrow> nat \<Rightarrow> (nat \<times> bool) list \<Rightarrow> bool \<times> bool \<times> EdmondsKarpDynamic
     \<Rightarrow> (bool \<times> bool \<times> EdmondsKarpDynamic) option"
where
  "replay g cap s t [] acc = Some acc"
| "replay g cap s t (ev # evs) acc =
     (case replay_event g cap s t ev acc of
        None \<Rightarrow> None
      | Some acc' \<Rightarrow> replay g cap s t evs acc')"

text \<open>The recount of lines 280-290: the sum of \<open>F\<close> over the enabled edges leaving \<open>s\<close>.\<close>

definition reflow :: "DynamicGraph \<Rightarrow> nat \<Rightarrow> EdmondsKarpDynamic \<Rightarrow> int" where
  "reflow g s st =
     sum_list (map (\<lambda>e. if edge_enabled st ! snd e then ek_F st ! snd e else 0) (incident g s))"

text \<open>The end of \<open>maxFlow\<close> (lines 326-332): the cached value and the version stamps.\<close>

definition update_stamps :: "DynamicGraph \<Rightarrow> EdmondsKarpDynamic \<Rightarrow> EdmondsKarpDynamic" where
  "update_stamps g st =
     st\<lparr>curflow := ek_f st,
        last_modification := modifications g,
        last_deletion := deletions g,
        last_addition := additions g,
        history_qhead := length (history g),
        last_history_clear := historyclears g\<rparr>"

text \<open>
  \<open>maxFlow(s, t)\<close>, lines 172-334, as the release build runs it (the assertions and the
  blocks under \<open>DEBUG_MAXFLOW\<close> are compiled out). The first branch is the cache hit; the
  second the full recomputation, after which the replay loop still runs.
\<close>

definition maxFlow ::
  "DynamicGraph \<Rightarrow> int list \<Rightarrow> nat \<Rightarrow> nat \<Rightarrow> EdmondsKarpDynamic
     \<Rightarrow> (int \<times> EdmondsKarpDynamic) option"
where
  "maxFlow g cap s t st =
     (if last_modification st > 0 \<and> modifications g = last_modification st then
        Some (curflow st, st)
      else
        (case (if last_modification st \<le> 0 \<or> historyclears g \<noteq> last_history_clear st
                  \<or> is_changed g
               then (case maxFlow_p g cap s t (full_reinit g s st) of
                       None \<Rightarrow> None
                     | Some r \<Rightarrow> Some ((snd r)\<lparr>ek_f := fst r\<rparr>))
               else Some st) of
           None \<Rightarrow> None
         | Some st1 \<Rightarrow>
             (case replay g cap s t (drop (history_qhead st1) (history g)) (False, False, st1) of
                None \<Rightarrow> None
              | Some acc \<Rightarrow>
                  (let added_Edges = fst acc; needsReflow = fst (snd acc); st2 = snd (snd acc);
                       st3 = (if needsReflow then st2\<lparr>ek_f := reflow g s st2\<rparr> else st2)
                   in case (if added_Edges
                            then (case maxFlow_p g cap s t st3 of
                                    None \<Rightarrow> None
                                  | Some r \<Rightarrow> Some ((snd r)\<lparr>ek_f := fst r\<rparr>))
                            else Some st3) of
                        None \<Rightarrow> None
                      | Some st4 \<Rightarrow> Some (ek_f st4, update_stamps g st4)))))"

subsection \<open>\<open>minCut\<close>\<close>

text \<open>The two inner loops of the residual exploration (lines 720-743).\<close>

fun cut_incident ::
  "DynamicGraph \<Rightarrow> int list \<Rightarrow> nat \<Rightarrow> (nat \<times> nat) list \<Rightarrow> MaxFlowEdge list \<times> EdmondsKarpDynamic
     \<Rightarrow> MaxFlowEdge list \<times> EdmondsKarpDynamic"
where
  "cut_incident g cap u [] cs = cs"
| "cut_incident g cap u ((v, i) # es) cs =
     (if \<not> edgeEnabled g i then cut_incident g cap u es cs
      else if cap ! i - ek_F (snd cs) ! i = 0 then
        cut_incident g cap u es (fst cs @ [\<lparr>mf_u = u, mf_v = v, mf_id = i\<rparr>], snd cs)
      else if \<not> seen (snd cs) ! v then
        cut_incident g cap u es
          (fst cs, (snd cs)\<lparr>ek_Q := ek_Q (snd cs) @ [v], seen := (seen (snd cs))[v := True]\<rparr>)
      else cut_incident g cap u es cs)"

fun cut_incoming ::
  "DynamicGraph \<Rightarrow> (nat \<times> nat) list \<Rightarrow> EdmondsKarpDynamic \<Rightarrow> EdmondsKarpDynamic"
where
  "cut_incoming g [] st = st"
| "cut_incoming g ((v, i) # es) st =
     (if \<not> edgeEnabled g i then cut_incoming g es st
      else if ek_F st ! i = 0 then cut_incoming g es st
      else if \<not> seen st ! v then
        cut_incoming g es (st\<lparr>ek_Q := ek_Q st @ [v], seen := (seen st)[v := True]\<rparr>)
      else cut_incoming g es st)"

partial_function (option) cut_queue ::
  "DynamicGraph \<Rightarrow> int list \<Rightarrow> nat \<Rightarrow> MaxFlowEdge list \<times> EdmondsKarpDynamic
     \<Rightarrow> (MaxFlowEdge list \<times> EdmondsKarpDynamic) option"
where
  "cut_queue g cap j cs =
     (if j < length (ek_Q (snd cs)) then
        (let u = ek_Q (snd cs) ! j;
             cs1 = cut_incident g cap u (incident g u) cs
         in cut_queue g cap (j + 1) (fst cs1, cut_incoming g (incoming g u) (snd cs1)))
      else Some cs)"

text \<open>
  \<open>minCut(s, t, cut)\<close>, lines 707-763. The vector \<open>cut\<close> is the caller's; the function
  appends to it and then filters all of it.
\<close>

definition minCut ::
  "DynamicGraph \<Rightarrow> int list \<Rightarrow> nat \<Rightarrow> nat \<Rightarrow> MaxFlowEdge list \<Rightarrow> EdmondsKarpDynamic
     \<Rightarrow> (int \<times> MaxFlowEdge list \<times> EdmondsKarpDynamic) option"
where
  "minCut g cap s t cut0 st =
     (case maxFlow g cap s t st of
        None \<Rightarrow> None
      | Some r \<Rightarrow>
          (let st1 = (snd r)\<lparr>ek_Q := [s], seen := (replicate (nodes g) False)[s := True]\<rparr>
           in case cut_queue g cap 0 (cut0, st1) of
                None \<Rightarrow> None
              | Some cs \<Rightarrow>
                  Some (fst r,
                        filter (\<lambda>e. \<not> seen (snd cs) ! mf_v e \<and> seen (snd cs) ! mf_u e) (fst cs),
                        snd cs)))"


section \<open>Minimal cover selection: \<open>Cover.h\<close>\<close>

subsection \<open>The solver collaborator\<close>

text \<open>
  Modelled from the spec: the literals, the three truth values and the read-only view of
  the solver (\<open>core/Solver.h\<close> and \<open>core/SolverTypes.h\<close> are not among the sources). A literal is
  a variable with a sign (\<open>mkLit v False\<close> is the positive literal, as \<open>mkLit(v)\<close> in the
  source) or the constant \<open>lit_Undef\<close>; \<open>lit_value\<close> is the solver's \<open>value(literal)\<close>. A
  watcher carries the clause its reference denotes and a blocker literal.
\<close>

datatype Lit = mkLit (var: nat) (sign: bool) | lit_Undef

datatype lbool = l_True | l_False | l_Undef

fun lit_neg :: "Lit \<Rightarrow> Lit" where
  "lit_neg (mkLit v b) = mkLit v (\<not> b)"
| "lit_neg lit_Undef = lit_Undef"

record Watcher =
  cref :: "Lit list"
  blocker :: Lit

record Solver =
  nVars :: nat
  assigns :: "lbool list"
  trail :: "Lit list"
  trail_lim :: "nat list"
  clauses :: "Lit list list"
  watches :: "Lit \<Rightarrow> Watcher list"

definition decisionLevel :: "Solver \<Rightarrow> nat" where
  "decisionLevel S = length (trail_lim S)"

fun lit_value :: "Solver \<Rightarrow> Lit \<Rightarrow> lbool" where
  "lit_value S (mkLit v b) =
     (case assigns S ! v of
        l_Undef \<Rightarrow> l_Undef
      | l_True \<Rightarrow> (if b then l_False else l_True)
      | l_False \<Rightarrow> (if b then l_True else l_False))"
| "lit_value S lit_Undef = l_Undef"

text \<open>
  Modelled from the spec: the sort of \<open>mtl/Sort.h\<close> (absent), by descending greedy score;
  among equal scores the insertion order decides.
\<close>

definition sort_cover_lt :: "int list \<Rightarrow> Lit list \<Rightarrow> Lit list" where
  "sort_cover_lt score ls = sort_key (\<lambda>l. - (score ! var l)) ls"

subsection \<open>The cover engine's state\<close>

text \<open>
  The members of \<open>Cover\<close>; \<open>include\<close> and \<open>subset\<close> are written \<open>incl\<close> and \<open>subset_vars\<close>.
\<close>

record Cover =
  uncovered :: "Lit list list"
  coverCount :: "int list"
  mVarsGreedyScore :: "int list"
  mVarsInUncCls :: "nat list list"
  potentialCoverLits :: "Lit list"
  in_cover :: "bool list"
  subset_vars :: "nat list"
  incl :: "bool list"

definition Cover_init :: Cover where
  "Cover_init =
     \<lparr>uncovered = [], coverCount = [], mVarsGreedyScore = [], mVarsInUncCls = [],
      potentialCoverLits = [], in_cover = [], subset_vars = [], incl = []\<rparr>"

definition growTo :: "nat \<Rightarrow> 'a \<Rightarrow> 'a list \<Rightarrow> 'a list" where
  "growTo n pad xs = xs @ replicate (n - length xs) pad"

definition excludeFromCover :: "nat \<Rightarrow> bool \<Rightarrow> Cover \<Rightarrow> Cover" where
  "excludeFromCover v exclude st =
     st\<lparr>incl := (growTo (v + 1) True (incl st))[v := \<not> exclude]\<rparr>"

subsection \<open>\<open>getCover\<close>: the common prefix\<close>

text \<open>Lines 73-83: grow \<open>include\<close>, build \<open>subset\<close> when it is empty, reset \<open>in_cover\<close>.\<close>

definition cover_prelude :: "Solver \<Rightarrow> Cover \<Rightarrow> Cover" where
  "cover_prelude S st =
     (let inc = growTo (nVars S) True (incl st)
      in st\<lparr>incl := inc,
             subset_vars := (if subset_vars st = [] then filter (\<lambda>i. inc ! i) [0..<length inc]
                             else subset_vars st),
             in_cover := replicate (nVars S) False\<rparr>)"

text \<open>Lines 87-97: the literals of the trail at decision level 0 that may be in the cover.\<close>

fun level0_pass :: "Lit list \<Rightarrow> Lit list \<times> Cover \<Rightarrow> Lit list \<times> Cover" where
  "level0_pass [] cs = cs"
| "level0_pass (l # ls) cs =
     (if incl (snd cs) ! var l then
        level0_pass ls
          (fst cs @ [l], (snd cs)\<lparr>in_cover := (in_cover (snd cs))[var l := True]\<rparr>)
      else level0_pass ls cs)"

definition level0_count :: "Solver \<Rightarrow> nat" where
  "level0_count S = (if decisionLevel S = 0 then length (trail S) else trail_lim S ! 0)"

subsection \<open>Fast mode\<close>

text \<open>
  The loop over the watchers of one variable (lines 161-195): whether it leaves by
  pushing \<open>p\<close> on the cover.
\<close>

fun fast_watchers :: "Solver \<Rightarrow> Cover \<Rightarrow> Lit \<Rightarrow> Watcher list \<Rightarrow> bool" where
  "fast_watchers S st p [] = False"
| "fast_watchers S st p (w # ws) =
     (if blocker w \<noteq> lit_Undef \<and> lit_value S (blocker w) = l_True
         \<and> (\<not> incl st ! var (blocker w) \<or> in_cover st ! var (blocker w))
      then fast_watchers S st p ws
      else
        (let other_watcher = (if cref w ! 0 = p then cref w ! 1 else cref w ! 0)
         in if lit_value S other_watcher = l_True then
              (if \<not> incl st ! var other_watcher \<or> in_cover st ! var other_watcher
               then fast_watchers S st p ws
               else True)
            else True))"

text \<open>The loop over \<open>subset\<close> (lines 147-197).\<close>

fun fast_pass :: "Solver \<Rightarrow> nat list \<Rightarrow> Lit list \<times> Cover \<Rightarrow> Lit list \<times> Cover" where
  "fast_pass S [] cs = cs"
| "fast_pass S (v # vs) cs =
     (if in_cover (snd cs) ! v then fast_pass S vs cs
      else
        (let p = (if lit_value S (mkLit v False) = l_False then lit_neg (mkLit v False)
                  else mkLit v False)
         in if fast_watchers S (snd cs) p (watches S (lit_neg p)) then
              fast_pass S vs
                (fst cs @ [p], (snd cs)\<lparr>in_cover := (in_cover (snd cs))[v := True]\<rparr>)
            else fast_pass S vs cs))"

subsection \<open>Exact mode\<close>

text \<open>
  The scan of one clause in the forced pass (lines 224-245): the pair \<open>(lit1count, plit)\<close>.
\<close>

fun forced_scan :: "Solver \<Rightarrow> bool list \<Rightarrow> Lit list \<Rightarrow> int \<times> Lit \<Rightarrow> int \<times> Lit" where
  "forced_scan S inc [] acc = acc"
| "forced_scan S inc (l # ls) acc =
     (if lit_value S l \<noteq> l_False then
        (if \<not> inc ! var l then (0, snd acc)
         else if fst acc \<noteq> 0 then (fst acc + 1, l)
         else forced_scan S inc ls (fst acc + 1, l))
      else forced_scan S inc ls acc)"

text \<open>The forced pass over the clauses \<open>i, i + 1, ...\<close> (lines 216-259).\<close>

fun forced_pass ::
  "Solver \<Rightarrow> nat \<Rightarrow> Lit list list \<Rightarrow> Lit list \<times> Cover \<Rightarrow> Lit list \<times> Cover"
where
  "forced_pass S i [] cs = cs"
| "forced_pass S i (c # rest) cs =
     (let r = forced_scan S (incl (snd cs)) c (0, lit_Undef)
      in if fst r = 1 then
           (let st1 = (snd cs)\<lparr>coverCount := (coverCount (snd cs))[i := coverCount (snd cs) ! i + 1]\<rparr>
            in if \<not> in_cover st1 ! var (snd r) then
                 forced_pass S (i + 1) rest
                   (fst cs @ [snd r], st1\<lparr>in_cover := (in_cover st1)[var (snd r) := True]\<rparr>)
               else forced_pass S (i + 1) rest (fst cs, st1))
         else forced_pass S (i + 1) rest cs)"

text \<open>
  The scan of one clause in the second pass (lines 266-303): whether the clause is
  already satisfied (\<open>sat\<close>), and otherwise its true literals, which are eligible and not in
  the cover.
\<close>

fun second_scan :: "Solver \<Rightarrow> Cover \<Rightarrow> Lit list \<Rightarrow> Lit list \<Rightarrow> bool \<times> Lit list" where
  "second_scan S st [] unc = (False, unc)"
| "second_scan S st (l # ls) unc =
     (if lit_value S l = l_True then
        (if \<not> incl st ! var l then (True, [])
         else if in_cover st ! var l then (True, [])
         else second_scan S st ls (unc @ [l]))
      else second_scan S st ls unc)"

text \<open>Lines 311-325: the greedy scores and the per-variable clause lists of clause \<open>i\<close>.\<close>

fun score_clause :: "nat \<Rightarrow> Lit list \<Rightarrow> Cover \<Rightarrow> Cover" where
  "score_clause i [] st = st"
| "score_clause i (l # ls) st =
     score_clause i ls
       (st\<lparr>mVarsGreedyScore := (mVarsGreedyScore st)[var l := mVarsGreedyScore st ! var l + 1],
           potentialCoverLits := (if mVarsGreedyScore st ! var l = 0
                                  then potentialCoverLits st @ [l]
                                  else potentialCoverLits st),
           mVarsInUncCls := (mVarsInUncCls st)[var l := mVarsInUncCls st ! var l @ [i]]\<rparr>)"

fun second_pass :: "Solver \<Rightarrow> nat \<Rightarrow> Lit list list \<Rightarrow> Cover \<Rightarrow> Cover" where
  "second_pass S i [] st = st"
| "second_pass S i (c # rest) st =
     (let r = second_scan S st c []
      in if fst r then
           second_pass S (i + 1) rest
             (st\<lparr>coverCount := (coverCount st)[i := coverCount st ! i + 1],
                 uncovered := (uncovered st)[i := []]\<rparr>)
         else
           second_pass S (i + 1) rest
             (score_clause i (snd r) (st\<lparr>uncovered := (uncovered st)[i := snd r]\<rparr>)))"

text \<open>Incrementing (\<open>d = 1\<close>) or decrementing (\<open>d = -1\<close>) the cover count of each listed clause.\<close>

fun bump_counts :: "int \<Rightarrow> nat list \<Rightarrow> int list \<Rightarrow> int list" where
  "bump_counts d [] cc = cc"
| "bump_counts d (c # cls) cc = bump_counts d cls (cc[c := cc ! c + d])"

text \<open>
  The third pass (lines 336-372). \<open>n\<close> is the number of clauses, \<open>i\<close> the clause index and
  \<open>scoreRank\<close> the index into \<open>potentialCoverLits\<close>. Reading \<open>potentialCoverLits\<close> past its
  end is out of bounds: the value \<open>None\<close>.
\<close>

function greedy_pass ::
  "nat \<Rightarrow> nat \<Rightarrow> nat \<Rightarrow> Lit list \<times> Cover \<Rightarrow> (Lit list \<times> Cover) option"
where
  "greedy_pass n i scoreRank cs =
     (if i < n \<and> coverCount (snd cs) ! i \<noteq> 0 then greedy_pass n (i + 1) scoreRank cs
      else if i \<ge> n then Some cs
      else if scoreRank \<ge> length (potentialCoverLits (snd cs)) then None
      else
        (let inVid = potentialCoverLits (snd cs) ! scoreRank;
             inUncCls = mVarsInUncCls (snd cs) ! var inVid
         in if \<exists>clause \<in> set inUncCls. coverCount (snd cs) ! clause = 0 then
              greedy_pass n i (scoreRank + 1)
                (fst cs @ [inVid],
                 (snd cs)\<lparr>coverCount := bump_counts 1 inUncCls (coverCount (snd cs))\<rparr>)
            else greedy_pass n i (scoreRank + 1) cs))"
  by pat_completeness auto
termination
  by (relation "measure (\<lambda>(n, i, scoreRank, cs).
        (n - i) + (length (potentialCoverLits (snd cs)) - scoreRank))") auto

text \<open>
  The pruning pass (lines 384-418). The leading cover literals whose clause list is empty
  are skipped; each later literal is dropped when none of its clauses has cover count 1.
\<close>

fun prune_pass :: "nat list list \<Rightarrow> Lit list \<Rightarrow> Lit list \<times> int list \<Rightarrow> Lit list \<times> int list" where
  "prune_pass cls_lists [] acc = acc"
| "prune_pass cls_lists (l # ls) acc =
     (let vidCovered = cls_lists ! var l
      in if \<exists>clsid \<in> set vidCovered. snd acc ! clsid = 1 then
           prune_pass cls_lists ls (fst acc @ [l], snd acc)
         else prune_pass cls_lists ls (fst acc, bump_counts (-1) vidCovered (snd acc)))"

definition exact_reset :: "Solver \<Rightarrow> Cover \<Rightarrow> Cover" where
  "exact_reset S st =
     st\<lparr>potentialCoverLits := [],
        coverCount := replicate (length (clauses S) + 1) 0,
        mVarsGreedyScore := replicate (nVars S) 0,
        uncovered := map (\<lambda>_. []) (growTo (length (clauses S) + 1) [] (uncovered st)),
        mVarsInUncCls := map (\<lambda>_. []) (growTo (nVars S) [] (mVarsInUncCls st))\<rparr>"

definition exact_cover :: "Solver \<Rightarrow> Lit list \<times> Cover \<Rightarrow> (Lit list \<times> Cover) option" where
  "exact_cover S cs0 =
     (let cs1 = forced_pass S 0 (clauses S) (fst cs0, exact_reset S (snd cs0));
          st2 = second_pass S 0 (clauses S) (snd cs1);
          st3 = st2\<lparr>potentialCoverLits :=
                      sort_cover_lt (mVarsGreedyScore st2) (potentialCoverLits st2)\<rparr>
      in case greedy_pass (length (clauses S)) 0 0 (fst cs1, st3) of
           None \<Rightarrow> None
         | Some cs4 \<Rightarrow>
             (let cls_lists = mVarsInUncCls (snd cs4);
                  kept = takeWhile (\<lambda>l. cls_lists ! var l = []) (fst cs4);
                  r = prune_pass cls_lists (dropWhile (\<lambda>l. cls_lists ! var l = []) (fst cs4))
                        (kept, coverCount (snd cs4))
              in Some (fst r, (snd cs4)\<lparr>coverCount := snd r\<rparr>)))"

text \<open>
  \<open>getCover(S, cover)\<close>, lines 71-466; the option \<open>opt_fast_partial\<close> is the first
  argument. The out-parameter is cleared on entry, so only its final value is returned.
\<close>

definition getCover :: "bool \<Rightarrow> Solver \<Rightarrow> Cover \<Rightarrow> (Lit list \<times> Cover) option" where
  "getCover opt_fast_partial S st =
     (let cs0 = level0_pass (take (level0_count S) (trail S)) ([], cover_prelude S st)
      in if opt_fast_partial then Some (fast_pass S (subset_vars (snd cs0)) cs0)
         else exact_cover S cs0)"


section \<open>Scenarios and auxiliary notions\<close>

text \<open>
  Flow scenario A of the specification: nodes \<open>0..3\<close>, the edges \<open>0\<rightarrow>1\<close> (capacity 3),
  \<open>0\<rightarrow>2\<close> (2), \<open>1\<rightarrow>2\<close> (1), \<open>1\<rightarrow>3\<close> (2) and \<open>2\<rightarrow>3\<close> (3) with the ids \<open>0..4\<close>, all enabled, an
  empty log and a cleared \<open>changed\<close> flag.
\<close>

definition graph_A :: DynamicGraph where
  "graph_A =
     \<lparr>nodes = 4, all_edges = [(0, 1), (0, 2), (1, 2), (1, 3), (2, 3)],
      edge_status = [True, True, True, True, True], history = [],
      modifications = 5, additions = 5, deletions = 0, historyclears = 0,
      is_changed = False\<rparr>"

definition capacity_A :: "int list" where
  "capacity_A = [3, 2, 1, 2, 3]"

text \<open>The engine after the first \<open>maxFlow(0, 3)\<close> on scenario A.\<close>

definition engine_A :: EdmondsKarpDynamic where
  "engine_A =
     \<lparr>ek_f = 5, ek_F = [3, 2, 1, 2, 3], shortCircuitFlow = 0, curflow = 5,
      last_modification = 5, last_deletion = 0, last_addition = 5,
      history_qhead = 0, last_history_clear = 0,
      prev = [\<lparr>lfrom = - 2, lid = - 1, backward = False\<rparr>,
              \<lparr>lfrom = - 1, lid = 0, backward = False\<rparr>,
              \<lparr>lfrom = - 1, lid = 2, backward = False\<rparr>,
              \<lparr>lfrom = - 1, lid = 4, backward = False\<rparr>],
      ek_M = [15790320, 1, 1, 1], ek_Q = [0],
      edge_enabled = [True, True, True, True, True], seen = []\<rparr>"

text \<open>
  A graph with a cycle through the source: nodes \<open>0..2\<close>, the edges \<open>0\<rightarrow>1\<close>, \<open>1\<rightarrow>2\<close> and
  \<open>1\<rightarrow>0\<close> with the ids \<open>0..2\<close>, each of capacity 1 and enabled.
\<close>

definition graph_B :: DynamicGraph where
  "graph_B =
     \<lparr>nodes = 3, all_edges = [(0, 1), (1, 2), (1, 0)],
      edge_status = [True, True, True], history = [],
      modifications = 3, additions = 3, deletions = 0, historyclears = 0,
      is_changed = False\<rparr>"

definition capacity_B :: "int list" where
  "capacity_B = [1, 1, 1]"

text \<open>The engine after the first \<open>maxFlow(0, 2)\<close> on \<open>graph_B\<close>.\<close>

definition engine_B :: EdmondsKarpDynamic where
  "engine_B =
     \<lparr>ek_f = 1, ek_F = [1, 1, 0], shortCircuitFlow = 0, curflow = 1,
      last_modification = 3, last_deletion = 0, last_addition = 3,
      history_qhead = 0, last_history_clear = 0,
      prev = [\<lparr>lfrom = - 2, lid = - 1, backward = False\<rparr>,
              \<lparr>lfrom = - 1, lid = 0, backward = False\<rparr>,
              \<lparr>lfrom = - 1, lid = 1, backward = False\<rparr>],
      ek_M = [15790320, 1, 1], ek_Q = [0],
      edge_enabled = [True, True, True], seen = []\<rparr>"

text \<open>
  The repair as the specification words it, with the shortcut arc from \<open>u\<close> to \<open>v\<close>: the
  definition \<open>repair_deleted_edge\<close> with \<open>maxFlow_p(u, v, u, v, delta)\<close> for the second call.
  It is compared with the source's \<open>repair_deleted_edge\<close> below.
\<close>

definition repair_deleted_edge_as_specified ::
  "DynamicGraph \<Rightarrow> int list \<Rightarrow> nat \<Rightarrow> nat \<Rightarrow> nat \<Rightarrow> EdmondsKarpDynamic
     \<Rightarrow> (bool \<times> EdmondsKarpDynamic) option"
where
  "repair_deleted_edge_as_specified g cap s t edgeid st =
     (let fv0 = ek_F st ! edgeid;
          u = (if fv0 < 0 then snd (all_edges g ! edgeid) else fst (all_edges g ! edgeid));
          v = (if fv0 < 0 then fst (all_edges g ! edgeid) else snd (all_edges g ! edgeid));
          fv = (if fv0 < 0 then - fv0 else fv0)
      in case maxFlow_residual g cap u v fv st of
           None \<Rightarrow> None
         | Some r \<Rightarrow>
             (if fst r = fv then Some (False, (snd r)\<lparr>ek_F := (ek_F (snd r))[edgeid := 0]\<rparr>)
              else
                (case maxFlow_p_sc g cap u v u v (fv - fst r) (snd r) of
                   None \<Rightarrow> None
                 | Some r2 \<Rightarrow> Some (True, (snd r2)\<lparr>ek_F := (ek_F (snd r2))[edgeid := 0]\<rparr>))))"


text \<open>
  A solver state with the single clause \<open>x0 \<or> x1\<close>, both variables true, and the two
  watchers of the clause (the clause is watched through the negation of each of its first
  two literals, the other one being the blocker).
\<close>

definition solver_B :: Solver where
  "solver_B =
     \<lparr>nVars = 2, assigns = [l_True, l_True], trail = [], trail_lim = [],
      clauses = [[mkLit 0 False, mkLit 1 False]],
      watches = (\<lambda>l. if l = mkLit 0 True
                      then [\<lparr>cref = [mkLit 0 False, mkLit 1 False], blocker = mkLit 1 False\<rparr>]
                      else if l = mkLit 1 True
                      then [\<lparr>cref = [mkLit 0 False, mkLit 1 False], blocker = mkLit 0 False\<rparr>]
                      else [])\<rparr>"


text \<open>Scenario A after edge \<open>1\<rightarrow>3\<close> is disabled, and the engine after the replay of that event.\<close>

definition graph_A' :: DynamicGraph where
  "graph_A' = disableEdge 3 graph_A"

definition engine_A' :: EdmondsKarpDynamic where
  "engine_A' =
     \<lparr>ek_f = 5, ek_F = [1, 2, 1, 0, 3], shortCircuitFlow = 0, curflow = 5,
      last_modification = 5, last_deletion = 0, last_addition = 5,
      history_qhead = 0, last_history_clear = 0,
      prev = [\<lparr>lfrom = 1, lid = 0, backward = True\<rparr>,
              \<lparr>lfrom = - 2, lid = 0, backward = False\<rparr>,
              \<lparr>lfrom = - 1, lid = 2, backward = False\<rparr>,
              \<lparr>lfrom = 0, lid = - 1, backward = False\<rparr>],
      ek_M = [1, 1, 1, 1], ek_Q = [1, 0],
      edge_enabled = [True, True, True, False, True], seen = []\<rparr>"

text \<open>The cover engine after the first \<open>getCover\<close> on \<open>solver_B\<close> in fast mode.\<close>

definition cover_B :: Cover where
  "cover_B =
     \<lparr>uncovered = [], coverCount = [], mVarsGreedyScore = [], mVarsInUncCls = [],
      potentialCoverLits = [], in_cover = [True, False], subset_vars = [0, 1],
      incl = [True, True]\<rparr>"

subsection \<open>The invariants of the exact mode\<close>

text \<open>
  A clause is covered before the second pass: it has a true literal whose variable is
  excluded, or already in the cover (the test of lines 279-288).
\<close>

definition pre_covered :: "Solver \<Rightarrow> Cover \<Rightarrow> Lit list \<Rightarrow> bool" where
  "pre_covered S st c =
     (\<exists>l\<in>set c. lit_value S l = l_True \<and> (\<not> incl st ! var l \<or> in_cover st ! var l))"

text \<open>
  How many times clause \<open>i\<close> occurs in the clause lists of the literals of \<open>G\<close>.
\<close>

definition cover_mult :: "nat list list \<Rightarrow> Lit list \<Rightarrow> nat \<Rightarrow> int" where
  "cover_mult cls_lists G i = (\<Sum>L\<leftarrow>G. int (count_list (cls_lists ! var L) i))"

text \<open>
  The literals pushed by the level-0 pass and the forced pass are true and flagged in
  \<open>in_cover\<close>.
\<close>

definition prefix_ok :: "Solver \<Rightarrow> Cover \<Rightarrow> Lit list \<Rightarrow> bool" where
  "prefix_ok S st P =
     (\<forall>l\<in>set P. var l < length (in_cover st) \<and> in_cover st ! var l \<and> lit_value S l = l_True)"

text \<open>
  The data invariant of the solver the engine reads: the literals of the clauses are defined
  and their variables exist, and the literals of the trail at decision level 0 are true.
\<close>

definition solver_wf :: "Solver \<Rightarrow> bool" where
  "solver_wf S =
     ((\<forall>c\<in>set (clauses S). \<forall>l\<in>set c. l \<noteq> lit_Undef \<and> var l < nVars S) \<and>
      (\<forall>l\<in>set (take (level0_count S) (trail S)).
          l \<noteq> lit_Undef \<and> var l < nVars S \<and> lit_value S l = l_True))"

text \<open>
  The precondition of \<open>getCover\<close>: every variable that may be in the cover has a value.
\<close>

definition eligible_assigned :: "Solver \<Rightarrow> bool list \<Rightarrow> bool" where
  "eligible_assigned S inc = (\<forall>v<nVars S. inc ! v \<longrightarrow> assigns S ! v \<noteq> l_Undef)"

text \<open>
  The invariant of the forced pass: a clause with a non-zero count holds a true literal that
  is in the cover.
\<close>

definition forced_inv :: "Solver \<Rightarrow> Lit list \<times> Cover \<Rightarrow> bool" where
  "forced_inv S cs =
     (prefix_ok S (snd cs) (fst cs) \<and>
      length (in_cover (snd cs)) = nVars S \<and>
      length (coverCount (snd cs)) = length (clauses S) + 1 \<and>
      (\<forall>j<length (clauses S). coverCount (snd cs) ! j \<noteq> 0 \<longrightarrow>
          (\<exists>l\<in>set (clauses S ! j). lit_value S l = l_True \<and> in_cover (snd cs) ! var l)))"

text \<open>
  The candidates of the second pass: distinct variables, true, with a non-zero score.
\<close>

definition pcl_ok :: "Solver \<Rightarrow> Cover \<Rightarrow> bool" where
  "pcl_ok S st =
     (distinct (map var (potentialCoverLits st)) \<and>
      (\<forall>l\<in>set (potentialCoverLits st).
          lit_value S l = l_True \<and> var l < nVars S \<and> mVarsGreedyScore st ! var l \<noteq> 0) \<and>
      (\<forall>v<nVars S. 0 \<le> mVarsGreedyScore st ! v))"

text \<open>
  Each clause index kept for variable \<open>v\<close> is below \<open>i\<close>, and its clause is not yet covered and
  holds a true literal of \<open>v\<close>.
\<close>

definition lists_sound :: "Solver \<Rightarrow> Cover \<Rightarrow> nat \<Rightarrow> nat list list \<Rightarrow> bool" where
  "lists_sound S st0 i cls_lists =
     (\<forall>v<nVars S. \<forall>j\<in>set (cls_lists ! v).
          j < i \<and> \<not> pre_covered S st0 (clauses S ! j) \<and>
          (\<exists>l\<in>set (clauses S ! j). lit_value S l = l_True \<and> var l = v))"

text \<open>
  Each clause below \<open>i\<close> that is not yet covered is in the list of each of its true literals.
\<close>

definition lists_complete :: "Solver \<Rightarrow> Cover \<Rightarrow> nat \<Rightarrow> nat list list \<Rightarrow> bool" where
  "lists_complete S st0 i cls_lists =
     (\<forall>j<i. \<not> pre_covered S st0 (clauses S ! j) \<longrightarrow>
          (\<forall>l\<in>set (clauses S ! j). lit_value S l = l_True \<longrightarrow> j \<in> set (cls_lists ! var l)))"

text \<open>
  What the second pass keeps, and the score of a variable as the length of its clause list.
\<close>

definition second_frame :: "Solver \<Rightarrow> Cover \<Rightarrow> Cover \<Rightarrow> bool" where
  "second_frame S st0 st =
     (in_cover st = in_cover st0 \<and> incl st = incl st0 \<and>
      nVars S \<le> length (mVarsInUncCls st) \<and> length (mVarsGreedyScore st) = nVars S \<and>
      length (coverCount st) = length (coverCount st0) \<and>
      (\<forall>v<nVars S. mVarsGreedyScore st ! v = int (length (mVarsInUncCls st ! v))) \<and>
      (\<forall>j<length (clauses S). \<not> pre_covered S st0 (clauses S ! j) \<longrightarrow>
          coverCount st ! j = coverCount st0 ! j))"

text \<open>
  The invariant of the second pass after \<open>i\<close> clauses.
\<close>

definition second_inv :: "Solver \<Rightarrow> Cover \<Rightarrow> nat \<Rightarrow> Cover \<Rightarrow> bool" where
  "second_inv S st0 i st =
     (second_frame S st0 st \<and> lists_sound S st0 i (mVarsInUncCls st) \<and>
      lists_complete S st0 i (mVarsInUncCls st) \<and> pcl_ok S st)"

text \<open>
  The count of a clause that is not covered before the second pass is the number of times the
  literals of \<open>G\<close> cover it.
\<close>

definition counts_ok :: "Solver \<Rightarrow> Cover \<Rightarrow> nat list list \<Rightarrow> Lit list \<Rightarrow> int list \<Rightarrow> bool" where
  "counts_ok S st0 ll G cc =
     (length cc = length (clauses S) + 1 \<and>
      (\<forall>j<length (clauses S). \<not> pre_covered S st0 (clauses S ! j) \<longrightarrow> cc ! j = cover_mult ll G j))"

text \<open>
  The invariant of the third pass: the cover is the prefix \<open>P\<close> and greedy literals \<open>G\<close> among the
  first \<open>r\<close> candidates.
\<close>

definition greedy_inv ::
  "Solver \<Rightarrow> Cover \<Rightarrow> Lit list \<Rightarrow> nat \<Rightarrow> Lit list \<times> Cover \<Rightarrow> bool" where
  "greedy_inv S st0 P r cs =
     (\<exists>G. fst cs = P @ G \<and> set G \<subseteq> set (take r (potentialCoverLits (snd cs))) \<and>
          distinct (map var G) \<and>
          counts_ok S st0 (mVarsInUncCls (snd cs)) G (coverCount (snd cs)))"

text \<open>
  The invariant of the pruning pass: each kept literal \<open>K\<close> has a clause with count 1.
\<close>

definition prune_inv ::
  "Solver \<Rightarrow> Cover \<Rightarrow> nat list list \<Rightarrow> Lit list \<Rightarrow> Lit list \<Rightarrow> Lit list \<times> int list \<Rightarrow> bool" where
  "prune_inv S st0 ll P rest acc =
     (\<exists>K. fst acc = P @ K \<and> distinct (map var (K @ rest)) \<and>
          counts_ok S st0 ll (K @ rest) (snd acc) \<and>
          (\<forall>l\<in>set K. \<exists>j\<in>set (ll ! var l). snd acc ! j = 1))"

text \<open>
  Three variables, all true and all eligible, and the clauses \<open>x0 \<or> x1\<close>, \<open>x1 \<or> x2\<close>,
  \<open>x0 \<or> x2\<close>: no clause has a single true literal, so the cover comes from the greedy pass.
\<close>

definition solver_triangle :: Solver where
  "solver_triangle =
     \<lparr>nVars = 3, assigns = [l_True, l_True, l_True], trail = [], trail_lim = [],
      clauses = [[mkLit 0 False, mkLit 1 False], [mkLit 1 False, mkLit 2 False],
                 [mkLit 0 False, mkLit 2 False]],
      watches = (\<lambda>l. [])\<rparr>"

text \<open>The engine after \<open>getCover\<close> in exact mode on \<open>solver_triangle\<close>, from a fresh engine.\<close>

definition cover_triangle :: Cover where
  "cover_triangle =
     \<lparr>uncovered = [[mkLit 0 False, mkLit 1 False], [mkLit 1 False, mkLit 2 False],
                   [mkLit 0 False, mkLit 2 False], []],
      coverCount = [2, 1, 1, 0], mVarsGreedyScore = [2, 2, 2],
      mVarsInUncCls = [[0, 2], [0, 1], [1, 2]],
      potentialCoverLits = [mkLit 0 False, mkLit 1 False, mkLit 2 False],
      in_cover = [False, False, False], subset_vars = [0, 1, 2],
      incl = [True, True, True]\<rparr>"

subsection \<open>The invariants of the flow engine\<close>

text \<open>
  The excess of node \<open>x\<close> under the flow map \<open>F\<close>: what enabled edges bring in, minus what
  enabled edges take out.
\<close>

definition excess :: "(nat \<times> nat) list \<Rightarrow> bool list \<Rightarrow> int list \<Rightarrow> nat \<Rightarrow> int" where
  "excess E en F x =
     (\<Sum>i<length E. if en ! i
        then (if snd (E ! i) = x then F ! i else 0) - (if fst (E ! i) = x then F ! i else 0)
        else 0)"

text \<open>
  A set \<open>R\<close> of nodes that no residual arc leaves: every enabled edge out of \<open>R\<close> is
  saturated and every enabled edge into \<open>R\<close> carries no flow.
\<close>

definition closed_set :: "(nat \<times> nat) list \<Rightarrow> int list \<Rightarrow> bool list \<Rightarrow> int list \<Rightarrow> nat set \<Rightarrow> bool" where
  "closed_set E cap en F R =
     (\<forall>i<length E. en ! i \<longrightarrow>
        (fst (E ! i) \<in> R \<and> snd (E ! i) \<notin> R \<longrightarrow> cap ! i \<le> F ! i) \<and>
        (snd (E ! i) \<in> R \<and> fst (E ! i) \<notin> R \<longrightarrow> F ! i \<le> 0))"

text \<open>
  The excesses of a flow of value \<open>val\<close> from \<open>s\<close> to \<open>t\<close> on which \<open>r\<close> units from \<open>v\<close> to
  \<open>u\<close> are still missing (the flow of a deleted edge from \<open>u\<close> to \<open>v\<close> that is not yet rerouted).
\<close>

definition flow_shape ::
  "(nat \<times> nat) list \<Rightarrow> bool list \<Rightarrow> int list \<Rightarrow> nat \<Rightarrow> nat \<Rightarrow> int \<Rightarrow> nat \<Rightarrow> nat \<Rightarrow> int \<Rightarrow> bool" where
  "flow_shape E en F s t val u v r =
     (\<forall>x. excess E en F x =
        r * ((if x = u then 1 else 0) - (if x = v then 1 else 0)) +
        val * ((if x = t then 1 else 0) - (if x = s then 1 else 0)))"

text \<open>
  A node is reached by the current search when its predecessor record is set
  (\<open>prev[x].from != -1\<close>).
\<close>

definition reached :: "EdmondsKarpDynamic \<Rightarrow> nat \<Rightarrow> bool" where
  "reached st x = (lfrom (prev st ! x) \<noteq> -1)"

text \<open>
  The predecessor record \<open>p\<close> of \<open>v\<close> names a residual arc from \<open>u\<close> to \<open>v\<close> with room for \<open>b\<close>
  units: an enabled edge taken forwards or backwards, or (edge id \<open>-1\<close>) the shortcut arc \<open>sc\<close>.
\<close>

definition arc_from ::
  "DynamicGraph \<Rightarrow> int list \<Rightarrow> (nat \<times> nat) option \<Rightarrow> EdmondsKarpDynamic \<Rightarrow> nat \<Rightarrow> nat \<Rightarrow> LocalEdge \<Rightarrow> int \<Rightarrow> bool" where
  "arc_from g cap sc st u v p b =
     (lfrom p = int u \<and>
      (if lid p < 0 then sc = Some (u, v)
       else nat (lid p) < length (all_edges g) \<and> edge_enabled st ! nat (lid p) \<and>
            (if backward p
             then all_edges g ! nat (lid p) = (v, u) \<and> b \<le> ek_F st ! nat (lid p)
             else all_edges g ! nat (lid p) = (u, v) \<and> b \<le> cap ! nat (lid p) - ek_F st ! nat (lid p))))"

text \<open>
  The record of a reached node other than the root: its predecessor is a reached node other
  than itself, and \<open>M[v]\<close> is positive, at most \<open>M\<close> of the predecessor and at most the room of
  the arc.
\<close>

definition node_ok ::
  "DynamicGraph \<Rightarrow> int list \<Rightarrow> (nat \<times> nat) option \<Rightarrow> EdmondsKarpDynamic \<Rightarrow> nat \<Rightarrow> bool" where
  "node_ok g cap sc st v =
     (0 \<le> lfrom (prev st ! v) \<and> nat (lfrom (prev st ! v)) < nodes g \<and>
      nat (lfrom (prev st ! v)) \<noteq> v \<and> reached st (nat (lfrom (prev st ! v))) \<and>
      0 < ek_M st ! v \<and> ek_M st ! v \<le> ek_M st ! nat (lfrom (prev st ! v)) \<and>
      arc_from g cap sc st (nat (lfrom (prev st ! v))) v (prev st ! v) (ek_M st ! v))"

text \<open>
  The invariant of a search from \<open>root\<close>: reached nodes lie in \<open>A\<close>, carry a sound record,
  and are in the queue unless they are \<open>t\<close>.
\<close>

definition bfs_inv ::
  "DynamicGraph \<Rightarrow> int list \<Rightarrow> nat \<Rightarrow> nat \<Rightarrow> (nat \<times> nat) option \<Rightarrow> nat set \<Rightarrow> EdmondsKarpDynamic \<Rightarrow> bool" where
  "bfs_inv g cap root t sc A st =
     (length (prev st) = nodes g \<and> length (ek_M st) = nodes g \<and> root < nodes g \<and>
      reached st root \<and> 0 < ek_M st ! root \<and>
      (\<forall>v<nodes g. reached st v \<longrightarrow> v \<in> A \<and> (v \<noteq> root \<longrightarrow> node_ok g cap sc st v)) \<and>
      (\<forall>x\<in>set (ek_Q st). x < nodes g \<and> reached st x) \<and> distinct (ek_Q st) \<and>
      (\<forall>x<nodes g. reached st x \<longrightarrow> x \<in> set (ek_Q st) \<or> x = t))"

text \<open>
  How a search changes the state: only \<open>prev\<close>, \<open>M\<close> and \<open>Q\<close>; the records of reached nodes
  stay; \<open>M\<close> changes only at newly reached nodes, which are appended to the queue (\<open>t\<close> is
  not); \<open>fnd\<close> tells that \<open>t\<close> was reached.
\<close>

definition bfs_ext :: "nat \<Rightarrow> bool \<Rightarrow> EdmondsKarpDynamic \<Rightarrow> EdmondsKarpDynamic \<Rightarrow> bool" where
  "bfs_ext t fnd st st' =
     (st' = st\<lparr>prev := prev st', ek_M := ek_M st', ek_Q := ek_Q st'\<rparr> \<and>
      (\<forall>x. reached st x \<longrightarrow> reached st' x \<and> prev st' ! x = prev st ! x \<and> ek_M st' ! x = ek_M st ! x) \<and>
      (\<forall>x. \<not> reached st' x \<longrightarrow> ek_M st' ! x = ek_M st ! x) \<and>
      (fnd \<longrightarrow> reached st' t) \<and>
      (\<exists>new. ek_Q st' = ek_Q st @ new \<and> t \<notin> set new \<and>
          (\<forall>x. reached st' x \<and> \<not> reached st x \<longrightarrow> x \<in> set new \<or> (x = t \<and> fnd))))"

text \<open>
  The part of \<open>bfs_ext\<close> that does not speak of the queue.
\<close>

definition bfs_frame :: "EdmondsKarpDynamic \<Rightarrow> EdmondsKarpDynamic \<Rightarrow> bool" where
  "bfs_frame st st' =
     (st' = st\<lparr>prev := prev st', ek_M := ek_M st', ek_Q := ek_Q st'\<rparr> \<and>
      (\<forall>x. reached st x \<longrightarrow> reached st' x \<and> prev st' ! x = prev st ! x \<and> ek_M st' ! x = ek_M st ! x) \<and>
      (\<forall>x. \<not> reached st' x \<longrightarrow> ek_M st' ! x = ek_M st ! x))"

text \<open>
  Every residual arc out of \<open>x\<close> leads to a reached node.
\<close>

definition node_closed :: "DynamicGraph \<Rightarrow> int list \<Rightarrow> EdmondsKarpDynamic \<Rightarrow> nat \<Rightarrow> bool" where
  "node_closed g cap st x =
     (\<forall>i<length (all_edges g). edge_enabled st ! i \<longrightarrow>
        (fst (all_edges g ! i) = x \<and> 0 < cap ! i - ek_F st ! i \<longrightarrow> reached st (snd (all_edges g ! i))) \<and>
        (snd (all_edges g ! i) = x \<and> 0 < ek_F st ! i \<longrightarrow> reached st (fst (all_edges g ! i))))"

text \<open>
  A well-formed graph: edge endpoints are nodes, every edge has a status, and the history
  names existing edges.
\<close>

definition graph_ok :: "DynamicGraph \<Rightarrow> bool" where
  "graph_ok g =
     ((\<forall>e\<in>set (all_edges g). fst e < nodes g \<and> snd e < nodes g) \<and>
      length (edge_status g) = length (all_edges g) \<and>
      (\<forall>ev\<in>set (history g). fst ev < length (all_edges g)))"

text \<open>
  The update of \<open>F\<close> made by one step of an augmenting walk through the record \<open>e\<close>.
\<close>

definition push_F :: "LocalEdge \<Rightarrow> int \<Rightarrow> int list \<Rightarrow> int list" where
  "push_F e m F =
     (if backward e then F[nat (lid e) := F ! nat (lid e) - m]
      else F[nat (lid e) := F ! nat (lid e) + m])"

text \<open>
  One step of the augmenting walk at node \<open>x\<close>; the shortcut arc (edge id \<open>-1\<close>) changes
  nothing.
\<close>

definition apply_step :: "LocalEdge list \<Rightarrow> int \<Rightarrow> nat \<Rightarrow> int list \<Rightarrow> int list" where
  "apply_step ps m x F = (if lid (ps ! x) < 0 then F else push_F (ps ! x) m F)"

text \<open>
  The node the walk moves to from \<open>x\<close>: \<open>prev[x].from\<close>, or \<open>shortCircuitFrom\<close> over the
  shortcut arc.
\<close>

definition nx :: "LocalEdge list \<Rightarrow> nat \<Rightarrow> nat \<Rightarrow> nat" where
  "nx ps sf x = (if lid (ps ! x) < 0 then sf else nat (lfrom (ps ! x)))"

text \<open>
  The nodes the augmenting walk visits from \<open>v\<close> until it arrives at \<open>s\<close>.
\<close>

inductive walk :: "(nat \<Rightarrow> nat) \<Rightarrow> nat \<Rightarrow> nat \<Rightarrow> nat list \<Rightarrow> bool" for f s where
  walk_root: "walk f s s []"
| walk_step: "v \<noteq> s \<Longrightarrow> walk f s (f v) vs \<Longrightarrow> walk f s v (v # vs)"

text \<open>
  The arc recorded at \<open>x\<close> is an enabled edge between \<open>x\<close> and the next node of the walk, or
  the shortcut arc into \<open>tsc\<close>.
\<close>

definition arc_stat ::
  "(nat \<times> nat) list \<Rightarrow> bool list \<Rightarrow> LocalEdge list \<Rightarrow> nat \<Rightarrow> nat \<Rightarrow> nat \<Rightarrow> bool" where
  "arc_stat E en ps sf tsc x =
     (nx ps sf x \<noteq> x \<and>
      (if lid (ps ! x) < 0 then x = tsc
       else nat (lid (ps ! x)) < length E \<and> en ! nat (lid (ps ! x)) \<and>
            E ! nat (lid (ps ! x)) = (if backward (ps ! x) then (x, nx ps sf x) else (nx ps sf x, x))))"

text \<open>
  The arc recorded at \<open>x\<close> has room for \<open>m\<close> units.
\<close>

definition arc_room :: "int list \<Rightarrow> LocalEdge list \<Rightarrow> int \<Rightarrow> int list \<Rightarrow> nat \<Rightarrow> bool" where
  "arc_room cap ps m F x =
     (0 \<le> lid (ps ! x) \<longrightarrow>
        (if backward (ps ! x) then m \<le> F ! nat (lid (ps ! x))
         else m \<le> cap ! nat (lid (ps ! x)) - F ! nat (lid (ps ! x))))"

text \<open>
  The invariant of the engine between searches: the vectors have the sizes of the graph,
  enabled edges respect their capacity, and an edge that carries flow is no self-loop and has
  \<open>M > 0\<close> at both ends.
\<close>

definition flow_ok :: "DynamicGraph \<Rightarrow> int list \<Rightarrow> EdmondsKarpDynamic \<Rightarrow> bool" where
  "flow_ok g cap st =
     (length (prev st) = nodes g \<and> length (ek_M st) = nodes g \<and>
      length (ek_F st) = length (all_edges g) \<and>
      length (edge_enabled st) = length (all_edges g) \<and>
      (\<forall>i<length (all_edges g). edge_enabled st ! i \<longrightarrow> 0 \<le> ek_F st ! i \<and> ek_F st ! i \<le> cap ! i) \<and>
      (\<forall>i<length (all_edges g). ek_F st ! i \<noteq> 0 \<longrightarrow>
          fst (all_edges g ! i) \<noteq> snd (all_edges g ! i) \<and>
          0 < ek_M st ! fst (all_edges g ! i) \<and> 0 < ek_M st ! snd (all_edges g ! i)))"

text \<open>
  \<open>node_closed\<close> for the search with the shortcut arc from \<open>sf\<close> to \<open>tsc\<close>.
\<close>

definition sc_closed :: "DynamicGraph \<Rightarrow> int list \<Rightarrow> nat \<Rightarrow> nat \<Rightarrow> EdmondsKarpDynamic \<Rightarrow> nat \<Rightarrow> bool" where
  "sc_closed g cap sf tsc st x = (node_closed g cap st x \<and> (x = sf \<longrightarrow> reached st tsc))"

text \<open>
  Capacities are non-negative.
\<close>

definition capacity_ok :: "DynamicGraph \<Rightarrow> int list \<Rightarrow> bool" where
  "capacity_ok g cap = (\<forall>i<length (all_edges g). 0 \<le> cap ! i)"

text \<open>
  The engine between two calls of \<open>maxFlow(s, t)\<close>: \<open>flow_ok\<close>, \<open>M[s] > 0\<close>, no flow on
  disabled edges, and \<open>F\<close> is a flow from \<open>s\<close> to \<open>t\<close> of some value \<open>val \<ge> 0\<close>.
\<close>

definition engine_rest :: "DynamicGraph \<Rightarrow> int list \<Rightarrow> nat \<Rightarrow> nat \<Rightarrow> EdmondsKarpDynamic \<Rightarrow> bool" where
  "engine_rest g cap s t st =
     (flow_ok g cap st \<and> 0 < ek_M st ! s \<and>
      (\<forall>i<length (all_edges g). \<not> edge_enabled st ! i \<longrightarrow> ek_F st ! i = 0) \<and>
      (\<exists>val\<ge>0. flow_shape (all_edges g) (edge_enabled st) (ek_F st) s t val s s 0))"

text \<open>
  Feasibility of the flow map \<open>F\<close> on the graph \<open>g\<close>, read with the accessors of the graph:
  \<open>0 \<le> F[e] \<le> capacity[e]\<close> on enabled edges, \<open>F[e] = 0\<close> on disabled edges, and at every node
  other than \<open>s\<close> and \<open>t\<close> the enabled incoming edges carry as much as the enabled outgoing
  edges.
\<close>

definition flow_feasible :: "DynamicGraph \<Rightarrow> int list \<Rightarrow> nat \<Rightarrow> nat \<Rightarrow> int list \<Rightarrow> bool" where
  "flow_feasible g cap s t F =
     (list_all (\<lambda>i. if edgeEnabled g i then 0 \<le> F ! i \<and> F ! i \<le> cap ! i else F ! i = 0)
        [0..<edges g] \<and>
      list_all (\<lambda>u. u = s \<or> u = t \<or>
          sum_list (map (\<lambda>e. F ! snd e) (filter (\<lambda>e. edgeEnabled g (snd e)) (incoming g u))) =
          sum_list (map (\<lambda>e. F ! snd e) (filter (\<lambda>e. edgeEnabled g (snd e)) (incident g u))))
        [0..<nodes g])"

text \<open>
  The test of the first branch of \<open>maxFlow\<close>.
\<close>

definition cache_hit :: "DynamicGraph \<Rightarrow> EdmondsKarpDynamic \<Rightarrow> bool" where
  "cache_hit g st = (last_modification st > 0 \<and> modifications g = last_modification st)"

text \<open>
  The test of the second branch of \<open>maxFlow\<close>.
\<close>

definition full_due :: "DynamicGraph \<Rightarrow> EdmondsKarpDynamic \<Rightarrow> bool" where
  "full_due g st =
     (last_modification st \<le> 0 \<or> historyclears g \<noteq> last_history_clear st \<or> is_changed g)"

text \<open>
  The part of the history that the engine has not read yet records every edge whose status
  differs from the engine's flag.
\<close>

definition log_faithful :: "DynamicGraph \<Rightarrow> EdmondsKarpDynamic \<Rightarrow> bool" where
  "log_faithful g st =
     (history_qhead st \<le> length (history g) \<and>
      (\<forall>i<length (all_edges g). edge_status g ! i \<noteq> edge_enabled st ! i \<longrightarrow>
          (i, edge_status g ! i) \<in> set (drop (history_qhead st) (history g))))"

text \<open>
  The state in which calls of \<open>maxFlow(s, t)\<close> leave the engine, and which mutations of the
  graph keep: the stamp is not ahead of the graph; when the cache will be used, the engine is
  at rest for \<open>s\<close> and \<open>t\<close> with the flags of the graph; otherwise a full recomputation is due,
  or the engine is at rest for \<open>s\<close> and \<open>t\<close> and the log is faithful.
\<close>

definition engine_ready ::
  "DynamicGraph \<Rightarrow> int list \<Rightarrow> nat \<Rightarrow> nat \<Rightarrow> EdmondsKarpDynamic \<Rightarrow> bool" where
  "engine_ready g cap s t st =
     (last_modification st \<le> modifications g \<and>
      (if cache_hit g st
       then engine_rest g cap s t st \<and> edge_enabled st = edge_status g \<and>
            history_qhead st \<le> length (history g)
       else full_due g st \<or> (engine_rest g cap s t st \<and> log_faithful g st)))"

section \<open>Evaluation\<close>

text \<open>The loops that may not return are evaluated through their defining equations.\<close>

declare bfs_queue.simps [code]
declare bfs_queue_sc.simps [code]
declare augment.simps [code]
declare augment_sc.simps [code]
declare maxFlow_p.simps [code]
declare maxFlow_residual_loop.simps [code]
declare maxFlow_p_sc_loop.simps [code]
declare cut_queue.simps [code]

lemma maxFlow_graph_A: "maxFlow graph_A capacity_A 0 3 EdmondsKarpDynamic_init = Some (5, engine_A)"
  by code_simp

lemma maxFlow_graph_A_disabled:
  "map_option fst (maxFlow (disableEdge 3 graph_A) capacity_A 0 3 engine_A) = Some 3"
  by code_simp

lemma maxFlow_graph_A_disabled_F:
  "map_option (\<lambda>r. ek_F (snd r)) (maxFlow (disableEdge 3 graph_A) capacity_A 0 3 engine_A)
     = Some [1, 2, 1, 0, 3]"
  by code_simp

lemma minCut_graph_A:
  "map_option (\<lambda>r. (fst r, fst (snd r))) (minCut graph_A capacity_A 0 3 [] EdmondsKarpDynamic_init)
     = Some (5, [\<lparr>mf_u = 0, mf_v = 1, mf_id = 0\<rparr>, \<lparr>mf_u = 0, mf_v = 2, mf_id = 1\<rparr>])"
  by code_simp

lemma maxFlow_graph_B: "maxFlow graph_B capacity_B 0 2 EdmondsKarpDynamic_init = Some (1, engine_B)"
  by code_simp

lemma maxFlow_graph_B_disabled:
  "map_option fst (maxFlow (disableEdge 1 graph_B) capacity_B 0 2 engine_B) = Some 1"
  by code_simp

lemma maxFlow_graph_B_disabled_F:
  "map_option (\<lambda>r. ek_F (snd r)) (maxFlow (disableEdge 1 graph_B) capacity_B 0 2 engine_B)
     = Some [1, 0, 1]"
  by code_simp

lemma maxFlow_graph_B_scratch:
  "map_option fst (maxFlow (disableEdge 1 graph_B) capacity_B 0 2 EdmondsKarpDynamic_init) = Some 0"
  by code_simp

lemma minCut_graph_B_disabled:
  "map_option (\<lambda>r. (fst r, fst (snd r))) (minCut (disableEdge 1 graph_B) capacity_B 0 2 [] engine_B)
     = Some (1, [])"
  by code_simp

section \<open>The flow scenarios\<close>

text \<open>
  C2, as amended. On flow scenario A, \<open>maxFlow(0, 3)\<close> returns 5; after edge \<open>1\<rightarrow>3\<close> (id 3) is
  disabled, the next \<open>maxFlow(0, 3)\<close> returns 3 (not 4): only \<open>2\<rightarrow>3\<close> still enters node 3,
  and node 2 receives at most \<open>2 + 1\<close>.
\<close>

theorem C2_flow_scenario_A:
  "maxFlow graph_A capacity_A 0 3 EdmondsKarpDynamic_init = Some (5, engine_A) \<and>
   map_option fst (maxFlow (disableEdge 3 graph_A) capacity_A 0 3 engine_A) = Some 3"
  by code_simp

text \<open>C2 as stated fails: the second call does not return 4.\<close>

theorem C2_counterexample:
  "\<not> (map_option fst (maxFlow graph_A capacity_A 0 3 EdmondsKarpDynamic_init) = Some 5 \<and>
      map_option fst
        (Option.bind (maxFlow graph_A capacity_A 0 3 EdmondsKarpDynamic_init)
           (\<lambda>r. maxFlow (disableEdge 3 graph_A) capacity_A 0 3 (snd r))) = Some 4)"
  by code_simp


text \<open>The two calls of C2, run one after the other from a fresh engine.\<close>

theorem C2_flow_scenario_A_witness:
  "map_option fst
     (Option.bind (maxFlow graph_A capacity_A 0 3 EdmondsKarpDynamic_init)
        (\<lambda>r. maxFlow (disableEdge 3 graph_A) capacity_A 0 3 (snd r))) = Some 3"
  using C2_flow_scenario_A by code_simp

text \<open>
  C3, as amended. On flow scenario A, \<open>minCut(0, 3, cut)\<close> with an empty \<open>cut\<close> returns 5 and
  fills \<open>cut\<close> with exactly the edges \<open>0\<rightarrow>1\<close> (capacity 3) and \<open>0\<rightarrow>2\<close> (capacity 2), whose
  capacities total 5: every edge is saturated, so the search from node 0 marks node 0 only.
\<close>

theorem C3_min_cut_scenario_A:
  "map_option (\<lambda>r. (fst r, fst (snd r)))
     (minCut graph_A capacity_A 0 3 [] EdmondsKarpDynamic_init)
     = Some (5, [\<lparr>mf_u = 0, mf_v = 1, mf_id = 0\<rparr>, \<lparr>mf_u = 0, mf_v = 2, mf_id = 1\<rparr>]) \<and>
   capacity_A ! 0 + capacity_A ! 1 = 5"
  by code_simp

text \<open>
  C3 as stated fails: the returned cut is not the set of the edges \<open>0\<rightarrow>2\<close>, \<open>1\<rightarrow>2\<close>
  and \<open>1\<rightarrow>3\<close>.
\<close>

theorem C3_counterexample:
  "map_option (\<lambda>r. set (fst (snd r)))
     (minCut graph_A capacity_A 0 3 [] EdmondsKarpDynamic_init)
     \<noteq> Some {\<lparr>mf_u = 0, mf_v = 2, mf_id = 1\<rparr>, \<lparr>mf_u = 1, mf_v = 2, mf_id = 2\<rparr>,
              \<lparr>mf_u = 1, mf_v = 3, mf_id = 3\<rparr>}"
  by code_simp

text \<open>The cut edges of C3 as a set, with the returned value.\<close>

theorem C3_min_cut_scenario_A_witness:
  "map_option fst (minCut graph_A capacity_A 0 3 [] EdmondsKarpDynamic_init) = Some 5"
  using C3_min_cut_scenario_A by code_simp

text \<open>
  C1 fails on the code. On \<open>graph_B\<close> the first \<open>maxFlow(0, 2)\<close> returns 1. After edge \<open>1\<rightarrow>2\<close>
  (id 1) is disabled no enabled edge enters node 2, and a fresh engine returns 0; the
  engine that replays the deletion returns 1. The repair pushes the unit that entered node
  1 back into the source over the edge \<open>1\<rightarrow>0\<close>, and the recount adds up the flow leaving the
  source without subtracting the flow that enters it.
\<close>

theorem C1_replay_differs_from_scratch:
  "map_option fst (maxFlow graph_B capacity_B 0 2 EdmondsKarpDynamic_init) = Some 1 \<and>
   map_option fst
     (Option.bind (maxFlow graph_B capacity_B 0 2 EdmondsKarpDynamic_init)
        (\<lambda>r. maxFlow (disableEdge 1 graph_B) capacity_B 0 2 (snd r))) = Some 1 \<and>
   map_option fst (maxFlow (disableEdge 1 graph_B) capacity_B 0 2 EdmondsKarpDynamic_init) = Some 0"
  by code_simp

text \<open>The value the replaying engine returns in C1's scenario is not the one from scratch.\<close>

theorem C1_replay_differs_from_scratch_witness:
  "map_option fst
     (Option.bind (maxFlow graph_B capacity_B 0 2 EdmondsKarpDynamic_init)
        (\<lambda>r. maxFlow (disableEdge 1 graph_B) capacity_B 0 2 (snd r)))
   \<noteq> map_option fst (maxFlow (disableEdge 1 graph_B) capacity_B 0 2 EdmondsKarpDynamic_init)"
  using C1_replay_differs_from_scratch by code_simp

text \<open>
  C6 fails on the code, by the defect of C1. In the same scenario \<open>minCut(0, 2, cut)\<close> with an
  empty \<open>cut\<close> returns the value 1 and an empty cut, whose capacities total 0.
\<close>

theorem C6_cut_sum_differs_from_flow:
  "map_option (\<lambda>r. (fst r, fst (snd r)))
     (Option.bind (maxFlow graph_B capacity_B 0 2 EdmondsKarpDynamic_init)
        (\<lambda>r. minCut (disableEdge 1 graph_B) capacity_B 0 2 [] (snd r))) = Some (1, [])"
  by code_simp

text \<open>The sum of the capacities of the cut of C6's scenario is not the returned value.\<close>

theorem C6_cut_sum_differs_from_flow_witness:
  "map_option (\<lambda>r. (fst r, sum_list (map (\<lambda>e. capacity_B ! mf_id e) (fst (snd r)))))
     (Option.bind (maxFlow graph_B capacity_B 0 2 EdmondsKarpDynamic_init)
        (\<lambda>r. minCut (disableEdge 1 graph_B) capacity_B 0 2 [] (snd r))) = Some (1, 0)"
  using C6_cut_sum_differs_from_flow by code_simp


section \<open>The cut vector of \<open>minCut\<close>\<close>













section \<open>The repair after a deletion\<close>

lemma replay_event_graph_A':
  "replay_event graph_A' capacity_A 0 3 (3, False) (False, False, engine_A)
     = Some (False, True, engine_A')"
  by code_simp

lemma replay_graph_A':
  "replay graph_A' capacity_A 0 3 (drop (history_qhead engine_A) (history graph_A'))
     (False, False, engine_A) = Some (False, True, engine_A')"
  by code_simp

text \<open>
  C4, as amended. When the replay meets the deletion of an edge \<open>e\<close> that the graph has
  disabled and that carries flow \<open>F[e] \<noteq> 0\<close>, it clears the engine's flag of \<open>e\<close>, orients
  the endpoints as \<open>(u, v)\<close> with the flow \<open>fv = |F[e]|\<close> positive from \<open>u\<close> to \<open>v\<close>, and runs
  the residual max-flow from \<open>u\<close> to \<open>v\<close> bounded by \<open>fv\<close>. If that recovers \<open>fv\<close> it sets
  \<open>F[e] = 0\<close>. Otherwise it runs the shortcut-augmented max-flow from \<open>u\<close> to \<open>v\<close> whose
  shortcut arc goes from \<open>s\<close> to \<open>t\<close>, the source and the sink of the \<open>maxFlow\<close> call, with
  capacity \<open>delta = fv - recovered\<close>; then it sets \<open>F[e] = 0\<close> and \<open>needsReflow\<close>. After a
  replay on the incremental path that has set \<open>needsReflow\<close>, the value \<open>f\<close> is recomputed
  as the sum of \<open>F\<close> over the enabled edges leaving \<open>s\<close> (and, when edges were added, the
  augmentation from \<open>s\<close> to \<open>t\<close> goes on from that value).
\<close>

theorem C4_deletion_repair:
  "(\<not> edgeEnabled g e \<and> ek_F st ! e \<noteq> 0 \<longrightarrow>
      replay_event g cap s t (e, False) (added_Edges, needsReflow, st) =
        (let st0 = st\<lparr>edge_enabled := (edge_enabled st)[e := False]\<rparr>;
             fv = \<bar>ek_F st ! e\<bar>;
             u = (if ek_F st ! e < 0 then snd (all_edges g ! e) else fst (all_edges g ! e));
             v = (if ek_F st ! e < 0 then fst (all_edges g ! e) else snd (all_edges g ! e))
         in case maxFlow_residual g cap u v fv st0 of
              None \<Rightarrow> None
            | Some r \<Rightarrow>
                if fst r = fv
                then Some (added_Edges, needsReflow, (snd r)\<lparr>ek_F := (ek_F (snd r))[e := 0]\<rparr>)
                else
                  (case maxFlow_p_sc g cap u v s t (fv - fst r) (snd r) of
                     None \<Rightarrow> None
                   | Some r2 \<Rightarrow>
                       Some (added_Edges, True, (snd r2)\<lparr>ek_F := (ek_F (snd r2))[e := 0]\<rparr>)))) \<and>
   (\<not> (last_modification st > 0 \<and> modifications g = last_modification st) \<and>
    \<not> (last_modification st \<le> 0 \<or> historyclears g \<noteq> last_history_clear st \<or> is_changed g) \<and>
    replay g cap s t (drop (history_qhead st) (history g)) (False, False, st)
      = Some (added, True, st2) \<longrightarrow>
      maxFlow g cap s t st =
        (let st3 = st2\<lparr>ek_f := sum_list (map (\<lambda>e. if edge_enabled st2 ! snd e
                                                   then ek_F st2 ! snd e else 0) (incident g s))\<rparr>
         in if added
            then (case maxFlow_p g cap s t st3 of
                    None \<Rightarrow> None
                  | Some r \<Rightarrow> Some (fst r, update_stamps g ((snd r)\<lparr>ek_f := fst r\<rparr>)))
            else Some (ek_f st3, update_stamps g st3)))"
proof (intro conjI impI)
  assume a: "\<not> edgeEnabled g e \<and> ek_F st ! e \<noteq> 0"
  have abs: "\<bar>ek_F st ! e\<bar> = (if ek_F st ! e < 0 then - (ek_F st ! e) else ek_F st ! e)"
    by simp
  show "replay_event g cap s t (e, False) (added_Edges, needsReflow, st) =
        (let st0 = st\<lparr>edge_enabled := (edge_enabled st)[e := False]\<rparr>;
             fv = \<bar>ek_F st ! e\<bar>;
             u = (if ek_F st ! e < 0 then snd (all_edges g ! e) else fst (all_edges g ! e));
             v = (if ek_F st ! e < 0 then fst (all_edges g ! e) else snd (all_edges g ! e))
         in case maxFlow_residual g cap u v fv st0 of
              None \<Rightarrow> None
            | Some r \<Rightarrow>
                if fst r = fv
                then Some (added_Edges, needsReflow, (snd r)\<lparr>ek_F := (ek_F (snd r))[e := 0]\<rparr>)
                else
                  (case maxFlow_p_sc g cap u v s t (fv - fst r) (snd r) of
                     None \<Rightarrow> None
                   | Some r2 \<Rightarrow>
                       Some (added_Edges, True, (snd r2)\<lparr>ek_F := (ek_F (snd r2))[e := 0]\<rparr>)))"
    using a unfolding replay_event_def repair_deleted_edge_def abs
    by (simp add: Let_def split: option.splits)
next
  assume a: "\<not> (last_modification st > 0 \<and> modifications g = last_modification st) \<and>
    \<not> (last_modification st \<le> 0 \<or> historyclears g \<noteq> last_history_clear st \<or> is_changed g) \<and>
    replay g cap s t (drop (history_qhead st) (history g)) (False, False, st)
      = Some (added, True, st2)"
  show "maxFlow g cap s t st =
        (let st3 = st2\<lparr>ek_f := sum_list (map (\<lambda>e. if edge_enabled st2 ! snd e
                                                   then ek_F st2 ! snd e else 0) (incident g s))\<rparr>
         in if added
            then (case maxFlow_p g cap s t st3 of
                    None \<Rightarrow> None
                  | Some r \<Rightarrow> Some (fst r, update_stamps g ((snd r)\<lparr>ek_f := fst r\<rparr>)))
            else Some (ek_f st3, update_stamps g st3))"
    using a unfolding maxFlow_def reflow_def
    by (simp add: Let_def split: option.splits)
qed

text \<open>
  C4 as stated fails. On scenario A with edge \<open>1\<rightarrow>3\<close> (id 3) disabled, the repair of the
  source ends with the flows \<open>[1, 2, 1, 0, 3]\<close>; with the shortcut arc from \<open>u = 1\<close> to
  \<open>v = 3\<close>, as the claim words it, it would end with \<open>[3, 2, 1, 0, 3]\<close>, which leaves three
  units entering node 1 and one leaving it.
\<close>

theorem C4_counterexample:
  "map_option (\<lambda>r. ek_F (snd r))
     (repair_deleted_edge graph_A' capacity_A 0 3 3
        (engine_A\<lparr>edge_enabled := (edge_enabled engine_A)[3 := False]\<rparr>))
     = Some [1, 2, 1, 0, 3] \<and>
   map_option (\<lambda>r. ek_F (snd r))
     (repair_deleted_edge_as_specified graph_A' capacity_A 0 3 3
        (engine_A\<lparr>edge_enabled := (edge_enabled engine_A)[3 := False]\<rparr>))
     = Some [3, 2, 1, 0, 3]"
  by code_simp

text \<open>
  C4 at scenario A, edge \<open>1\<rightarrow>3\<close> disabled: \<open>u = 1\<close>, \<open>v = 3\<close>, \<open>fv = 2\<close>, nothing is recovered,
  \<open>delta = 2\<close>, and the recount gives \<open>f = 1 + 2 = 3\<close>.
\<close>

theorem C4_deletion_repair_witness:
  "(\<not> edgeEnabled graph_A' 3 \<and> ek_F engine_A ! 3 \<noteq> 0) \<and>
   (\<not> (last_modification engine_A > 0 \<and> modifications graph_A' = last_modification engine_A) \<and>
    \<not> (last_modification engine_A \<le> 0 \<or> historyclears graph_A' \<noteq> last_history_clear engine_A
        \<or> is_changed graph_A') \<and>
    replay graph_A' capacity_A 0 3 (drop (history_qhead engine_A) (history graph_A'))
      (False, False, engine_A) = Some (False, True, engine_A')) \<and>
   replay_event graph_A' capacity_A 0 3 (3, False) (False, False, engine_A)
     = (case maxFlow_residual graph_A' capacity_A 1 3 2
               (engine_A\<lparr>edge_enabled := (edge_enabled engine_A)[3 := False]\<rparr>) of
          None \<Rightarrow> None
        | Some r \<Rightarrow>
            if fst r = 2
            then Some (False, False, (snd r)\<lparr>ek_F := (ek_F (snd r))[3 := 0]\<rparr>)
            else
              (case maxFlow_p_sc graph_A' capacity_A 1 3 0 3 (2 - fst r) (snd r) of
                 None \<Rightarrow> None
               | Some r2 \<Rightarrow> Some (False, True, (snd r2)\<lparr>ek_F := (ek_F (snd r2))[3 := 0]\<rparr>))) \<and>
   maxFlow graph_A' capacity_A 0 3 engine_A
     = Some (3, update_stamps graph_A' (engine_A'\<lparr>ek_f := 3\<rparr>))"
proof -
  have h1: "\<not> edgeEnabled graph_A' 3 \<and> ek_F engine_A ! 3 \<noteq> 0"
    by code_simp
  have h2: "\<not> (last_modification engine_A > 0 \<and> modifications graph_A' = last_modification engine_A) \<and>
    \<not> (last_modification engine_A \<le> 0 \<or> historyclears graph_A' \<noteq> last_history_clear engine_A
        \<or> is_changed graph_A') \<and>
    replay graph_A' capacity_A 0 3 (drop (history_qhead engine_A) (history graph_A'))
      (False, False, engine_A) = Some (False, True, engine_A')"
    using replay_graph_A' by code_simp
  have v: "ek_F engine_A ! 3 = 2" "all_edges graph_A' ! 3 = (1, 3)"
    by code_simp+
  have s: "sum_list (map (\<lambda>e. if edge_enabled engine_A' ! snd e then ek_F engine_A' ! snd e else 0)
             (incident graph_A' 0)) = 3"
    by code_simp
  from C4_deletion_repair[of graph_A' 3 engine_A capacity_A 0 3 False False False engine_A']
  have c1: "replay_event graph_A' capacity_A 0 3 (3, False) (False, False, engine_A)
     = (case maxFlow_residual graph_A' capacity_A 1 3 2
               (engine_A\<lparr>edge_enabled := (edge_enabled engine_A)[3 := False]\<rparr>) of
          None \<Rightarrow> None
        | Some r \<Rightarrow>
            if fst r = 2
            then Some (False, False, (snd r)\<lparr>ek_F := (ek_F (snd r))[3 := 0]\<rparr>)
            else
              (case maxFlow_p_sc graph_A' capacity_A 1 3 0 3 (2 - fst r) (snd r) of
                 None \<Rightarrow> None
               | Some r2 \<Rightarrow> Some (False, True, (snd r2)\<lparr>ek_F := (ek_F (snd r2))[3 := 0]\<rparr>)))"
    and c2: "maxFlow graph_A' capacity_A 0 3 engine_A
     = Some (3, update_stamps graph_A' (engine_A'\<lparr>ek_f := 3\<rparr>))"
    using h1 h2 by (simp_all add: v s Let_def del: One_nat_def)
  show ?thesis using h1 h2 c1 c2 by blast
qed


section \<open>The eligible-variable list of the cover engine\<close>

lemma level0_pass_frame:
  "subset_vars (snd (level0_pass ls cs)) = subset_vars (snd cs) \<and>
   incl (snd (level0_pass ls cs)) = incl (snd cs)"
  by (induction ls cs rule: level0_pass.induct) simp_all

lemma fast_pass_frame:
  "subset_vars (snd (fast_pass S vs cs)) = subset_vars (snd cs) \<and>
   incl (snd (fast_pass S vs cs)) = incl (snd cs)"
  by (induction S vs cs rule: fast_pass.induct) (simp_all add: Let_def)

lemma forced_pass_frame:
  "subset_vars (snd (forced_pass S i cls cs)) = subset_vars (snd cs) \<and>
   incl (snd (forced_pass S i cls cs)) = incl (snd cs)"
  by (induction S i cls cs rule: forced_pass.induct) (simp_all add: Let_def)

lemma score_clause_frame:
  "subset_vars (score_clause i ls st) = subset_vars st \<and> incl (score_clause i ls st) = incl st"
  by (induction i ls st rule: score_clause.induct) simp_all

lemma second_pass_frame:
  "subset_vars (second_pass S i cls st) = subset_vars st \<and> incl (second_pass S i cls st) = incl st"
  by (induction S i cls st rule: second_pass.induct) (simp_all add: Let_def score_clause_frame)

lemma greedy_pass_frame:
  "greedy_pass n i r cs = Some cs' \<Longrightarrow>
   subset_vars (snd cs') = subset_vars (snd cs) \<and> incl (snd cs') = incl (snd cs)"
proof (induction n i r cs rule: greedy_pass.induct)
  case (1 n i scoreRank cs)
  show ?case
  proof (cases "i < n \<and> coverCount (snd cs) ! i \<noteq> 0")
    case True
    with "1.prems" have "greedy_pass n (i + 1) scoreRank cs = Some cs'" by simp
    from "1.IH"(1)[OF True this] show ?thesis .
  next
    case a: False
    show ?thesis
    proof (cases "i \<ge> n")
      case True
      with a "1.prems" show ?thesis by simp
    next
      case b: False
      show ?thesis
      proof (cases "scoreRank \<ge> length (potentialCoverLits (snd cs))")
        case True
        with a b "1.prems" show ?thesis by simp
      next
        case c: False
        define inVid where "inVid = potentialCoverLits (snd cs) ! scoreRank"
        define inUncCls where "inUncCls = mVarsInUncCls (snd cs) ! var inVid"
        show ?thesis
        proof (cases "\<exists>clause \<in> set inUncCls. coverCount (snd cs) ! clause = 0")
          case True
          with a b c "1.prems" have
            "greedy_pass n i (scoreRank + 1)
               (fst cs @ [inVid],
                (snd cs)\<lparr>coverCount := bump_counts 1 inUncCls (coverCount (snd cs))\<rparr>) = Some cs'"
            by (simp add: Let_def inVid_def inUncCls_def)
          from "1.IH"(2)[OF a b c inVid_def inUncCls_def True this] show ?thesis by simp
        next
          case False
          with a b c "1.prems" have "greedy_pass n i (scoreRank + 1) cs = Some cs'"
            by (simp add: Let_def inVid_def inUncCls_def)
          from "1.IH"(3)[OF a b c inVid_def inUncCls_def False this] show ?thesis .
        qed
      qed
    qed
  qed
qed

lemma exact_cover_frame:
  assumes "exact_cover S cs = Some cs'"
  shows "subset_vars (snd cs') = subset_vars (snd cs) \<and> incl (snd cs') = incl (snd cs)"
proof -
  define cs1 where "cs1 = forced_pass S 0 (clauses S) (fst cs, exact_reset S (snd cs))"
  define st2 where "st2 = second_pass S 0 (clauses S) (snd cs1)"
  define st3 where "st3 = st2\<lparr>potentialCoverLits :=
                      sort_cover_lt (mVarsGreedyScore st2) (potentialCoverLits st2)\<rparr>"
  from assms obtain cs4 where
    g: "greedy_pass (length (clauses S)) 0 0 (fst cs1, st3) = Some cs4"
    and r: "subset_vars (snd cs') = subset_vars (snd cs4)" "incl (snd cs') = incl (snd cs4)"
    unfolding exact_cover_def cs1_def[symmetric] Let_def st2_def[symmetric] st3_def[symmetric]
    by (cases "greedy_pass (length (clauses S)) 0 0 (fst cs1, st3)") auto
  have "subset_vars st3 = subset_vars (snd cs) \<and> incl st3 = incl (snd cs)"
    by (simp add: st3_def st2_def cs1_def second_pass_frame forced_pass_frame exact_reset_def)
  with greedy_pass_frame[OF g] r show ?thesis by simp
qed

lemma getCover_frame:
  assumes "getCover fast S st = Some (cover, st')"
  shows "subset_vars st' = subset_vars (cover_prelude S st) \<and> incl st' = incl (cover_prelude S st)"
proof (cases fast)
  case True
  with assms have "st' = snd (fast_pass S (subset_vars (snd (level0_pass (take (level0_count S) (trail S)) ([], cover_prelude S st))))
      (level0_pass (take (level0_count S) (trail S)) ([], cover_prelude S st)))"
    by (auto simp: getCover_def Let_def)
  then show ?thesis by (simp add: fast_pass_frame level0_pass_frame)
next
  case False
  with assms have "exact_cover S (level0_pass (take (level0_count S) (trail S)) ([], cover_prelude S st)) = Some (cover, st')"
    by (simp add: getCover_def Let_def)
  from exact_cover_frame[OF this] show ?thesis by (simp add: level0_pass_frame)
qed


lemma getCover_solver_B: "getCover True solver_B Cover_init = Some ([mkLit 0 False], cover_B)"
  by code_simp

lemma getCover_solver_B_excluded:
  "getCover True solver_B (excludeFromCover 0 True cover_B)
     = Some ([mkLit 0 False], cover_B\<lparr>incl := [False, True]\<rparr>)"
  by code_simp

text \<open>
  C9. \<open>excludeFromCover\<close> changes the inclusion vector only. A call of \<open>getCover\<close> that
  returns leaves \<open>subset\<close> as it found it when it was not empty, and otherwise builds it from
  the inclusion flags (grown to the number of variables) of that moment. So after a call
  of \<open>excludeFromCover\<close> on an engine whose \<open>subset\<close> is not empty, the fast-mode scan of the
  next \<open>getCover\<close> still iterates over the same \<open>subset\<close>.
\<close>

theorem C9_subset_built_once:
  "(\<exists>inc. excludeFromCover v b st = st\<lparr>incl := inc\<rparr>) \<and>
   (getCover fast S st = Some (cover, st') \<longrightarrow>
      subset_vars st' =
        (if subset_vars st = []
         then filter (\<lambda>i. growTo (nVars S) True (incl st) ! i)
                [0..<length (growTo (nVars S) True (incl st))]
         else subset_vars st)) \<and>
   (subset_vars st \<noteq> [] \<longrightarrow>
      getCover True S (excludeFromCover v b st) =
        Some (fast_pass S (subset_vars st)
                (level0_pass (take (level0_count S) (trail S))
                   ([], cover_prelude S (excludeFromCover v b st)))))"
proof (intro conjI impI)
  show "\<exists>inc. excludeFromCover v b st = st\<lparr>incl := inc\<rparr>"
    unfolding excludeFromCover_def by blast
next
  assume "getCover fast S st = Some (cover, st')"
  from getCover_frame[OF this]
  show "subset_vars st' =
        (if subset_vars st = []
         then filter (\<lambda>i. growTo (nVars S) True (incl st) ! i)
                [0..<length (growTo (nVars S) True (incl st))]
         else subset_vars st)"
    by (simp add: cover_prelude_def Let_def)
next
  assume ne: "subset_vars st \<noteq> []"
  have "subset_vars (snd (level0_pass (take (level0_count S) (trail S))
          ([], cover_prelude S (excludeFromCover v b st)))) = subset_vars st"
    using ne by (simp add: level0_pass_frame cover_prelude_def excludeFromCover_def Let_def)
  then show "getCover True S (excludeFromCover v b st) =
        Some (fast_pass S (subset_vars st)
                (level0_pass (take (level0_count S) (trail S))
                   ([], cover_prelude S (excludeFromCover v b st))))"
    by (simp add: getCover_def Let_def)
qed

text \<open>
  C9 on \<open>solver_B\<close>: variable 0 is excluded after the first call, and the second call in
  fast mode still scans the variables 0 and 1.
\<close>

theorem C9_subset_built_once_witness:
  "getCover True solver_B (excludeFromCover 0 True cover_B)
     = Some ([mkLit 0 False], cover_B\<lparr>incl := [False, True]\<rparr>) \<and>
   subset_vars cover_B \<noteq> [] \<and>
   subset_vars (cover_B\<lparr>incl := [False, True]\<rparr>) = subset_vars (excludeFromCover 0 True cover_B) \<and>
   getCover True solver_B (excludeFromCover 0 True cover_B) =
     Some (fast_pass solver_B (subset_vars cover_B)
             (level0_pass (take (level0_count solver_B) (trail solver_B))
                ([], cover_prelude solver_B (excludeFromCover 0 True cover_B))))"
proof -
  have ne: "subset_vars cover_B \<noteq> []" by (simp add: cover_B_def)
  have ne': "subset_vars (excludeFromCover 0 True cover_B) \<noteq> []"
    by (simp add: cover_B_def excludeFromCover_def)
  note c = C9_subset_built_once[of 0 True cover_B True solver_B "[mkLit 0 False]"
             "cover_B\<lparr>incl := [False, True]\<rparr>"]
  note c' = C9_subset_built_once[of 0 True "excludeFromCover 0 True cover_B" True solver_B
              "[mkLit 0 False]" "cover_B\<lparr>incl := [False, True]\<rparr>"]
  from c' getCover_solver_B_excluded ne'
  have "subset_vars (cover_B\<lparr>incl := [False, True]\<rparr>)
          = subset_vars (excludeFromCover 0 True cover_B)" by simp
  moreover from c ne have "getCover True solver_B (excludeFromCover 0 True cover_B) =
     Some (fast_pass solver_B (subset_vars cover_B)
             (level0_pass (take (level0_count solver_B) (trail solver_B))
                ([], cover_prelude solver_B (excludeFromCover 0 True cover_B))))" by blast
  ultimately show ?thesis using getCover_solver_B_excluded ne by blast
qed

text \<open>
  C9 as stated fails when the first \<open>getCover\<close> finds no eligible variable. On \<open>solver_B\<close>
  with both variables excluded before the first call, that call leaves \<open>subset\<close> empty. A
  later call scans no variable; after \<open>excludeFromCover(0, false)\<close> the later call builds
  \<open>subset\<close> again and scans variable 0.
\<close>

theorem C9_counterexample:
  "Option.bind
     (getCover True solver_B (excludeFromCover 1 True (excludeFromCover 0 True Cover_init)))
     (\<lambda>r. Option.bind (getCover True solver_B (snd r))
        (\<lambda>a. map_option (\<lambda>b. (subset_vars (snd r), subset_vars (snd a), subset_vars (snd b)))
                (getCover True solver_B (excludeFromCover 0 False (snd r)))))
   = Some ([], [], [0])"
  by code_simp

section \<open>The cover after a late exclusion\<close>

text \<open>
  C7 fails on the code. On \<open>solver_B\<close> (the clause \<open>x0 \<or> x1\<close>, both variables true, every
  variable assigned) the first \<open>getCover\<close> builds \<open>subset = [0, 1]\<close>. After
  \<open>excludeFromCover(0, true)\<close> the next \<open>getCover\<close> in fast mode still scans variable 0 and
  returns the cover \<open>[x0]\<close>, although the inclusion flag of variable 0 is false.
\<close>

theorem C7_cover_holds_excluded_variable:
  "Option.bind (getCover True solver_B Cover_init)
     (\<lambda>r. map_option (\<lambda>r'. (fst r', incl (snd r')))
            (getCover True solver_B (excludeFromCover 0 True (snd r))))
     = Some ([mkLit 0 False], [False, True])"
  by code_simp

text \<open>The literal returned in C7's scenario belongs to a variable whose flag is false.\<close>

theorem C7_cover_holds_excluded_variable_witness:
  "Option.bind (getCover True solver_B Cover_init)
     (\<lambda>r. map_option (\<lambda>r'. list_all (\<lambda>l. incl (snd r') ! var l) (fst r'))
            (getCover True solver_B (excludeFromCover 0 True (snd r))))
     = Some False"
  using C7_cover_holds_excluded_variable by code_simp

section \<open>Local minimality of the exact cover\<close>

lemma second_scan_char:
  "second_scan S st c unc =
     (if pre_covered S st c then (True, [])
      else (False, unc @ filter (\<lambda>l. lit_value S l = l_True) c))"
proof (induction c arbitrary: unc)
  case Nil
  show ?case by (simp add: pre_covered_def)
next
  case (Cons l ls)
  show ?case
  proof (cases "lit_value S l = l_True")
    case True
    show ?thesis
    proof (cases "\<not> incl st ! var l \<or> in_cover st ! var l")
      case True
      with \<open>lit_value S l = l_True\<close> have "pre_covered S st (l # ls)"
        by (auto simp: pre_covered_def)
      with True \<open>lit_value S l = l_True\<close> show ?thesis by auto
    next
      case False
      with \<open>lit_value S l = l_True\<close> have "pre_covered S st (l # ls) = pre_covered S st ls"
        by (auto simp: pre_covered_def)
      with False \<open>lit_value S l = l_True\<close> Cons.IH[of "unc @ [l]"] show ?thesis by simp
    qed
  next
    case False
    then have "pre_covered S st (l # ls) = pre_covered S st ls"
      by (auto simp: pre_covered_def)
    with False Cons.IH[of unc] show ?thesis by simp
  qed
qed

lemma forced_scan_one:
  assumes "fst (forced_scan S inc c acc) = 1" and "fst acc = 0 \<or> fst acc = 1"
  shows "(fst acc = 1 \<and> snd (forced_scan S inc c acc) = snd acc) \<or>
         (snd (forced_scan S inc c acc) \<in> set c \<and>
          lit_value S (snd (forced_scan S inc c acc)) \<noteq> l_False \<and>
          inc ! var (snd (forced_scan S inc c acc)))"
  using assms
proof (induction c arbitrary: acc)
  case Nil
  then show ?case by auto
next
  case (Cons l ls)
  show ?case
  proof (cases "lit_value S l \<noteq> l_False")
    case nf: True
    show ?thesis
    proof (cases "\<not> inc ! var l")
      case True
      with nf Cons.prems show ?thesis by simp
    next
      case inc: False
      show ?thesis
      proof (cases "fst acc \<noteq> 0")
        case True
        with nf inc Cons.prems show ?thesis by auto
      next
        case False
        with nf inc Cons.prems have r: "fst (forced_scan S inc ls (fst acc + 1, l)) = 1"
          by simp
        from Cons.IH[OF r] False
        have "snd (forced_scan S inc ls (fst acc + 1, l)) = l \<or>
              (snd (forced_scan S inc ls (fst acc + 1, l)) \<in> set ls \<and>
               lit_value S (snd (forced_scan S inc ls (fst acc + 1, l))) \<noteq> l_False \<and>
               inc ! var (snd (forced_scan S inc ls (fst acc + 1, l))))" by auto
        with nf inc False show ?thesis by auto
      qed
    qed
  next
    case False
    with Cons.prems have r: "fst (forced_scan S inc ls acc) = 1" by simp
    from Cons.IH[OF r Cons.prems(2)] False show ?thesis by auto
  qed
qed

lemma nonfalse_true:
  assumes "eligible_assigned S inc" "l \<noteq> lit_Undef" "var l < nVars S" "inc ! var l"
    "lit_value S l \<noteq> l_False"
  shows "lit_value S l = l_True"
proof -
  obtain v b where l: "l = mkLit v b" using assms(2) by (cases l) auto
  with assms(1,3,4) have "assigns S ! v \<noteq> l_Undef" by (auto simp: eligible_assigned_def)
  with assms(5) l show ?thesis by (cases "assigns S ! v") (auto split: if_splits)
qed

lemma nth_update_True: "xs ! k \<Longrightarrow> (xs[v := True]) ! k"
  by (cases "v < length xs") (auto simp: nth_list_update list_update_beyond)

lemma prefix_ok_grow:
  assumes "prefix_ok S st P" "v < length (in_cover st)"
  shows "prefix_ok S (st\<lparr>in_cover := (in_cover st)[v := True]\<rparr>) P"
  using assms by (auto simp: prefix_ok_def nth_list_update)

lemma prefix_ok_snoc:
  assumes "prefix_ok S st P" "var l < length (in_cover st)" "lit_value S l = l_True"
  shows "prefix_ok S (st\<lparr>in_cover := (in_cover st)[var l := True]\<rparr>) (P @ [l])"
  using assms by (auto simp: prefix_ok_def nth_list_update)

lemma level0_pass_inv:
  assumes "\<forall>l\<in>set ls. var l < length (in_cover (snd cs)) \<and> lit_value S l = l_True"
    and "prefix_ok S (snd cs) (fst cs)"
  shows "prefix_ok S (snd (level0_pass ls cs)) (fst (level0_pass ls cs)) \<and>
         length (in_cover (snd (level0_pass ls cs))) = length (in_cover (snd cs))"
  using assms
proof (induction ls cs rule: level0_pass.induct)
  case (1 cs)
  then show ?case by simp
next
  case (2 l ls cs)
  show ?case
  proof (cases "incl (snd cs) ! var l")
    case True
    let ?cs' = "(fst cs @ [l], (snd cs)\<lparr>in_cover := (in_cover (snd cs))[var l := True]\<rparr>)"
    have a: "\<forall>l\<in>set ls. var l < length (in_cover (snd ?cs')) \<and> lit_value S l = l_True"
      using "2.prems"(1) by simp
    have b: "prefix_ok S (snd ?cs') (fst ?cs')"
      using prefix_ok_snoc[OF "2.prems"(2), of l] "2.prems"(1) by simp
    from "2.IH"(1)[OF True a b] True show ?thesis by simp
  next
    case False
    have a: "\<forall>l\<in>set ls. var l < length (in_cover (snd cs)) \<and> lit_value S l = l_True"
      using "2.prems"(1) by simp
    from "2.IH"(2)[OF False a "2.prems"(2)] False show ?thesis by simp
  qed
qed

lemma level0_pass_other:
  "coverCount (snd (level0_pass ls cs)) = coverCount (snd cs) \<and>
   mVarsInUncCls (snd (level0_pass ls cs)) = mVarsInUncCls (snd cs) \<and>
   mVarsGreedyScore (snd (level0_pass ls cs)) = mVarsGreedyScore (snd cs) \<and>
   potentialCoverLits (snd (level0_pass ls cs)) = potentialCoverLits (snd cs) \<and>
   uncovered (snd (level0_pass ls cs)) = uncovered (snd cs) \<and>
   incl (snd (level0_pass ls cs)) = incl (snd cs)"
  by (induction ls cs rule: level0_pass.induct) simp_all

lemma forced_pass_other:
  "mVarsInUncCls (snd (forced_pass S i cls cs)) = mVarsInUncCls (snd cs) \<and>
   mVarsGreedyScore (snd (forced_pass S i cls cs)) = mVarsGreedyScore (snd cs) \<and>
   potentialCoverLits (snd (forced_pass S i cls cs)) = potentialCoverLits (snd cs) \<and>
   uncovered (snd (forced_pass S i cls cs)) = uncovered (snd cs) \<and>
   incl (snd (forced_pass S i cls cs)) = incl (snd cs)"
  by (induction S i cls cs rule: forced_pass.induct) (simp_all add: Let_def)

lemma drop_eq_ConsD:
  assumes "drop i xs = c # rest"
  shows "i < length xs \<and> xs ! i = c \<and> drop (i + 1) xs = rest"
proof -
  have i: "i < length xs" using assms by (cases "i < length xs") auto
  from Cons_nth_drop_Suc[OF i] assms show ?thesis using i by simp
qed

lemma forced_step:
  assumes wf: "solver_wf S" and ea: "eligible_assigned S (incl (snd cs))"
    and inv: "forced_inv S cs" and i: "i < length (clauses S)" and c: "clauses S ! i = c"
    and r: "fst (forced_scan S (incl (snd cs)) c (0, lit_Undef)) = 1"
  shows "(\<not> in_cover (snd cs) ! var (snd (forced_scan S (incl (snd cs)) c (0, lit_Undef))) \<longrightarrow>
          forced_inv S
            (fst cs @ [snd (forced_scan S (incl (snd cs)) c (0, lit_Undef))],
             (snd cs)\<lparr>coverCount := (coverCount (snd cs))[i := coverCount (snd cs) ! i + 1],
                       in_cover := (in_cover (snd cs))
                          [var (snd (forced_scan S (incl (snd cs)) c (0, lit_Undef))) := True]\<rparr>)) \<and>
         (in_cover (snd cs) ! var (snd (forced_scan S (incl (snd cs)) c (0, lit_Undef))) \<longrightarrow>
          forced_inv S
            (fst cs,
             (snd cs)\<lparr>coverCount := (coverCount (snd cs))[i := coverCount (snd cs) ! i + 1]\<rparr>))"
proof -
  define p where "p = snd (forced_scan S (incl (snd cs)) c (0, lit_Undef))"
  from forced_scan_one[OF r] have
    p: "p \<in> set c" "lit_value S p \<noteq> l_False" "incl (snd cs) ! var p"
    by (auto simp: p_def)
  have cin: "c \<in> set (clauses S)" using i c by auto
  with wf p(1) have pw: "p \<noteq> lit_Undef" "var p < nVars S" by (auto simp: solver_wf_def)
  from nonfalse_true[OF ea pw p(3) p(2)] have pt: "lit_value S p = l_True" .
  from inv have len: "length (in_cover (snd cs)) = nVars S"
    and lenc: "length (coverCount (snd cs)) = length (clauses S) + 1"
    and pre: "prefix_ok S (snd cs) (fst cs)"
    and cnt: "\<forall>j<length (clauses S). coverCount (snd cs) ! j \<noteq> 0 \<longrightarrow>
          (\<exists>l\<in>set (clauses S ! j). lit_value S l = l_True \<and> in_cover (snd cs) ! var l)"
    by (auto simp: forced_inv_def)
  show ?thesis
  proof (cases "in_cover (snd cs) ! var p")
    case True
    have "\<forall>j<length (clauses S).
            (coverCount (snd cs))[i := coverCount (snd cs) ! i + 1] ! j \<noteq> 0 \<longrightarrow>
            (\<exists>l\<in>set (clauses S ! j). lit_value S l = l_True \<and> in_cover (snd cs) ! var l)"
    proof (intro allI impI)
      fix j assume j: "j < length (clauses S)"
        and nz: "(coverCount (snd cs))[i := coverCount (snd cs) ! i + 1] ! j \<noteq> 0"
      show "\<exists>l\<in>set (clauses S ! j). lit_value S l = l_True \<and> in_cover (snd cs) ! var l"
      proof (cases "j = i")
        case True
        with p(1) pt \<open>in_cover (snd cs) ! var p\<close> c show ?thesis by auto
      next
        case False
        with nz have "coverCount (snd cs) ! j \<noteq> 0" by simp
        with cnt j show ?thesis by blast
      qed
    qed
    with True pre len lenc show ?thesis
      by (simp add: forced_inv_def p_def[symmetric] prefix_ok_def)
  next
    case False
    let ?st' = "(snd cs)\<lparr>coverCount := (coverCount (snd cs))[i := coverCount (snd cs) ! i + 1],
                          in_cover := (in_cover (snd cs))[var p := True]\<rparr>"
    have pre': "prefix_ok S ?st' (fst cs @ [p])"
      using pre pw(2) pt len by (auto simp: prefix_ok_def nth_list_update)
    have "\<forall>j<length (clauses S). coverCount ?st' ! j \<noteq> 0 \<longrightarrow>
            (\<exists>l\<in>set (clauses S ! j). lit_value S l = l_True \<and> in_cover ?st' ! var l)"
    proof (intro allI impI)
      fix j assume j: "j < length (clauses S)" and nz: "coverCount ?st' ! j \<noteq> 0"
      show "\<exists>l\<in>set (clauses S ! j). lit_value S l = l_True \<and> in_cover ?st' ! var l"
      proof (cases "j = i")
        case True
        with p(1) pt c pw(2) len show ?thesis by auto
      next
        case False
        with nz have "coverCount (snd cs) ! j \<noteq> 0" by simp
        with cnt j obtain l where "l \<in> set (clauses S ! j)" "lit_value S l = l_True"
          "in_cover (snd cs) ! var l" by blast
        then show ?thesis using nth_update_True by auto
      qed
    qed
    with False pre' len lenc show ?thesis
      by (simp add: forced_inv_def p_def[symmetric])
  qed
qed

lemma forced_pass_inv:
  assumes wf: "solver_wf S" and ea: "eligible_assigned S (incl (snd cs))"
    and d: "drop i (clauses S) = cls" and inv: "forced_inv S cs"
  shows "forced_inv S (forced_pass S i cls cs)"
  using wf ea d inv
proof (induction S i cls cs rule: forced_pass.induct)
  case (1 S i cs)
  then show ?case by simp
next
  case (2 S i c rest cs)
  note wf' = "2.prems"(1)
  from drop_eq_ConsD[OF "2.prems"(3)] have
    i: "i < length (clauses S)" and c: "clauses S ! i = c" and d': "drop (i + 1) (clauses S) = rest"
    by auto
  define r where "r = forced_scan S (incl (snd cs)) c (0, lit_Undef)"
  show ?case
  proof (cases "fst r = 1")
    case True
    define st1 where "st1 = (snd cs)\<lparr>coverCount := (coverCount (snd cs))[i := coverCount (snd cs) ! i + 1]\<rparr>"
    note st = forced_step[OF wf' "2.prems"(2,4) i c True[unfolded r_def], folded r_def]
    show ?thesis
    proof (cases "\<not> in_cover st1 ! var (snd r)")
      case nic: True
      have ea': "eligible_assigned S (incl (snd (fst cs @ [snd r], st1\<lparr>in_cover := (in_cover st1)[var (snd r) := True]\<rparr>)))"
        using "2.prems"(2) by (simp add: st1_def)
      have inv': "forced_inv S (fst cs @ [snd r], st1\<lparr>in_cover := (in_cover st1)[var (snd r) := True]\<rparr>)"
        using st nic by (simp add: st1_def)
      from "2.IH"(1)[OF r_def True st1_def nic wf' ea' d' inv'] True nic
      show ?thesis by (simp add: r_def[symmetric] Let_def st1_def[symmetric])
    next
      case ic: False
      have ea': "eligible_assigned S (incl (snd (fst cs, st1)))"
        using "2.prems"(2) by (simp add: st1_def)
      have inv': "forced_inv S (fst cs, st1)" using st ic by (simp add: st1_def)
      from "2.IH"(2)[OF r_def True st1_def ic wf' ea' d' inv'] True ic
      show ?thesis by (simp add: r_def[symmetric] Let_def st1_def[symmetric])
    qed
  next
    case False
    from "2.IH"(3)[OF r_def False wf' "2.prems"(2) d' "2.prems"(4)] False
    show ?thesis by (simp add: r_def[symmetric] Let_def)
  qed
qed

lemma score_clause_other:
  "coverCount (score_clause i ls st) = coverCount st \<and>
   in_cover (score_clause i ls st) = in_cover st \<and>
   incl (score_clause i ls st) = incl st \<and>
   uncovered (score_clause i ls st) = uncovered st"
  by (induction i ls st rule: score_clause.induct) simp_all

lemma score_clause_effect:
  assumes "\<forall>l\<in>set ls. var l < n" "n \<le> length (mVarsInUncCls st)"
    "length (mVarsGreedyScore st) = n"
  shows "n \<le> length (mVarsInUncCls (score_clause i ls st)) \<and>
         length (mVarsGreedyScore (score_clause i ls st)) = n \<and>
         (\<forall>v<n. mVarsInUncCls (score_clause i ls st) ! v
                  = mVarsInUncCls st ! v @ replicate (length (filter (\<lambda>l. var l = v) ls)) i) \<and>
         (\<forall>v<n. mVarsGreedyScore (score_clause i ls st) ! v
                  = mVarsGreedyScore st ! v + int (length (filter (\<lambda>l. var l = v) ls)))"
  using assms
proof (induction i ls st rule: score_clause.induct)
  case (1 i st)
  then show ?case by simp
next
  case (2 i l ls st)
  let ?st' = "st\<lparr>mVarsGreedyScore := (mVarsGreedyScore st)[var l := mVarsGreedyScore st ! var l + 1],
           potentialCoverLits := (if mVarsGreedyScore st ! var l = 0
                                  then potentialCoverLits st @ [l]
                                  else potentialCoverLits st),
           mVarsInUncCls := (mVarsInUncCls st)[var l := mVarsInUncCls st ! var l @ [i]]\<rparr>"
  have a: "\<forall>l\<in>set ls. var l < n" using "2.prems"(1) by simp
  have b: "n \<le> length (mVarsInUncCls ?st')" "length (mVarsGreedyScore ?st') = n"
    using "2.prems"(2,3) by simp_all
  note IH = "2.IH"[OF a b]
  have vl: "var l < n" using "2.prems"(1) by simp
  have L: "\<forall>v<n. mVarsInUncCls ?st' ! v @ replicate (length (filter (\<lambda>l. var l = v) ls)) i
             = mVarsInUncCls st ! v @ replicate (length (filter (\<lambda>l. var l = v) (l # ls))) i"
    using "2.prems"(2) vl by (auto simp: nth_list_update replicate_append_same)
  have M: "\<forall>v<n. mVarsGreedyScore ?st' ! v + int (length (filter (\<lambda>l. var l = v) ls))
             = mVarsGreedyScore st ! v + int (length (filter (\<lambda>l. var l = v) (l # ls)))"
    using "2.prems"(3) vl by (auto simp: nth_list_update)
  from IH L M show ?case by simp
qed

lemma pcl_ok_score_clause:
  assumes "\<forall>l\<in>set ls. var l < nVars S \<and> lit_value S l = l_True"
    "length (mVarsGreedyScore st) = nVars S" "pcl_ok S st"
  shows "pcl_ok S (score_clause i ls st)"
  using assms
proof (induction i ls st rule: score_clause.induct)
  case (1 i st)
  then show ?case by simp
next
  case (2 i l ls st)
  let ?sc = "(mVarsGreedyScore st)[var l := mVarsGreedyScore st ! var l + 1]"
  let ?pl = "(if mVarsGreedyScore st ! var l = 0 then potentialCoverLits st @ [l]
              else potentialCoverLits st)"
  let ?st' = "st\<lparr>mVarsGreedyScore := ?sc, potentialCoverLits := ?pl,
           mVarsInUncCls := (mVarsInUncCls st)[var l := mVarsInUncCls st ! var l @ [i]]\<rparr>"
  have a: "\<forall>l\<in>set ls. var l < nVars S \<and> lit_value S l = l_True" using "2.prems"(1) by simp
  have b: "length (mVarsGreedyScore ?st') = nVars S" using "2.prems"(2) by simp
  have vl: "var l < nVars S" and tl: "lit_value S l = l_True" using "2.prems"(1) by simp_all
  have vl': "var l < length (mVarsGreedyScore st)" using vl "2.prems"(2) by simp
  from "2.prems"(3) have d: "distinct (map var (potentialCoverLits st))"
    and p: "\<forall>k\<in>set (potentialCoverLits st).
          lit_value S k = l_True \<and> var k < nVars S \<and> mVarsGreedyScore st ! var k \<noteq> 0"
    and nn: "\<forall>v<nVars S. 0 \<le> mVarsGreedyScore st ! v"
    by (auto simp: pcl_ok_def)
  have sc: "\<And>v. ?sc ! v = (if v = var l then mVarsGreedyScore st ! var l + 1
                           else mVarsGreedyScore st ! v)"
    using vl' by (simp add: nth_list_update)
  have nn': "\<forall>v<nVars S. 0 \<le> ?sc ! v"
  proof (intro allI impI)
    fix v assume "v < nVars S"
    with nn vl have "0 \<le> mVarsGreedyScore st ! v" "0 \<le> mVarsGreedyScore st ! var l" by auto
    then show "0 \<le> ?sc ! v" unfolding sc by simp
  qed
  have p': "\<forall>k\<in>set ?pl. lit_value S k = l_True \<and> var k < nVars S \<and> ?sc ! var k \<noteq> 0"
  proof
    fix k assume k: "k \<in> set ?pl"
    show "lit_value S k = l_True \<and> var k < nVars S \<and> ?sc ! var k \<noteq> 0"
    proof (cases "k \<in> set (potentialCoverLits st)")
      case True
      with p have k1: "lit_value S k = l_True" "var k < nVars S" "mVarsGreedyScore st ! var k \<noteq> 0"
        by auto
      with nn have pos: "0 < mVarsGreedyScore st ! var k" by (metis order_le_less)
      have "?sc ! var k \<noteq> 0"
      proof (cases "var k = var l")
        case True
        with pos have "0 < mVarsGreedyScore st ! var l" by simp
        then show ?thesis unfolding sc using True by simp
      next
        case False
        then show ?thesis unfolding sc using pos by simp
      qed
      with k1 show ?thesis by simp
    next
      case False
      with k have kl: "k = l" and z: "mVarsGreedyScore st ! var l = 0" by (auto split: if_splits)
      have "?sc ! var l \<noteq> 0" unfolding sc using z by simp
      then show ?thesis using vl tl kl by simp
    qed
  qed
  have d': "distinct (map var ?pl)"
  proof (cases "mVarsGreedyScore st ! var l = 0")
    case True
    have "var l \<notin> var ` set (potentialCoverLits st)"
    proof
      assume "var l \<in> var ` set (potentialCoverLits st)"
      then obtain k where "k \<in> set (potentialCoverLits st)" "var k = var l" by auto
      with p True show False by auto
    qed
    with d True show ?thesis by simp
  next
    case False
    with d show ?thesis by simp
  qed
  have "pcl_ok S ?st'" using d' p' nn' unfolding pcl_ok_def by simp
  from "2.IH"[OF a b this] show ?case by simp
qed

lemma pre_covered_cong:
  "in_cover st = in_cover st0 \<Longrightarrow> incl st = incl st0 \<Longrightarrow>
   pre_covered S st c = pre_covered S st0 c"
  by (simp add: pre_covered_def)

lemma lists_sound_mono: "lists_sound S st0 i ll \<Longrightarrow> i \<le> k \<Longrightarrow> lists_sound S st0 k ll"
  unfolding lists_sound_def by (meson less_le_trans)

lemma lists_complete_sat:
  assumes "lists_complete S st0 i ll" "pre_covered S st0 (clauses S ! i)"
  shows "lists_complete S st0 (i + 1) ll"
  unfolding lists_complete_def
proof (intro allI impI)
  fix j assume j: "j < i + 1" and n: "\<not> pre_covered S st0 (clauses S ! j)"
  with assms(2) have "j < i" by (cases "j = i") auto
  with assms(1) n show "\<forall>l\<in>set (clauses S ! j). lit_value S l = l_True \<longrightarrow> j \<in> set (ll ! var l)"
    unfolding lists_complete_def by blast
qed

lemma second_step_sat:
  assumes inv: "second_inv S st0 i st" and i: "i < length (clauses S)"
    and pc: "pre_covered S st0 (clauses S ! i)"
  shows "second_inv S st0 (i + 1)
           (st\<lparr>coverCount := (coverCount st)[i := coverCount st ! i + 1],
               uncovered := (uncovered st)[i := []]\<rparr>)"
proof -
  let ?st' = "st\<lparr>coverCount := (coverCount st)[i := coverCount st ! i + 1],
               uncovered := (uncovered st)[i := []]\<rparr>"
  from inv have f: "second_frame S st0 st" and s: "lists_sound S st0 i (mVarsInUncCls st)"
    and c: "lists_complete S st0 i (mVarsInUncCls st)" and p: "pcl_ok S st"
    by (auto simp: second_inv_def)
  have "\<forall>j<length (clauses S). \<not> pre_covered S st0 (clauses S ! j) \<longrightarrow>
          coverCount ?st' ! j = coverCount st0 ! j"
  proof (intro allI impI)
    fix j assume j: "j < length (clauses S)" and n: "\<not> pre_covered S st0 (clauses S ! j)"
    with pc have "j \<noteq> i" by auto
    then have "coverCount ?st' ! j = coverCount st ! j" by simp
    with f j n show "coverCount ?st' ! j = coverCount st0 ! j" by (simp add: second_frame_def)
  qed
  with f have f': "second_frame S st0 ?st'" by (simp add: second_frame_def)
  have p': "pcl_ok S ?st'" using p by (simp add: pcl_ok_def)
  show ?thesis unfolding second_inv_def
    using f' p' lists_sound_mono[OF s, of "i + 1"] lists_complete_sat[OF c pc] by simp
qed

lemma second_step_unsat:
  assumes wf: "solver_wf S" and inv: "second_inv S st0 i st" and i: "i < length (clauses S)"
    and pc: "\<not> pre_covered S st0 (clauses S ! i)"
    and ls: "ls = filter (\<lambda>l. lit_value S l = l_True) (clauses S ! i)"
  shows "second_inv S st0 (i + 1) (score_clause i ls (st\<lparr>uncovered := (uncovered st)[i := ls]\<rparr>))"
proof -
  let ?st1 = "st\<lparr>uncovered := (uncovered st)[i := ls]\<rparr>"
  let ?st' = "score_clause i ls ?st1"
  from inv have f: "second_frame S st0 st" and s: "lists_sound S st0 i (mVarsInUncCls st)"
    and c: "lists_complete S st0 i (mVarsInUncCls st)" and p: "pcl_ok S st"
    by (auto simp: second_inv_def)
  have cin: "clauses S ! i \<in> set (clauses S)" using i by simp
  have lsv: "\<forall>l\<in>set ls. var l < nVars S" using wf cin ls by (auto simp: solver_wf_def)
  have lst: "\<forall>l\<in>set ls. var l < nVars S \<and> lit_value S l = l_True" using lsv ls by auto
  from f have len: "nVars S \<le> length (mVarsInUncCls ?st1)" "length (mVarsGreedyScore ?st1) = nVars S"
    by (auto simp: second_frame_def)
  from score_clause_effect[OF lsv len, of i] have
    e1: "nVars S \<le> length (mVarsInUncCls ?st')" and e2: "length (mVarsGreedyScore ?st') = nVars S"
    and e3: "\<forall>v<nVars S. mVarsInUncCls ?st' ! v
                = mVarsInUncCls st ! v @ replicate (length (filter (\<lambda>l. var l = v) ls)) i"
    and e4: "\<forall>v<nVars S. mVarsGreedyScore ?st' ! v
                = mVarsGreedyScore st ! v + int (length (filter (\<lambda>l. var l = v) ls))"
    by simp_all
  note o = score_clause_other[of i ls ?st1]
  have p1: "pcl_ok S ?st1" using p by (simp add: pcl_ok_def)
  have pcl: "pcl_ok S ?st'" by (rule pcl_ok_score_clause[OF lst len(2) p1])
  have I1: "lists_sound S st0 (i + 1) (mVarsInUncCls ?st')"
    unfolding lists_sound_def
  proof (intro allI impI ballI)
    fix v j assume v: "v < nVars S" and j: "j \<in> set (mVarsInUncCls ?st' ! v)"
    from e3 v have "mVarsInUncCls ?st' ! v
        = mVarsInUncCls st ! v @ replicate (length (filter (\<lambda>l. var l = v) ls)) i" by blast
    with j have "j \<in> set (mVarsInUncCls st ! v) \<or>
        (j = i \<and> filter (\<lambda>l. var l = v) ls \<noteq> [])" by auto
    then show "j < i + 1 \<and> \<not> pre_covered S st0 (clauses S ! j) \<and>
          (\<exists>l\<in>set (clauses S ! j). lit_value S l = l_True \<and> var l = v)"
    proof
      assume "j \<in> set (mVarsInUncCls st ! v)"
      with s v have "j < i \<and> \<not> pre_covered S st0 (clauses S ! j) \<and>
          (\<exists>l\<in>set (clauses S ! j). lit_value S l = l_True \<and> var l = v)"
        unfolding lists_sound_def by blast
      then show ?thesis by simp
    next
      assume a: "j = i \<and> filter (\<lambda>l. var l = v) ls \<noteq> []"
      then obtain l where "l \<in> set (filter (\<lambda>l. var l = v) ls)"
        by (meson last_in_set)
      then have "l \<in> set ls" "var l = v" by auto
      with ls have "l \<in> set (clauses S ! i)" "lit_value S l = l_True" by auto
      with a pc \<open>var l = v\<close> show ?thesis by auto
    qed
  qed
  have I2: "lists_complete S st0 (i + 1) (mVarsInUncCls ?st')"
    unfolding lists_complete_def
  proof (intro allI impI ballI)
    fix j l assume j: "j < i + 1" and npc: "\<not> pre_covered S st0 (clauses S ! j)"
      and l: "l \<in> set (clauses S ! j)" and t: "lit_value S l = l_True"
    have jl: "j < length (clauses S)" using j i by simp
    then have "clauses S ! j \<in> set (clauses S)" by simp
    with wf l have vl: "var l < nVars S" by (auto simp: solver_wf_def)
    from e3 vl have eq: "mVarsInUncCls ?st' ! var l
        = mVarsInUncCls st ! var l @ replicate (length (filter (\<lambda>k. var k = var l) ls)) i"
      by blast
    show "j \<in> set (mVarsInUncCls ?st' ! var l)"
    proof (cases "j = i")
      case True
      with l t ls have "l \<in> set ls" by simp
      then have "filter (\<lambda>k. var k = var l) ls \<noteq> []" by (auto simp: filter_empty_conv)
      with eq True show ?thesis by simp
    next
      case False
      with j have "j < i" by simp
      with c npc l t have "j \<in> set (mVarsInUncCls st ! var l)"
        unfolding lists_complete_def by blast
      with eq show ?thesis by simp
    qed
  qed
  have I3: "\<forall>v<nVars S. mVarsGreedyScore ?st' ! v = int (length (mVarsInUncCls ?st' ! v))"
  proof (intro allI impI)
    fix v assume v: "v < nVars S"
    from f v have "mVarsGreedyScore st ! v = int (length (mVarsInUncCls st ! v))"
      by (simp add: second_frame_def)
    with e3 e4 v show "mVarsGreedyScore ?st' ! v = int (length (mVarsInUncCls ?st' ! v))"
      by simp
  qed
  have f': "second_frame S st0 ?st'"
    using f o e1 e2 I3 unfolding second_frame_def by simp
  show ?thesis unfolding second_inv_def using f' I1 I2 pcl by simp
qed

lemma second_inv_end:
  assumes "second_inv S st0 i st" "length (clauses S) \<le> i"
    "\<forall>v<nVars S. \<forall>j\<in>set (mVarsInUncCls st ! v). j < length (clauses S)"
  shows "second_inv S st0 (length (clauses S)) st"
proof -
  from assms(1) have f: "second_frame S st0 st" and s: "lists_sound S st0 i (mVarsInUncCls st)"
    and c: "lists_complete S st0 i (mVarsInUncCls st)" and p: "pcl_ok S st"
    by (auto simp: second_inv_def)
  have s': "lists_sound S st0 (length (clauses S)) (mVarsInUncCls st)"
    using s assms(3) unfolding lists_sound_def by blast
  have c': "lists_complete S st0 (length (clauses S)) (mVarsInUncCls st)"
    using c assms(2) unfolding lists_complete_def by (meson less_le_trans)
  show ?thesis unfolding second_inv_def using f s' c' p by simp
qed

lemma second_pass_inv:
  assumes wf: "solver_wf S" and d: "drop i (clauses S) = cls" and inv: "second_inv S st0 i st"
    and le: "i \<le> length (clauses S)"
  shows "second_inv S st0 (length (clauses S)) (second_pass S i cls st)"
  using wf d inv le
proof (induction S i cls st rule: second_pass.induct)
  case (1 S i st)
  then have "i = length (clauses S)" by simp
  with "1.prems"(3) show ?case by simp
next
  case (2 S i c rest st)
  from drop_eq_ConsD[OF "2.prems"(2)] have
    i: "i < length (clauses S)" and c: "clauses S ! i = c" and d': "drop (i + 1) (clauses S) = rest"
    by auto
  have le': "i + 1 \<le> length (clauses S)" using i by simp
  from "2.prems"(3) have "in_cover st = in_cover st0" "incl st = incl st0"
    by (simp_all add: second_inv_def second_frame_def)
  then have eq: "pre_covered S st c = pre_covered S st0 c"
    by (rule pre_covered_cong)
  define r where "r = second_scan S st c []"
  have rc: "r = (if pre_covered S st0 c then (True, [])
                 else (False, filter (\<lambda>l. lit_value S l = l_True) c))"
    unfolding r_def second_scan_char eq by simp
  show ?case
  proof (cases "fst r")
    case True
    then have pc: "pre_covered S st0 (clauses S ! i)"
      using rc c by (auto split: if_splits)
    from second_step_sat[OF "2.prems"(3) i pc]
    have "second_inv S st0 (i + 1)
           (st\<lparr>coverCount := (coverCount st)[i := coverCount st ! i + 1],
               uncovered := (uncovered st)[i := []]\<rparr>)" .
    from "2.IH"(1)[OF r_def True "2.prems"(1) d' this le'] True show ?thesis
      by (simp add: r_def[symmetric] Let_def)
  next
    case False
    then have pc: "\<not> pre_covered S st0 (clauses S ! i)"
      and ls: "snd r = filter (\<lambda>l. lit_value S l = l_True) (clauses S ! i)"
      using rc c by (auto split: if_splits)
    from second_step_unsat[OF "2.prems"(1,3) i pc ls]
    have "second_inv S st0 (i + 1)
            (score_clause i (snd r) (st\<lparr>uncovered := (uncovered st)[i := snd r]\<rparr>))" .
    from "2.IH"(2)[OF r_def False "2.prems"(1) d' this le'] False show ?thesis
      by (simp add: r_def[symmetric] Let_def)
  qed
qed

lemma bump_counts_nth:
  assumes "\<forall>c\<in>set cls. c < length cc"
  shows "length (bump_counts d cls cc) = length cc \<and>
         (\<forall>j<length cc. bump_counts d cls cc ! j = cc ! j + d * int (count_list cls j))"
  using assms
proof (induction cls arbitrary: cc)
  case Nil
  then show ?case by simp
next
  case (Cons c cls)
  let ?cc' = "cc[c := cc ! c + d]"
  have a: "\<forall>c\<in>set cls. c < length ?cc'" using Cons.prems by simp
  from Cons.IH[OF a] have l: "length (bump_counts d cls ?cc') = length cc"
    and n: "\<forall>j<length cc. bump_counts d cls ?cc' ! j = ?cc' ! j + d * int (count_list cls j)"
    by simp_all
  have c: "c < length cc" using Cons.prems by simp
  have "\<forall>j<length cc. bump_counts d (c # cls) cc ! j
          = cc ! j + d * int (count_list (c # cls) j)"
  proof (intro allI impI)
    fix j assume j: "j < length cc"
    with n have "bump_counts d cls ?cc' ! j = ?cc' ! j + d * int (count_list cls j)" by blast
    then show "bump_counts d (c # cls) cc ! j = cc ! j + d * int (count_list (c # cls) j)"
      using c j by (cases "j = c") (simp_all add: algebra_simps)
  qed
  with l show ?case by simp
qed

lemma cover_mult_snoc:
  "cover_mult ll (G @ [l]) j = cover_mult ll G j + int (count_list (ll ! var l) j)"
  by (simp add: cover_mult_def)

lemma cover_mult_mid:
  "cover_mult ll (K @ l # R) j = cover_mult ll (K @ R) j + int (count_list (ll ! var l) j)"
  by (simp add: cover_mult_def)

lemma cover_mult_two:
  assumes "a \<in> set G" "b \<in> set G" "a \<noteq> b"
  shows "int (count_list (ll ! var a) j) + int (count_list (ll ! var b) j) \<le> cover_mult ll G j"
proof -
  let ?f = "\<lambda>L. int (count_list (ll ! var L) j)"
  have b: "b \<in> set (remove1 a G)" using assms by simp
  have "cover_mult ll G j = ?f a + sum_list (map ?f (remove1 a G))"
    unfolding cover_mult_def using sum_list_map_remove1[OF assms(1), of ?f] by simp
  also have "sum_list (map ?f (remove1 a G)) = ?f b + sum_list (map ?f (remove1 b (remove1 a G)))"
    using sum_list_map_remove1[OF b, of ?f] by simp
  finally have "cover_mult ll G j = ?f a + ?f b + sum_list (map ?f (remove1 b (remove1 a G)))"
    by simp
  moreover have "0 \<le> sum_list (map ?f (remove1 b (remove1 a G)))"
    by (rule sum_list_nonneg) auto
  ultimately show ?thesis by simp
qed

lemma lists_sound_bound:
  assumes "lists_sound S st0 (length (clauses S)) ll" "v < nVars S" "length cc = length (clauses S) + 1"
  shows "\<forall>c\<in>set (ll ! v). c < length cc"
  using assms unfolding lists_sound_def by fastforce

lemma counts_ok_bump:
  assumes ls: "lists_sound S st0 (length (clauses S)) ll" and v: "v < nVars S"
    and ok: "counts_ok S st0 ll G cc"
  shows "length (bump_counts d (ll ! v) cc) = length (clauses S) + 1 \<and>
         (\<forall>j<length (clauses S). bump_counts d (ll ! v) cc ! j
             = cc ! j + d * int (count_list (ll ! v) j))"
proof -
  from ok have len: "length cc = length (clauses S) + 1" by (simp add: counts_ok_def)
  from bump_counts_nth[OF lists_sound_bound[OF ls v len], of d] len show ?thesis by simp
qed

lemma distinct_map_nth_notin_take:
  assumes "distinct (map f xs)" "r < length xs"
  shows "f (xs ! r) \<notin> f ` set (take r xs)"
proof
  assume "f (xs ! r) \<in> f ` set (take r xs)"
  then obtain y where y: "y \<in> set (take r xs)" "f y = f (xs ! r)" by auto
  then obtain k where k: "k < r" "xs ! k = y"
    using assms(2) by (auto simp: in_set_conv_nth)
  have kl: "k < length (map f xs)" and rl: "r < length (map f xs)" and kr: "k \<noteq> r"
    using k assms(2) by simp_all
  have "map f xs ! k = map f xs ! r" using k y assms(2) by simp
  with assms(1) kl rl kr show False using nth_eq_iff_index_eq by blast
qed

lemma greedy_step:
  assumes ls: "lists_sound S st0 (length (clauses S)) (mVarsInUncCls (snd cs))"
    and dist: "distinct (map var (potentialCoverLits (snd cs)))"
    and pv: "\<forall>l\<in>set (potentialCoverLits (snd cs)). var l < nVars S"
    and r: "r < length (potentialCoverLits (snd cs))"
    and inv: "greedy_inv S st0 P r cs"
  shows "greedy_inv S st0 P (r + 1)
           (fst cs @ [potentialCoverLits (snd cs) ! r],
            (snd cs)\<lparr>coverCount :=
               bump_counts 1 (mVarsInUncCls (snd cs) ! var (potentialCoverLits (snd cs) ! r))
                 (coverCount (snd cs))\<rparr>)"
proof -
  define l where "l = potentialCoverLits (snd cs) ! r"
  define ll where "ll = mVarsInUncCls (snd cs)"
  from inv obtain G where G: "fst cs = P @ G" "set G \<subseteq> set (take r (potentialCoverLits (snd cs)))"
    "distinct (map var G)" "counts_ok S st0 ll G (coverCount (snd cs))"
    by (auto simp: greedy_inv_def ll_def)
  have lin: "l \<in> set (potentialCoverLits (snd cs))" using r by (simp add: l_def)
  with pv have vl: "var l < nVars S" by blast
  have nin: "var l \<notin> var ` set G"
    using distinct_map_nth_notin_take[OF dist r] G(2) by (auto simp: l_def)
  have tk: "set (G @ [l]) \<subseteq> set (take (r + 1) (potentialCoverLits (snd cs)))"
    using G(2) r by (auto simp: take_Suc_conv_app_nth l_def)
  have d: "distinct (map var (G @ [l]))" using G(3) nin by simp
  from counts_ok_bump[OF ls[folded ll_def] vl G(4), of 1] have
    b1: "length (bump_counts 1 (ll ! var l) (coverCount (snd cs))) = length (clauses S) + 1"
    and b2: "\<forall>j<length (clauses S). bump_counts 1 (ll ! var l) (coverCount (snd cs)) ! j
             = coverCount (snd cs) ! j + 1 * int (count_list (ll ! var l) j)" by simp_all
  have "counts_ok S st0 ll (G @ [l]) (bump_counts 1 (ll ! var l) (coverCount (snd cs)))"
    unfolding counts_ok_def
  proof (intro conjI allI impI)
    show "length (bump_counts 1 (ll ! var l) (coverCount (snd cs))) = length (clauses S) + 1"
      by (rule b1)
  next
    fix j assume j: "j < length (clauses S)" and n: "\<not> pre_covered S st0 (clauses S ! j)"
    from G(4) j n have "coverCount (snd cs) ! j = cover_mult ll G j"
      by (simp add: counts_ok_def)
    with b2 j show "bump_counts 1 (ll ! var l) (coverCount (snd cs)) ! j = cover_mult ll (G @ [l]) j"
      by (simp add: cover_mult_snoc)
  qed
  then show ?thesis unfolding greedy_inv_def using G(1) tk d
    by (auto simp: l_def ll_def)
qed

lemma greedy_inv_mono:
  assumes "greedy_inv S st0 P r cs"
  shows "greedy_inv S st0 P (r + 1) cs"
proof -
  have "set (take r (potentialCoverLits (snd cs))) \<subseteq> set (take (r + 1) (potentialCoverLits (snd cs)))"
    by (meson le_add1 set_take_subset_set_take)
  with assms show ?thesis unfolding greedy_inv_def by blast
qed

lemma greedy_pass_inv:
  assumes "greedy_pass n i r cs = Some cs'"
    and "lists_sound S st0 (length (clauses S)) (mVarsInUncCls (snd cs))"
    and "distinct (map var (potentialCoverLits (snd cs)))"
    and "\<forall>l\<in>set (potentialCoverLits (snd cs)). var l < nVars S"
    and "greedy_inv S st0 P r cs"
  shows "(\<exists>r'. greedy_inv S st0 P r' cs') \<and>
         (\<exists>cc. snd cs' = (snd cs)\<lparr>coverCount := cc\<rparr>)"
  using assms
proof (induction n i r cs rule: greedy_pass.induct)
  case (1 n i scoreRank cs)
  show ?case
  proof (cases "i < n \<and> coverCount (snd cs) ! i \<noteq> 0")
    case True
    with "1.prems"(1) have "greedy_pass n (i + 1) scoreRank cs = Some cs'" by simp
    from "1.IH"(1)[OF True this "1.prems"(2-5)] show ?thesis .
  next
    case a: False
    show ?thesis
    proof (cases "i \<ge> n")
      case True
      with a "1.prems"(1) have "cs' = cs" by simp
      moreover have "snd cs = (snd cs)\<lparr>coverCount := coverCount (snd cs)\<rparr>" by simp
      ultimately show ?thesis using "1.prems"(5) by metis
    next
      case b: False
      show ?thesis
      proof (cases "scoreRank \<ge> length (potentialCoverLits (snd cs))")
        case True
        with a b "1.prems"(1) show ?thesis by simp
      next
        case c: False
        then have r: "scoreRank < length (potentialCoverLits (snd cs))" by simp
        define inVid where "inVid = potentialCoverLits (snd cs) ! scoreRank"
        define inUncCls where "inUncCls = mVarsInUncCls (snd cs) ! var inVid"
        show ?thesis
        proof (cases "\<exists>clause \<in> set inUncCls. coverCount (snd cs) ! clause = 0")
          case True
          let ?cs1 = "(fst cs @ [inVid],
                (snd cs)\<lparr>coverCount := bump_counts 1 inUncCls (coverCount (snd cs))\<rparr>)"
          from True a b c "1.prems"(1) have
            g: "greedy_pass n i (scoreRank + 1) ?cs1 = Some cs'"
            by (simp add: Let_def inVid_def inUncCls_def)
          have inv1: "greedy_inv S st0 P (scoreRank + 1) ?cs1"
            using greedy_step[OF "1.prems"(2-4) r "1.prems"(5)]
            by (simp add: inVid_def inUncCls_def)
          have p2: "lists_sound S st0 (length (clauses S)) (mVarsInUncCls (snd ?cs1))"
            and p3: "distinct (map var (potentialCoverLits (snd ?cs1)))"
            and p4: "\<forall>l\<in>set (potentialCoverLits (snd ?cs1)). var l < nVars S"
            using "1.prems"(2-4) by simp_all
          from "1.IH"(2)[OF a b c inVid_def inUncCls_def True g p2 p3 p4 inv1]
          obtain r' cc where "greedy_inv S st0 P r' cs'" "snd cs' = (snd ?cs1)\<lparr>coverCount := cc\<rparr>"
            by blast
          moreover have "(snd ?cs1)\<lparr>coverCount := cc\<rparr> = (snd cs)\<lparr>coverCount := cc\<rparr>" by simp
          ultimately show ?thesis by metis
        next
          case False
          with a b c "1.prems"(1) have g: "greedy_pass n i (scoreRank + 1) cs = Some cs'"
            by (simp add: Let_def inVid_def inUncCls_def)
          from "1.IH"(3)[OF a b c inVid_def inUncCls_def False g "1.prems"(2-4)
              greedy_inv_mono[OF "1.prems"(5)]]
          show ?thesis .
        qed
      qed
    qed
  qed
qed

lemma prune_pass_inv:
  assumes "lists_sound S st0 (length (clauses S)) ll"
    and "\<forall>l\<in>set rest. var l < nVars S"
    and "\<forall>l\<in>set (drop (length P) (fst acc)). var l < nVars S"
    and "prune_inv S st0 ll P rest acc"
  shows "prune_inv S st0 ll P [] (prune_pass ll rest acc)"
  using assms
proof (induction ll rest acc rule: prune_pass.induct)
  case (1 ll acc)
  then show ?case by simp
next
  case (2 ll l ls acc)
  from "2.prems"(4) obtain K where K: "fst acc = P @ K" "distinct (map var (K @ l # ls))"
    "counts_ok S st0 ll (K @ l # ls) (snd acc)"
    "\<forall>k\<in>set K. \<exists>j\<in>set (ll ! var k). snd acc ! j = 1"
    by (auto simp: prune_inv_def)
  have vl: "var l < nVars S" using "2.prems"(2) by simp
  have vK: "\<forall>k\<in>set K. var k < nVars S" using "2.prems"(3) K(1) by simp
  have rest': "\<forall>l\<in>set ls. var l < nVars S" using "2.prems"(2) by simp
  define vidCovered where "vidCovered = ll ! var l"
  show ?case
  proof (cases "\<exists>clsid \<in> set vidCovered. snd acc ! clsid = 1")
    case True
    let ?acc' = "(fst acc @ [l], snd acc)"
    have "prune_inv S st0 ll P ls ?acc'"
      unfolding prune_inv_def
    proof (intro exI[of _ "K @ [l]"] conjI)
      show "fst ?acc' = P @ K @ [l]" using K(1) by simp
      show "distinct (map var ((K @ [l]) @ ls))" using K(2) by simp
      show "counts_ok S st0 ll ((K @ [l]) @ ls) (snd ?acc')" using K(3) by simp
      show "\<forall>k\<in>set (K @ [l]). \<exists>j\<in>set (ll ! var k). snd ?acc' ! j = 1"
        using K(4) True by (auto simp: vidCovered_def)
    qed
    moreover have "\<forall>k\<in>set (drop (length P) (fst ?acc')). var k < nVars S"
      using K(1) vK vl by auto
    ultimately have "prune_inv S st0 ll P [] (prune_pass ll ls ?acc')"
      using "2.IH"(1)[OF vidCovered_def True "2.prems"(1) rest'] by blast
    with True show ?thesis by (simp add: Let_def vidCovered_def[symmetric])
  next
    case False
    let ?cc' = "bump_counts (-1) vidCovered (snd acc)"
    let ?acc' = "(fst acc, ?cc')"
    from counts_ok_bump[OF "2.prems"(1) vl K(3), of "-1"] have
      b1: "length ?cc' = length (clauses S) + 1"
      and b2: "\<forall>j<length (clauses S). ?cc' ! j
                 = snd acc ! j + (- 1) * int (count_list (ll ! var l) j)"
      by (simp_all add: vidCovered_def)
    have ok: "counts_ok S st0 ll (K @ ls) ?cc'"
      unfolding counts_ok_def
    proof (intro conjI allI impI)
      show "length ?cc' = length (clauses S) + 1" by (rule b1)
    next
      fix j assume j: "j < length (clauses S)" and n: "\<not> pre_covered S st0 (clauses S ! j)"
      from K(3) j n have "snd acc ! j = cover_mult ll (K @ l # ls) j"
        by (simp add: counts_ok_def)
      with b2 j show "?cc' ! j = cover_mult ll (K @ ls) j"
        by (simp add: cover_mult_mid)
    qed
    have wit: "\<forall>k\<in>set K. \<exists>j\<in>set (ll ! var k). ?cc' ! j = 1"
    proof
      fix k assume k: "k \<in> set K"
      with K(4) obtain j where j: "j \<in> set (ll ! var k)" "snd acc ! j = 1" by blast
      from vK k have "var k < nVars S" by blast
      with "2.prems"(1) j(1) have jn: "j < length (clauses S)"
        unfolding lists_sound_def by blast
      from False j(2) have "j \<notin> set vidCovered" by blast
      then have "count_list (ll ! var l) j = 0" by (simp add: vidCovered_def)
      with b2 jn j(2) have "?cc' ! j = 1" by simp
      with j(1) show "\<exists>j\<in>set (ll ! var k). ?cc' ! j = 1" by blast
    qed
    have "prune_inv S st0 ll P ls ?acc'"
      unfolding prune_inv_def
    proof (intro exI[of _ K] conjI)
      show "fst ?acc' = P @ K" using K(1) by simp
      show "distinct (map var (K @ ls))" using K(2) by simp
      show "counts_ok S st0 ll (K @ ls) (snd ?acc')" using ok by simp
      show "\<forall>k\<in>set K. \<exists>j\<in>set (ll ! var k). snd ?acc' ! j = 1" using wit by simp
    qed
    moreover have "\<forall>k\<in>set (drop (length P) (fst ?acc')). var k < nVars S"
      using "2.prems"(3) by simp
    ultimately have "prune_inv S st0 ll P [] (prune_pass ll ls ?acc')"
      using "2.IH"(2)[OF vidCovered_def False "2.prems"(1) rest'] by blast
    with False show ?thesis by (simp add: Let_def vidCovered_def[symmetric])
  qed
qed

lemma prune_pass_subset: "set (fst (prune_pass ll rest acc)) \<subseteq> set (fst acc) \<union> set rest"
proof (induction ll rest acc rule: prune_pass.induct)
  case (1 ll acc)
  show ?case by simp
next
  case (2 ll l ls acc)
  define vidCovered where "vidCovered = ll ! var l"
  show ?case
  proof (cases "\<exists>clsid \<in> set vidCovered. snd acc ! clsid = 1")
    case True
    from "2.IH"(1)[OF vidCovered_def True] True show ?thesis
      by (auto simp: Let_def vidCovered_def[symmetric])
  next
    case False
    from "2.IH"(2)[OF vidCovered_def False] False show ?thesis
      by (auto simp: Let_def vidCovered_def[symmetric])
  qed
qed

lemma sort_cover_lt_set: "set (sort_cover_lt sc ls) = set ls"
  by (simp add: sort_cover_lt_def)

lemma sort_cover_lt_distinct:
  "distinct (map var (sort_cover_lt sc ls)) = distinct (map var ls)"
  by (simp add: sort_cover_lt_def distinct_map)

lemma exact_cover_structure:
  assumes wf: "solver_wf S" and ea: "eligible_assigned S (incl (snd cs0))"
    and p0: "prefix_ok S (snd cs0) (fst cs0)" and l0: "length (in_cover (snd cs0)) = nVars S"
    and res: "exact_cover S cs0 = Some (cover, st')"
  shows "\<exists>st0 P K. cover = P @ K \<and> prefix_ok S st0 P \<and> incl st0 = incl (snd cs0) \<and>
           incl st' = incl (snd cs0) \<and>
           lists_sound S st0 (length (clauses S)) (mVarsInUncCls st') \<and>
           lists_complete S st0 (length (clauses S)) (mVarsInUncCls st') \<and>
           distinct (map var K) \<and>
           (\<forall>l\<in>set K. lit_value S l = l_True \<and> var l < nVars S \<and> mVarsInUncCls st' ! var l \<noteq> []) \<and>
           (\<forall>l\<in>set P. mVarsInUncCls st' ! var l = []) \<and>
           counts_ok S st0 (mVarsInUncCls st') K (coverCount st') \<and>
           (\<forall>l\<in>set K. \<exists>j\<in>set (mVarsInUncCls st' ! var l). coverCount st' ! j = 1)"
proof -
  define n where "n = length (clauses S)"
  define str where "str = exact_reset S (snd cs0)"
  define cs1 where "cs1 = forced_pass S 0 (clauses S) (fst cs0, str)"
  define st0 where "st0 = snd cs1"
  define P where "P = fst cs1"
  define st2 where "st2 = second_pass S 0 (clauses S) st0"
  define st3 where "st3 = st2\<lparr>potentialCoverLits :=
                      sort_cover_lt (mVarsGreedyScore st2) (potentialCoverLits st2)\<rparr>"
  define ll where "ll = mVarsInUncCls st2"
  from res obtain cs4 where
    g: "greedy_pass n 0 0 (P, st3) = Some cs4"
    and r: "(cover, st') =
       (fst (prune_pass (mVarsInUncCls (snd cs4))
               (dropWhile (\<lambda>l. mVarsInUncCls (snd cs4) ! var l = []) (fst cs4))
               (takeWhile (\<lambda>l. mVarsInUncCls (snd cs4) ! var l = []) (fst cs4),
                coverCount (snd cs4))),
        (snd cs4)\<lparr>coverCount :=
          snd (prune_pass (mVarsInUncCls (snd cs4))
               (dropWhile (\<lambda>l. mVarsInUncCls (snd cs4) ! var l = []) (fst cs4))
               (takeWhile (\<lambda>l. mVarsInUncCls (snd cs4) ! var l = []) (fst cs4),
                coverCount (snd cs4)))\<rparr>)"
    unfolding exact_cover_def Let_def str_def[symmetric] cs1_def[symmetric]
      st0_def[symmetric] P_def[symmetric] st2_def[symmetric] st3_def[symmetric] n_def[symmetric]
    by (cases "greedy_pass n 0 0 (P, st3)") auto
  \<comment> \<open>the forced pass\<close>
  have fi0: "forced_inv S (fst cs0, str)"
    using p0 l0 unfolding forced_inv_def str_def exact_reset_def prefix_ok_def
    by (simp add: nth_Cons')
  have ea': "eligible_assigned S (incl (snd (fst cs0, str)))"
    using ea by (simp add: str_def exact_reset_def)
  have fi: "forced_inv S cs1"
    unfolding cs1_def by (rule forced_pass_inv[OF wf ea' _ fi0]) simp
  note fo = forced_pass_other[of S 0 "clauses S" "(fst cs0, str)", folded cs1_def]
  have inc0: "incl st0 = incl (snd cs0)"
    using fo by (simp add: st0_def str_def exact_reset_def)
  have pP: "prefix_ok S st0 P" using fi by (simp add: forced_inv_def st0_def P_def)
  \<comment> \<open>the second pass\<close>
  have lists0: "mVarsInUncCls st0 = map (\<lambda>_. []) (growTo (nVars S) [] (mVarsInUncCls (snd cs0)))"
    and score0: "mVarsGreedyScore st0 = replicate (nVars S) 0"
    and pcl0: "potentialCoverLits st0 = []"
    using fo by (simp_all add: st0_def str_def exact_reset_def)
  have len0: "nVars S \<le> length (mVarsInUncCls st0)"
    unfolding lists0 by (simp add: growTo_def)
  have emp0: "\<forall>v<nVars S. mVarsInUncCls st0 ! v = []"
    using len0 unfolding lists0 by simp
  have sf0: "second_frame S st0 st0"
    unfolding second_frame_def using len0 emp0 by (simp add: score0)
  have si0: "second_inv S st0 0 st0"
    unfolding second_inv_def lists_sound_def lists_complete_def pcl_ok_def
    using sf0 emp0 by (simp add: pcl0 score0)
  have si: "second_inv S st0 (length (clauses S)) st2"
    unfolding st2_def by (rule second_pass_inv[OF wf _ si0]) simp_all
  then have sf: "second_frame S st0 st2" and ls: "lists_sound S st0 (length (clauses S)) ll"
    and lc: "lists_complete S st0 (length (clauses S)) ll" and po: "pcl_ok S st2"
    by (simp_all add: second_inv_def ll_def)
  \<comment> \<open>the sorted candidates\<close>
  have ll3: "mVarsInUncCls st3 = ll" by (simp add: st3_def ll_def)
  have d3: "distinct (map var (potentialCoverLits st3))"
    using po by (simp add: st3_def sort_cover_lt_distinct pcl_ok_def)
  have p3: "\<forall>l\<in>set (potentialCoverLits st3).
              lit_value S l = l_True \<and> var l < nVars S \<and> ll ! var l \<noteq> []"
  proof
    fix l assume "l \<in> set (potentialCoverLits st3)"
    then have l: "l \<in> set (potentialCoverLits st2)" by (simp add: st3_def sort_cover_lt_set)
    with po have a: "lit_value S l = l_True" "var l < nVars S" "mVarsGreedyScore st2 ! var l \<noteq> 0"
      by (auto simp: pcl_ok_def)
    from sf a(2) have "mVarsGreedyScore st2 ! var l = int (length (mVarsInUncCls st2 ! var l))"
      by (simp add: second_frame_def)
    with a show "lit_value S l = l_True \<and> var l < nVars S \<and> ll ! var l \<noteq> []"
      by (auto simp: ll_def)
  qed
  \<comment> \<open>the counts before the third pass\<close>
  have cnt0: "\<forall>j<length (clauses S). \<not> pre_covered S st0 (clauses S ! j) \<longrightarrow> coverCount st3 ! j = 0"
  proof (intro allI impI)
    fix j assume j: "j < length (clauses S)" and n: "\<not> pre_covered S st0 (clauses S ! j)"
    from sf j n have e: "coverCount st3 ! j = coverCount st0 ! j"
      by (simp add: second_frame_def st3_def)
    have "coverCount st0 ! j = 0"
    proof (rule ccontr)
      assume "coverCount st0 ! j \<noteq> 0"
      with fi j obtain l where "l \<in> set (clauses S ! j)" "lit_value S l = l_True"
        "in_cover st0 ! var l" unfolding forced_inv_def st0_def by blast
      then have "pre_covered S st0 (clauses S ! j)" unfolding pre_covered_def by blast
      with n show False by simp
    qed
    with e show "coverCount st3 ! j = 0" by simp
  qed
  have len3: "length (coverCount st3) = length (clauses S) + 1"
    using sf fi by (simp add: second_frame_def st3_def forced_inv_def st0_def)
  have gi0: "greedy_inv S st0 P 0 (P, st3)"
    unfolding greedy_inv_def counts_ok_def using cnt0 len3 by (simp add: cover_mult_def)
  have pv3: "\<forall>l\<in>set (potentialCoverLits (snd (P, st3))). var l < nVars S"
    using p3 by simp
  from greedy_pass_inv[OF g, of S st0 P] ls d3 pv3 gi0 obtain r' cc where
    gi: "greedy_inv S st0 P r' cs4" and s4: "snd cs4 = st3\<lparr>coverCount := cc\<rparr>"
    by (auto simp: ll3)
  have ll4: "mVarsInUncCls (snd cs4) = ll" using s4 ll3 by simp
  from gi obtain G where G: "fst cs4 = P @ G" "set G \<subseteq> set (potentialCoverLits st3)"
    "distinct (map var G)" "counts_ok S st0 ll G (coverCount (snd cs4))"
    unfolding greedy_inv_def using s4 ll4 by (auto dest: in_set_takeD)
  \<comment> \<open>the prefix has empty clause lists, the greedy literals have not\<close>
  have Pe: "\<forall>l\<in>set P. ll ! var l = []"
  proof
    fix l assume l: "l \<in> set P"
    with pP have a: "var l < length (in_cover st0)" "in_cover st0 ! var l"
      by (auto simp: prefix_ok_def)
    from fi have "length (in_cover st0) = nVars S" by (simp add: forced_inv_def st0_def)
    with a have v: "var l < nVars S" by simp
    show "ll ! var l = []"
    proof (rule ccontr)
      assume "ll ! var l \<noteq> []"
      then obtain j where "j \<in> set (ll ! var l)" by (meson last_in_set)
      with ls v obtain l' where n: "\<not> pre_covered S st0 (clauses S ! j)"
        and l': "l' \<in> set (clauses S ! j)" "lit_value S l' = l_True" "var l' = var l"
        unfolding lists_sound_def by blast
      with a(2) have "pre_covered S st0 (clauses S ! j)" unfolding pre_covered_def by auto
      with n show False by simp
    qed
  qed
  have Gn: "\<forall>l\<in>set G. lit_value S l = l_True \<and> var l < nVars S \<and> ll ! var l \<noteq> []"
    using G(2) p3 by blast
  have tw: "takeWhile (\<lambda>l. ll ! var l = []) (P @ G) = P"
  proof -
    have "takeWhile (\<lambda>l. ll ! var l = []) G = []"
      using Gn by (cases G) auto
    then show ?thesis using Pe by (simp add: takeWhile_append2)
  qed
  have dw: "dropWhile (\<lambda>l. ll ! var l = []) (P @ G) = G"
  proof -
    have "dropWhile (\<lambda>l. ll ! var l = []) G = G"
      using Gn by (cases G) auto
    then show ?thesis using Pe by (simp add: dropWhile_append2)
  qed
  define pr where "pr = prune_pass ll G (P, coverCount (snd cs4))"
  from r have cov: "cover = fst pr" and st': "st' = (snd cs4)\<lparr>coverCount := snd pr\<rparr>"
    unfolding ll4 G(1) tw dw pr_def by simp_all
  have pi0: "prune_inv S st0 ll P G (P, coverCount (snd cs4))"
    unfolding prune_inv_def using G(3,4) by simp
  have "prune_inv S st0 ll P [] pr"
    unfolding pr_def by (rule prune_pass_inv[OF ls _ _ pi0]) (use Gn in simp_all)
  then obtain K where K: "fst pr = P @ K" "distinct (map var K)"
    "counts_ok S st0 ll K (snd pr)" "\<forall>l\<in>set K. \<exists>j\<in>set (ll ! var l). snd pr ! j = 1"
    unfolding prune_inv_def by auto
  have "set (fst pr) \<subseteq> set P \<union> set G"
    unfolding pr_def using prune_pass_subset[of ll G "(P, coverCount (snd cs4))"] by simp
  with K(1) have KG: "\<forall>l\<in>set K. l \<in> set P \<or> l \<in> set G" by auto
  have Kn: "\<forall>l\<in>set K. lit_value S l = l_True \<and> var l < nVars S \<and> ll ! var l \<noteq> []"
  proof
    fix l assume l: "l \<in> set K"
    with K(4) have ne: "ll ! var l \<noteq> []" by fastforce
    with Pe have "l \<notin> set P" by blast
    with KG l have "l \<in> set G" by blast
    with Gn show "lit_value S l = l_True \<and> var l < nVars S \<and> ll ! var l \<noteq> []" by blast
  qed
  have llf: "mVarsInUncCls st' = ll" and ccf: "coverCount st' = snd pr"
    and incf: "incl st' = incl (snd cs0)"
    using st' ll4 s4 sf inc0 by (simp_all add: st3_def second_frame_def)
  show ?thesis
    apply (rule exI[of _ st0], rule exI[of _ P], rule exI[of _ K])
    unfolding llf ccf
    using cov K pP inc0 incf ls lc Kn Pe by simp
qed

text \<open>
  C8: under the preconditions of \<open>getCover\<close> (a well-formed solver, every eligible variable
  assigned), a literal of the exact-mode cover whose per-variable clause list is not empty
  cannot be removed: some clause then has neither a true literal of an excluded variable nor
  a literal of the remaining cover.
\<close>

theorem C8_local_minimality:
  assumes wf: "solver_wf S"
    and ea: "eligible_assigned S (growTo (nVars S) True (incl st))"
    and res: "getCover False S st = Some (cover, st')"
    and L: "L \<in> set cover"
    and ne: "mVarsInUncCls st' ! var L \<noteq> []"
  shows "\<exists>c\<in>set (clauses S).
           \<not> (\<exists>l\<in>set c. lit_value S l = l_True \<and> \<not> incl st' ! var l) \<and>
           \<not> (\<exists>l\<in>set c. l \<in> set (remove1 L cover))"
proof -
  define stp where "stp = cover_prelude S st"
  define cs0 where "cs0 = level0_pass (take (level0_count S) (trail S)) ([], stp)"
  have ex: "exact_cover S cs0 = Some (cover, st')"
    using res unfolding getCover_def Let_def stp_def[symmetric] cs0_def[symmetric] by simp
  have lenp: "length (in_cover stp) = nVars S" and incp: "incl stp = growTo (nVars S) True (incl st)"
    by (simp_all add: stp_def cover_prelude_def Let_def)
  have tr: "\<forall>l\<in>set (take (level0_count S) (trail S)).
              var l < length (in_cover (snd ([], stp))) \<and> lit_value S l = l_True"
    using wf lenp by (simp add: solver_wf_def)
  have pn: "prefix_ok S (snd ([], stp)) (fst ([], stp))" by (simp add: prefix_ok_def)
  from level0_pass_inv[OF tr pn]
  have p0: "prefix_ok S (snd cs0) (fst cs0)" and l0: "length (in_cover (snd cs0)) = nVars S"
    by (simp_all add: cs0_def lenp)
  have inc0: "incl (snd cs0) = growTo (nVars S) True (incl st)"
    using level0_pass_other[of "take (level0_count S) (trail S)" "([], stp)"]
    by (simp add: cs0_def incp)
  have ea0: "eligible_assigned S (incl (snd cs0))" using ea by (simp add: inc0)
  from exact_cover_structure[OF wf ea0 p0 l0 ex] obtain st0 P K where
    cov: "cover = P @ K" and pP: "prefix_ok S st0 P" and i0: "incl st0 = incl (snd cs0)"
    and i': "incl st' = incl (snd cs0)"
    and ls: "lists_sound S st0 (length (clauses S)) (mVarsInUncCls st')"
    and lc: "lists_complete S st0 (length (clauses S)) (mVarsInUncCls st')"
    and dK: "distinct (map var K)"
    and Kn: "\<forall>l\<in>set K. lit_value S l = l_True \<and> var l < nVars S \<and> mVarsInUncCls st' ! var l \<noteq> []"
    and Pe: "\<forall>l\<in>set P. mVarsInUncCls st' ! var l = []"
    and co: "counts_ok S st0 (mVarsInUncCls st') K (coverCount st')"
    and one: "\<forall>l\<in>set K. \<exists>j\<in>set (mVarsInUncCls st' ! var l). coverCount st' ! j = 1"
    by blast
  define ll where "ll = mVarsInUncCls st'"
  note ls = ls[folded ll_def] and lc = lc[folded ll_def] and Kn = Kn[folded ll_def]
    and Pe = Pe[folded ll_def] and co = co[folded ll_def] and one = one[folded ll_def]
  from ne Pe have LP: "L \<notin> set P" by (auto simp: ll_def)
  with L cov have LK: "L \<in> set K" by simp
  from one LK obtain j where j: "j \<in> set (ll ! var L)" "coverCount st' ! j = 1" by blast
  from Kn LK have vL: "var L < nVars S" by blast
  from ls vL j(1) have jn: "j < length (clauses S)"
    and npc: "\<not> pre_covered S st0 (clauses S ! j)"
    unfolding lists_sound_def by blast+
  define c where "c = clauses S ! j"
  have cin: "c \<in> set (clauses S)" using jn by (simp add: c_def)
  have a: "\<not> (\<exists>l\<in>set c. lit_value S l = l_True \<and> \<not> incl st' ! var l)"
    using npc unfolding pre_covered_def c_def i0 i' by blast
  have rm: "remove1 L cover = P @ remove1 L K"
    using LP by (simp add: cov remove1_append)
  have b: "\<not> (\<exists>l\<in>set c. l \<in> set (remove1 L cover))"
  proof
    assume "\<exists>l\<in>set c. l \<in> set (remove1 L cover)"
    then obtain l where l: "l \<in> set c" "l \<in> set (remove1 L cover)" by blast
    from l(2) rm consider "l \<in> set P" | "l \<in> set (remove1 L K)" by auto
    then show False
    proof cases
      case 1
      with pP have "in_cover st0 ! var l" "lit_value S l = l_True" by (auto simp: prefix_ok_def)
      with l(1) have "pre_covered S st0 (clauses S ! j)" unfolding pre_covered_def c_def by blast
      with npc show False by simp
    next
      case 2
      from dK have "distinct K" by (simp add: distinct_map)
      with 2 have lK: "l \<in> set K" and lL: "l \<noteq> L" by auto
      from Kn lK have "lit_value S l = l_True" by blast
      with lc jn npc l(1) have "j \<in> set (ll ! var l)"
        unfolding lists_complete_def c_def by blast
      then have c1: "1 \<le> int (count_list (ll ! var l) j)"
        using count_list_0_iff[of "ll ! var l" j] by (simp add: Suc_le_eq)
      from j(1) have c2: "1 \<le> int (count_list (ll ! var L) j)"
        using count_list_0_iff[of "ll ! var L" j] by (simp add: Suc_le_eq)
      from cover_mult_two[OF lK LK lL, of ll j] c1 c2 have "2 \<le> cover_mult ll K j" by simp
      moreover from co jn npc have "coverCount st' ! j = cover_mult ll K j"
        unfolding counts_ok_def by blast
      ultimately show False using j(2) by simp
    qed
  qed
  from cin a b show ?thesis by blast
qed

text \<open>
  C8 on \<open>solver_triangle\<close>: the cover is \<open>[x0, x1]\<close>, and without \<open>x1\<close> the clause
  \<open>x1 \<or> x2\<close> is left uncovered.
\<close>

theorem C8_local_minimality_witness:
  "solver_wf solver_triangle \<and>
   eligible_assigned solver_triangle (growTo (nVars solver_triangle) True (incl Cover_init)) \<and>
   getCover False solver_triangle Cover_init
     = Some ([mkLit 0 False, mkLit 1 False], cover_triangle) \<and>
   mkLit 1 False \<in> set [mkLit 0 False, mkLit 1 False] \<and>
   mVarsInUncCls cover_triangle ! var (mkLit 1 False) \<noteq> [] \<and>
   (\<exists>c\<in>set (clauses solver_triangle).
      \<not> (\<exists>l\<in>set c. lit_value solver_triangle l = l_True \<and> \<not> incl cover_triangle ! var l) \<and>
      \<not> (\<exists>l\<in>set c. l \<in> set (remove1 (mkLit 1 False) [mkLit 0 False, mkLit 1 False])))"
proof -
  have h1: "solver_wf solver_triangle"
    by (simp add: solver_wf_def solver_triangle_def level0_count_def decisionLevel_def)
  have h2: "eligible_assigned solver_triangle
              (growTo (nVars solver_triangle) True (incl Cover_init))"
    by (simp add: eligible_assigned_def solver_triangle_def growTo_def Cover_init_def
          less_Suc_eq numeral_3_eq_3)
  have h3: "getCover False solver_triangle Cover_init
              = Some ([mkLit 0 False, mkLit 1 False], cover_triangle)"
    by code_simp
  have h4: "mkLit 1 False \<in> set [mkLit 0 False, mkLit 1 False]" by simp
  have h5: "mVarsInUncCls cover_triangle ! var (mkLit 1 False) \<noteq> []"
    by (simp add: cover_triangle_def)
  from C8_local_minimality[OF h1 h2 h3 h4 h5] h1 h2 h3 h4 h5 show ?thesis by blast
qed

section \<open>Feasibility of the flow\<close>

lemma sum_upd_one:
  fixes f g :: "nat \<Rightarrow> int"
  assumes "i < m" "\<And>j. j < m \<Longrightarrow> j \<noteq> i \<Longrightarrow> g j = f j"
  shows "(\<Sum>j<m. g j) = (\<Sum>j<m. f j) + (g i - f i)"
proof -
  have i: "i \<in> {..<m}" using assms(1) by simp
  have a: "(\<Sum>j<m. g j) = g i + (\<Sum>j\<in>{..<m} - {i}. g j)"
    using sum.remove[OF _ i, of g] by simp
  have b: "(\<Sum>j\<in>{..<m} - {i}. g j) = (\<Sum>j\<in>{..<m} - {i}. f j)"
    by (rule sum.cong) (use assms(2) in auto)
  have c: "(\<Sum>j<m. f j) = f i + (\<Sum>j\<in>{..<m} - {i}. f j)"
    using sum.remove[OF _ i, of f] by simp
  from a b c show ?thesis by simp
qed

lemma excess_update:
  assumes "i < length E" "length F = length E"
  shows "excess E en (F[i := F ! i + d]) x =
         excess E en F x +
           (if en ! i then (if snd (E ! i) = x then d else 0) - (if fst (E ! i) = x then d else 0)
            else 0)"
  unfolding excess_def
  by (subst sum_upd_one[where i = i and f = "\<lambda>i. if en ! i
        then (if snd (E ! i) = x then F ! i else 0) - (if fst (E ! i) = x then F ! i else 0)
        else 0"]) (use assms in auto)

lemma excess_set_disabled:
  assumes "\<not> en ! i"
  shows "excess E en (F[i := c]) x = excess E en F x"
  unfolding excess_def
proof (rule sum.cong)
  fix j
  show "(if en ! j then (if snd (E ! j) = x then F[i := c] ! j else 0) -
                        (if fst (E ! j) = x then F[i := c] ! j else 0) else 0) =
        (if en ! j then (if snd (E ! j) = x then F ! j else 0) -
                        (if fst (E ! j) = x then F ! j else 0) else 0)"
    using assms by (cases "j = i") auto
qed simp

lemma excess_flag:
  assumes "F ! i = 0"
  shows "excess E (en[i := b]) F x = excess E en F x"
  unfolding excess_def
proof (rule sum.cong)
  fix j
  show "(if en[i := b] ! j then (if snd (E ! j) = x then F ! j else 0) -
                        (if fst (E ! j) = x then F ! j else 0) else 0) =
        (if en ! j then (if snd (E ! j) = x then F ! j else 0) -
                        (if fst (E ! j) = x then F ! j else 0) else 0)"
    using assms by (cases "j = i") auto
qed simp

lemma excess_flag_same:
  assumes "i < length en" "en ! i = b"
  shows "excess E (en[i := b]) F x = excess E en F x"
  using assms by (simp add: list_update_same_conv[THEN iffD2])

lemma sum_excess_set:
  assumes "finite R"
  shows "(\<Sum>x\<in>R. excess E en F x) =
         (\<Sum>i<length E. if en ! i
            then (if snd (E ! i) \<in> R then F ! i else 0) - (if fst (E ! i) \<in> R then F ! i else 0)
            else 0)"
proof -
  have "(\<Sum>x\<in>R. excess E en F x) =
        (\<Sum>i<length E. \<Sum>x\<in>R. if en ! i
            then (if snd (E ! i) = x then F ! i else 0) - (if fst (E ! i) = x then F ! i else 0)
            else 0)"
    unfolding excess_def by (rule sum.swap)
  also have "\<dots> = (\<Sum>i<length E. if en ! i
            then (if snd (E ! i) \<in> R then F ! i else 0) - (if fst (E ! i) \<in> R then F ! i else 0)
            else 0)"
  proof (rule sum.cong)
    fix i
    show "(\<Sum>x\<in>R. if en ! i
            then (if snd (E ! i) = x then F ! i else 0) - (if fst (E ! i) = x then F ! i else 0)
            else 0) =
          (if en ! i
            then (if snd (E ! i) \<in> R then F ! i else 0) - (if fst (E ! i) \<in> R then F ! i else 0)
            else 0)"
      using assms by (simp add: sum_subtractf sum.delta)
  qed simp
  finally show ?thesis .
qed

lemma cut_le_zero:
  assumes fin: "finite R" and cl: "closed_set E cap en F R"
    and nn: "\<forall>i<length E. en ! i \<longrightarrow> 0 \<le> F ! i"
  shows "(\<Sum>x\<in>R. excess E en F x) \<le> 0"
proof -
  have "(\<Sum>i<length E. if en ! i
            then (if snd (E ! i) \<in> R then F ! i else 0) - (if fst (E ! i) \<in> R then F ! i else 0)
            else 0) \<le> (\<Sum>i<length E. (0::int))"
  proof (rule sum_mono)
    fix i assume "i \<in> {..<length E}"
    then have i: "i < length E" by simp
    show "(if en ! i
            then (if snd (E ! i) \<in> R then F ! i else 0) - (if fst (E ! i) \<in> R then F ! i else 0)
            else 0) \<le> 0"
      using cl nn i unfolding closed_set_def by (auto dest!: spec[of _ i])
  qed
  then show ?thesis using sum_excess_set[OF fin, of E en F] by simp
qed

lemma sum_shape_set:
  assumes "finite R"
  shows "(\<Sum>x\<in>R. (r::int) * ((if x = u then 1 else 0) - (if x = v then 1 else 0)) +
                  val * ((if x = t then 1 else 0) - (if x = s then 1 else 0))) =
         r * ((if u \<in> R then 1 else 0) - (if v \<in> R then 1 else 0)) +
         val * ((if t \<in> R then 1 else 0) - (if s \<in> R then 1 else 0))"
proof -
  have d: "\<And>a. (\<Sum>x\<in>R. if x = a then (1::int) else 0) = (if a \<in> R then 1 else 0)"
    using assms by (simp add: sum.delta')
  show ?thesis
    by (simp add: sum.distrib sum_subtractf sum_distrib_left[symmetric] d
        del: mult_cancel_left)
qed

lemma cut_bound:
  assumes fin: "finite R" and cl: "closed_set E cap en F R"
    and nn: "\<forall>i<length E. en ! i \<longrightarrow> 0 \<le> F ! i"
    and sh: "flow_shape E en F s t val u v r"
  shows "r * ((if u \<in> R then 1 else 0) - (if v \<in> R then 1 else 0)) +
         val * ((if t \<in> R then 1 else 0) - (if s \<in> R then 1 else 0)) \<le> 0"
proof -
  have "(\<Sum>x\<in>R. excess E en F x) =
        (\<Sum>x\<in>R. r * ((if x = u then 1 else 0) - (if x = v then 1 else 0)) +
                  val * ((if x = t then 1 else 0) - (if x = s then 1 else 0)))"
    by (rule sum.cong) (use sh in \<open>auto simp: flow_shape_def\<close>)
  with cut_le_zero[OF fin cl nn] sum_shape_set[OF fin, of r u v val t s] show ?thesis by simp
qed

lemma bfs_ext_refl: "bfs_ext t False st st"
  unfolding bfs_ext_def by simp

lemma bfs_ext_trans:
  assumes "bfs_ext t a st st1" "bfs_ext t b st1 st2"
  shows "bfs_ext t (a \<or> b) st st2"
proof -
  from assms(1) obtain n1 where 1: "st1 = st\<lparr>prev := prev st1, ek_M := ek_M st1, ek_Q := ek_Q st1\<rparr>"
    "\<forall>x. reached st x \<longrightarrow> reached st1 x \<and> prev st1 ! x = prev st ! x \<and> ek_M st1 ! x = ek_M st ! x"
    "\<forall>x. \<not> reached st1 x \<longrightarrow> ek_M st1 ! x = ek_M st ! x"
    "ek_Q st1 = ek_Q st @ n1" "t \<notin> set n1" "a \<longrightarrow> reached st1 t"
    "\<forall>x. reached st1 x \<and> \<not> reached st x \<longrightarrow> x \<in> set n1 \<or> (x = t \<and> a)"
    unfolding bfs_ext_def by blast
  from assms(2) obtain n2 where 2: "st2 = st1\<lparr>prev := prev st2, ek_M := ek_M st2, ek_Q := ek_Q st2\<rparr>"
    "\<forall>x. reached st1 x \<longrightarrow> reached st2 x \<and> prev st2 ! x = prev st1 ! x \<and> ek_M st2 ! x = ek_M st1 ! x"
    "\<forall>x. \<not> reached st2 x \<longrightarrow> ek_M st2 ! x = ek_M st1 ! x"
    "ek_Q st2 = ek_Q st1 @ n2" "t \<notin> set n2" "b \<longrightarrow> reached st2 t"
    "\<forall>x. reached st2 x \<and> \<not> reached st1 x \<longrightarrow> x \<in> set n2 \<or> (x = t \<and> b)"
    unfolding bfs_ext_def by blast
  have a: "st2 = st\<lparr>prev := prev st2, ek_M := ek_M st2, ek_Q := ek_Q st2\<rparr>"
    by (subst 2(1), subst 1(1)) simp
  have b: "\<forall>x. reached st x \<longrightarrow> reached st2 x \<and> prev st2 ! x = prev st ! x \<and> ek_M st2 ! x = ek_M st ! x"
    using 1(2) 2(2) by auto
  have c: "\<forall>x. \<not> reached st2 x \<longrightarrow> ek_M st2 ! x = ek_M st ! x"
    using 1(3) 2(2,3) by metis
  have d: "ek_Q st2 = ek_Q st @ (n1 @ n2)" "t \<notin> set (n1 @ n2)" using 1(4,5) 2(4,5) by simp_all
  have e: "\<forall>x. reached st2 x \<and> \<not> reached st x \<longrightarrow> x \<in> set (n1 @ n2) \<or> (x = t \<and> (a \<or> b))"
    using 1(7) 2(7) by auto
  have f: "a \<or> b \<longrightarrow> reached st2 t" using 1(6) 2(6) 2(2) by blast
  show ?thesis unfolding bfs_ext_def using a b c d e f by blast
qed

text \<open>One discovery: \<open>prev[v]\<close> and \<open>M[v]\<close> are written, and \<open>v\<close> joins the queue unless it is \<open>t\<close>.\<close>

lemma discover_ok:
  assumes inv: "bfs_inv g cap root t sc A st"
    and u: "u < nodes g" "reached st u" and v: "v < nodes g" "\<not> reached st v" "v \<in> A"
    and b: "0 < b" and arc: "arc_from g cap sc st u v p b"
    and st1: "st1 = st\<lparr>prev := (prev st)[v := p], ek_M := (ek_M st)[v := min (ek_M st ! u) b]\<rparr>"
    and st2: "st2 = (if v \<noteq> t then st1\<lparr>ek_Q := ek_Q st1 @ [v]\<rparr> else st1)"
  shows "bfs_inv g cap root t sc A st2 \<and> bfs_ext t (v = t) st st2"
proof -
  have len: "length (prev st) = nodes g" "length (ek_M st) = nodes g"
    using inv by (simp_all add: bfs_inv_def)
  have uv: "u \<noteq> v" using u(2) v(2) by auto
  have pu: "lfrom p = int u" using arc by (simp add: arc_from_def)
  have prev2: "prev st2 = (prev st)[v := p]" and M2: "ek_M st2 = (ek_M st)[v := min (ek_M st ! u) b]"
    and F2: "ek_F st2 = ek_F st" and en2: "edge_enabled st2 = edge_enabled st"
    and Q2: "ek_Q st2 = (if v \<noteq> t then ek_Q st @ [v] else ek_Q st)"
    by (simp_all add: st1 st2)
  have vis_old: "\<And>x. reached st x \<Longrightarrow> x \<noteq> v" using v(2) by auto
  have vis2: "\<And>x. reached st2 x \<longleftrightarrow> reached st x \<or> x = v"
    using len v(1) pu by (auto simp: reached_def prev2 nth_list_update)
  have Mu: "0 < ek_M st ! u"
  proof (cases "u = root")
    case True then show ?thesis using inv by (simp add: bfs_inv_def)
  next
    case False
    with inv u have "node_ok g cap sc st u" by (simp add: bfs_inv_def)
    then show ?thesis by (simp add: node_ok_def)
  qed
  have keepP: "\<And>x. x \<noteq> v \<Longrightarrow> prev st2 ! x = prev st ! x" by (simp add: prev2)
  have keepM: "\<And>x. x \<noteq> v \<Longrightarrow> ek_M st2 ! x = ek_M st ! x" by (simp add: M2)
  have Pv: "prev st2 ! v = p" using len v(1) by (simp add: prev2)
  have Mv: "ek_M st2 ! v = min (ek_M st ! u) b" using len v(1) by (simp add: M2)
  have arc_keep: "\<And>a c q d. arc_from g cap sc st a c q d \<Longrightarrow> arc_from g cap sc st2 a c q d"
    by (simp add: arc_from_def F2 en2)
  have ok_old: "node_ok g cap sc st2 x" if x: "x < nodes g" "reached st x" "x \<noteq> root" for x
  proof -
    from inv x have ok: "node_ok g cap sc st x" by (simp add: bfs_inv_def)
    have xv: "x \<noteq> v" using x(2) vis_old by blast
    from ok have pv: "reached st (nat (lfrom (prev st ! x)))" by (simp add: node_ok_def)
    then have pnv: "nat (lfrom (prev st ! x)) \<noteq> v" using vis_old by blast
    show ?thesis
      using ok arc_keep[of "nat (lfrom (prev st ! x))" x "prev st ! x" "ek_M st ! x"]
      unfolding node_ok_def keepP[OF xv] keepM[OF xv] keepM[OF pnv] vis2
      by simp
  qed
  have ok_new: "node_ok g cap sc st2 v"
  proof -
    have "arc_from g cap sc st u v p (min (ek_M st ! u) b)"
      using arc by (auto simp: arc_from_def)
    then have "arc_from g cap sc st2 u v p (min (ek_M st ! u) b)" by (rule arc_keep)
    then show ?thesis
      unfolding node_ok_def Pv Mv pu vis2 using u uv Mu b keepM[OF uv] by simp
  qed
  have inv2: "bfs_inv g cap root t sc A st2"
    unfolding bfs_inv_def
  proof (intro conjI allI impI ballI)
    show "length (prev st2) = nodes g" "length (ek_M st2) = nodes g" by (simp_all add: prev2 M2 len)
    show "root < nodes g" using inv by (simp add: bfs_inv_def)
    show "reached st2 root" using inv by (simp add: bfs_inv_def vis2)
    have "root \<noteq> v" using inv v(2) by (auto simp: bfs_inv_def)
    then show "0 < ek_M st2 ! root" using inv by (simp add: keepM bfs_inv_def)
  next
    fix x assume x: "x < nodes g" "reached st2 x"
    show "x \<in> A" using x inv v(3) by (auto simp: vis2 bfs_inv_def)
    show "x \<in> set (ek_Q st2) \<or> x = t" using x inv by (auto simp: vis2 Q2 bfs_inv_def)
    assume "x \<noteq> root"
    then show "node_ok g cap sc st2 x" using x ok_old ok_new by (auto simp: vis2)
  next
    fix x assume "x \<in> set (ek_Q st2)"
    then show "x < nodes g" "reached st2 x"
      using inv v(1) by (auto simp: Q2 vis2 bfs_inv_def split: if_splits)
  next
    have "v \<notin> set (ek_Q st)" using inv v(2) by (auto simp: bfs_inv_def)
    then show "distinct (ek_Q st2)" using inv by (simp add: Q2 bfs_inv_def)
  qed
  have ext: "bfs_ext t (v = t) st st2"
    unfolding bfs_ext_def
  proof (intro conjI allI impI)
    show "st2 = st\<lparr>prev := prev st2, ek_M := ek_M st2, ek_Q := ek_Q st2\<rparr>"
      by (simp add: st1 st2)
    show "\<exists>new. ek_Q st2 = ek_Q st @ new \<and> t \<notin> set new \<and>
            (\<forall>x. reached st2 x \<and> \<not> reached st x \<longrightarrow> x \<in> set new \<or> x = t \<and> v = t)"
      by (rule exI[of _ "if v \<noteq> t then [v] else []"]) (auto simp: Q2 vis2)
    assume "v = t"
    then show "reached st2 t" by (simp add: vis2)
  next
    fix x assume "reached st x"
    then show "reached st2 x" "prev st2 ! x = prev st ! x" "ek_M st2 ! x = ek_M st ! x"
      using vis_old[of x] by (simp_all add: vis2 keepP keepM)
  next
    fix x assume "\<not> reached st2 x"
    then show "ek_M st2 ! x = ek_M st ! x" by (simp add: vis2 keepM)
  qed
  from inv2 ext show ?thesis ..
qed

lemma bfs_ext_frame:
  assumes "bfs_ext t fnd st st'"
  shows "ek_F st' = ek_F st" "edge_enabled st' = edge_enabled st"
proof -
  from assms have e: "st' = st\<lparr>prev := prev st', ek_M := ek_M st', ek_Q := ek_Q st'\<rparr>"
    by (simp add: bfs_ext_def)
  show "ek_F st' = ek_F st" by (subst e) simp
  show "edge_enabled st' = edge_enabled st" by (subst e) simp
qed

lemma bfs_ext_reached: "bfs_ext t fnd st st' \<Longrightarrow> reached st x \<Longrightarrow> reached st' x"
  by (simp add: bfs_ext_def)

text \<open>The loop over the forward edges of \<open>u\<close>.\<close>

lemma bfs_incident_ok:
  assumes "bfs_inv g cap root t sc A st"
    and "u < nodes g" "reached st u" "u \<in> A"
    and "closed_set (all_edges g) cap (edge_enabled st) (ek_F st) A"
    and "\<forall>e\<in>set es. snd e < length (all_edges g) \<and> all_edges g ! snd e = (u, fst e) \<and> fst e < nodes g"
  shows "bfs_inv g cap root t sc A (snd (bfs_incident cap t u es st)) \<and>
         bfs_ext t (fst (bfs_incident cap t u es st)) st (snd (bfs_incident cap t u es st)) \<and>
         (\<not> fst (bfs_incident cap t u es st) \<longrightarrow>
            (\<forall>e\<in>set es. edge_enabled st ! snd e \<and> 0 < cap ! snd e - ek_F st ! snd e \<longrightarrow>
                reached (snd (bfs_incident cap t u es st)) (fst e)))"
  using assms
proof (induction es arbitrary: st)
  case Nil
  then show ?case by (simp add: bfs_ext_refl)
next
  case (Cons e es)
  obtain v i where e: "e = (v, i)" by (cases e)
  from Cons.prems(6) have i: "i < length (all_edges g)" "all_edges g ! i = (u, v)" "v < nodes g"
    and rest: "\<forall>e\<in>set es. snd e < length (all_edges g) \<and> all_edges g ! snd e = (u, fst e) \<and> fst e < nodes g"
    by (simp_all add: e)
  note IH = Cons.IH[OF _ Cons.prems(2) _ Cons.prems(4) _ rest]
  show ?case
  proof (cases "edge_enabled st ! i \<and> cap ! i - ek_F st ! i > 0 \<and> lfrom (prev st ! v) = -1")
    case False
    from IH[OF Cons.prems(1) Cons.prems(3) Cons.prems(5)]
    have ih: "bfs_inv g cap root t sc A (snd (bfs_incident cap t u es st))"
      "bfs_ext t (fst (bfs_incident cap t u es st)) st (snd (bfs_incident cap t u es st))"
      "\<not> fst (bfs_incident cap t u es st) \<longrightarrow>
            (\<forall>e\<in>set es. edge_enabled st ! snd e \<and> 0 < cap ! snd e - ek_F st ! snd e \<longrightarrow>
                reached (snd (bfs_incident cap t u es st)) (fst e))"
      by blast+
    have eq: "bfs_incident cap t u (e # es) st = bfs_incident cap t u es st"
      using False by (auto simp: e)
    have "edge_enabled st ! i \<and> 0 < cap ! i - ek_F st ! i \<longrightarrow> reached st v"
      using False by (auto simp: reached_def)
    then have "edge_enabled st ! i \<and> 0 < cap ! i - ek_F st ! i \<longrightarrow>
               reached (snd (bfs_incident cap t u es st)) v"
      using bfs_ext_reached[OF ih(2)] by blast
    with ih show ?thesis unfolding eq by (simp add: e)
  next
    case True
    define p where "p = \<lparr>lfrom = int u, lid = int i, backward = False\<rparr>"
    define b where "b = cap ! i - ek_F st ! i"
    define st1 where "st1 = st\<lparr>prev := (prev st)[v := p], ek_M := (ek_M st)[v := min (ek_M st ! u) b]\<rparr>"
    define st2 where "st2 = (if v \<noteq> t then st1\<lparr>ek_Q := ek_Q st1 @ [v]\<rparr> else st1)"
    have nv: "\<not> reached st v" using True by (simp add: reached_def)
    have vA: "v \<in> A"
    proof (rule ccontr)
      assume "v \<notin> A"
      with Cons.prems(4,5) i True have "cap ! i \<le> ek_F st ! i"
        unfolding closed_set_def by (auto dest!: spec[of _ i])
      with True show False by simp
    qed
    have arc: "arc_from g cap sc st u v p b"
      using True i by (simp add: arc_from_def p_def b_def)
    have b0: "0 < b" using True by (simp add: b_def)
    from discover_ok[OF Cons.prems(1) Cons.prems(2,3) i(3) nv vA b0 arc st1_def st2_def]
    have d: "bfs_inv g cap root t sc A st2" "bfs_ext t (v = t) st st2" by blast+
    show ?thesis
    proof (cases "v = t")
      case True
      have eq: "bfs_incident cap t u (e # es) st = (True, st2)"
        using \<open>edge_enabled st ! i \<and> cap ! i - ek_F st ! i > 0 \<and> lfrom (prev st ! v) = -1\<close> True
        by (simp add: e st2_def st1_def p_def b_def Let_def)
      show ?thesis unfolding eq using d True by simp
    next
      case False
      have eq: "bfs_incident cap t u (e # es) st = bfs_incident cap t u es st2"
        using \<open>edge_enabled st ! i \<and> cap ! i - ek_F st ! i > 0 \<and> lfrom (prev st ! v) = -1\<close> False
        by (simp add: e st2_def st1_def p_def b_def Let_def)
      have fr: "ek_F st2 = ek_F st" "edge_enabled st2 = edge_enabled st"
        using bfs_ext_frame[OF d(2)] by simp_all
      have cl2: "closed_set (all_edges g) cap (edge_enabled st2) (ek_F st2) A"
        using Cons.prems(5) by (simp add: fr)
      from IH[OF d(1) bfs_ext_reached[OF d(2) Cons.prems(3)] cl2]
      have ih: "bfs_inv g cap root t sc A (snd (bfs_incident cap t u es st2))"
        "bfs_ext t (fst (bfs_incident cap t u es st2)) st2 (snd (bfs_incident cap t u es st2))"
        "\<not> fst (bfs_incident cap t u es st2) \<longrightarrow>
            (\<forall>e\<in>set es. edge_enabled st ! snd e \<and> 0 < cap ! snd e - ek_F st ! snd e \<longrightarrow>
                reached (snd (bfs_incident cap t u es st2)) (fst e))"
        unfolding fr by blast+
      have ext: "bfs_ext t (fst (bfs_incident cap t u es st2)) st (snd (bfs_incident cap t u es st2))"
        using bfs_ext_trans[OF d(2) ih(2)] False by simp
      have "reached st2 v"
        using d(1) i(3) False st2_def st1_def Cons.prems(1)
        by (simp add: reached_def bfs_inv_def p_def)
      then have "reached (snd (bfs_incident cap t u es st2)) v"
        using bfs_ext_reached[OF ih(2)] by blast
      with ih ext show ?thesis unfolding eq by (simp add: e)
    qed
  qed
qed

text \<open>The loop over the incoming edges of \<open>u\<close>.\<close>

lemma bfs_incoming_ok:
  assumes "bfs_inv g cap root t sc A st"
    and "u < nodes g" "reached st u" "u \<in> A"
    and "closed_set (all_edges g) cap (edge_enabled st) (ek_F st) A"
    and "\<forall>e\<in>set es. snd e < length (all_edges g) \<and> all_edges g ! snd e = (fst e, u) \<and> fst e < nodes g"
  shows "bfs_inv g cap root t sc A (snd (bfs_incoming t u es st)) \<and>
         bfs_ext t (fst (bfs_incoming t u es st)) st (snd (bfs_incoming t u es st)) \<and>
         (\<not> fst (bfs_incoming t u es st) \<longrightarrow>
            (\<forall>e\<in>set es. edge_enabled st ! snd e \<and> 0 < ek_F st ! snd e \<longrightarrow>
                reached (snd (bfs_incoming t u es st)) (fst e)))"
  using assms
proof (induction es arbitrary: st)
  case Nil
  then show ?case by (simp add: bfs_ext_refl)
next
  case (Cons e es)
  obtain v i where e: "e = (v, i)" by (cases e)
  from Cons.prems(6) have i: "i < length (all_edges g)" "all_edges g ! i = (v, u)" "v < nodes g"
    and rest: "\<forall>e\<in>set es. snd e < length (all_edges g) \<and> all_edges g ! snd e = (fst e, u) \<and> fst e < nodes g"
    by (simp_all add: e)
  note IH = Cons.IH[OF _ Cons.prems(2) _ Cons.prems(4) _ rest]
  show ?case
  proof (cases "edge_enabled st ! i \<and> ek_F st ! i > 0 \<and> lfrom (prev st ! v) = -1")
    case False
    from IH[OF Cons.prems(1) Cons.prems(3) Cons.prems(5)]
    have ih: "bfs_inv g cap root t sc A (snd (bfs_incoming t u es st))"
      "bfs_ext t (fst (bfs_incoming t u es st)) st (snd (bfs_incoming t u es st))"
      "\<not> fst (bfs_incoming t u es st) \<longrightarrow>
            (\<forall>e\<in>set es. edge_enabled st ! snd e \<and> 0 < ek_F st ! snd e \<longrightarrow>
                reached (snd (bfs_incoming t u es st)) (fst e))"
      by blast+
    have eq: "bfs_incoming t u (e # es) st = bfs_incoming t u es st"
      using False by (auto simp: e)
    have "edge_enabled st ! i \<and> 0 < ek_F st ! i \<longrightarrow> reached st v"
      using False by (auto simp: reached_def)
    then have "edge_enabled st ! i \<and> 0 < ek_F st ! i \<longrightarrow>
               reached (snd (bfs_incoming t u es st)) v"
      using bfs_ext_reached[OF ih(2)] by blast
    with ih show ?thesis unfolding eq by (simp add: e)
  next
    case True
    define p where "p = \<lparr>lfrom = int u, lid = int i, backward = True\<rparr>"
    define b where "b = ek_F st ! i - 0"
    define st1 where "st1 = st\<lparr>prev := (prev st)[v := p], ek_M := (ek_M st)[v := min (ek_M st ! u) b]\<rparr>"
    define st2 where "st2 = (if v \<noteq> t then st1\<lparr>ek_Q := ek_Q st1 @ [v]\<rparr> else st1)"
    have nv: "\<not> reached st v" using True by (simp add: reached_def)
    have vA: "v \<in> A"
    proof (rule ccontr)
      assume "v \<notin> A"
      with Cons.prems(4,5) i True have "ek_F st ! i \<le> 0"
        unfolding closed_set_def by (auto dest!: spec[of _ i])
      with True show False by simp
    qed
    have arc: "arc_from g cap sc st u v p b"
      using True i by (simp add: arc_from_def p_def b_def)
    have b0: "0 < b" using True by (simp add: b_def)
    from discover_ok[OF Cons.prems(1) Cons.prems(2,3) i(3) nv vA b0 arc st1_def st2_def]
    have d: "bfs_inv g cap root t sc A st2" "bfs_ext t (v = t) st st2" by blast+
    show ?thesis
    proof (cases "v = t")
      case True
      have eq: "bfs_incoming t u (e # es) st = (True, st2)"
        using \<open>edge_enabled st ! i \<and> ek_F st ! i > 0 \<and> lfrom (prev st ! v) = -1\<close> True
        by (simp add: e st2_def st1_def p_def b_def Let_def)
      show ?thesis unfolding eq using d True by simp
    next
      case False
      have eq: "bfs_incoming t u (e # es) st = bfs_incoming t u es st2"
        using \<open>edge_enabled st ! i \<and> ek_F st ! i > 0 \<and> lfrom (prev st ! v) = -1\<close> False
        by (simp add: e st2_def st1_def p_def b_def Let_def)
      have fr: "ek_F st2 = ek_F st" "edge_enabled st2 = edge_enabled st"
        using bfs_ext_frame[OF d(2)] by simp_all
      have cl2: "closed_set (all_edges g) cap (edge_enabled st2) (ek_F st2) A"
        using Cons.prems(5) by (simp add: fr)
      from IH[OF d(1) bfs_ext_reached[OF d(2) Cons.prems(3)] cl2]
      have ih: "bfs_inv g cap root t sc A (snd (bfs_incoming t u es st2))"
        "bfs_ext t (fst (bfs_incoming t u es st2)) st2 (snd (bfs_incoming t u es st2))"
        "\<not> fst (bfs_incoming t u es st2) \<longrightarrow>
            (\<forall>e\<in>set es. edge_enabled st ! snd e \<and> 0 < ek_F st ! snd e \<longrightarrow>
                reached (snd (bfs_incoming t u es st2)) (fst e))"
        unfolding fr by blast+
      have ext: "bfs_ext t (fst (bfs_incoming t u es st2)) st (snd (bfs_incoming t u es st2))"
        using bfs_ext_trans[OF d(2) ih(2)] False by simp
      have "reached st2 v"
        using d(1) i(3) False st2_def st1_def Cons.prems(1)
        by (simp add: reached_def bfs_inv_def p_def)
      then have "reached (snd (bfs_incoming t u es st2)) v"
        using bfs_ext_reached[OF ih(2)] by blast
      with ih ext show ?thesis unfolding eq by (simp add: e)
    qed
  qed
qed

lemma bfs_ext_weaken: "bfs_ext t a st st' \<Longrightarrow> bfs_frame st st'"
  by (simp add: bfs_ext_def bfs_frame_def)

lemma bfs_frame_refl: "bfs_frame st st"
  by (simp add: bfs_frame_def)

lemma bfs_frame_trans:
  assumes "bfs_frame st st1" "bfs_frame st1 st2"
  shows "bfs_frame st st2"
proof -
  from assms(1) have 1: "st1 = st\<lparr>prev := prev st1, ek_M := ek_M st1, ek_Q := ek_Q st1\<rparr>"
    "\<forall>x. reached st x \<longrightarrow> reached st1 x \<and> prev st1 ! x = prev st ! x \<and> ek_M st1 ! x = ek_M st ! x"
    "\<forall>x. \<not> reached st1 x \<longrightarrow> ek_M st1 ! x = ek_M st ! x"
    unfolding bfs_frame_def by simp_all
  from assms(2) have 2: "st2 = st1\<lparr>prev := prev st2, ek_M := ek_M st2, ek_Q := ek_Q st2\<rparr>"
    "\<forall>x. reached st1 x \<longrightarrow> reached st2 x \<and> prev st2 ! x = prev st1 ! x \<and> ek_M st2 ! x = ek_M st1 ! x"
    "\<forall>x. \<not> reached st2 x \<longrightarrow> ek_M st2 ! x = ek_M st1 ! x"
    unfolding bfs_frame_def by simp_all
  have a: "st2 = st\<lparr>prev := prev st2, ek_M := ek_M st2, ek_Q := ek_Q st2\<rparr>"
    by (subst 2(1), subst 1(1)) simp
  have b: "\<forall>x. reached st x \<longrightarrow> reached st2 x \<and> prev st2 ! x = prev st ! x \<and> ek_M st2 ! x = ek_M st ! x"
    using 1(2) 2(2) by auto
  have c: "\<forall>x. \<not> reached st2 x \<longrightarrow> ek_M st2 ! x = ek_M st ! x"
    using 1(3) 2(2,3) by metis
  show ?thesis unfolding bfs_frame_def using a b c by simp
qed

lemma bfs_ext_found: "bfs_ext t a st st' \<Longrightarrow> a \<Longrightarrow> reached st' t"
  by (simp add: bfs_ext_def)

lemma bfs_ext_not_found:
  assumes "bfs_ext t False st st'" "\<not> reached st t"
  shows "\<not> reached st' t"
  using assms unfolding bfs_ext_def by blast

lemma bfs_ext_queue:
  assumes "bfs_ext t a st st'" "k < length (ek_Q st)"
  shows "ek_Q st' ! k = ek_Q st ! k" "k < length (ek_Q st')"
  using assms unfolding bfs_ext_def by (auto simp: nth_append)

lemma node_closed_ext:
  assumes "bfs_ext t a st st'" "node_closed g cap st x"
  shows "node_closed g cap st' x"
  using assms(2) bfs_ext_reached[OF assms(1)] bfs_ext_frame[OF assms(1)]
  unfolding node_closed_def by auto

lemma incident_props:
  assumes "graph_ok g"
  shows "\<forall>e\<in>set (incident g u). snd e < length (all_edges g) \<and>
            all_edges g ! snd e = (u, fst e) \<and> fst e < nodes g"
  using assms unfolding incident_def graph_ok_def by (auto simp: prod_eq_iff)

lemma incoming_props:
  assumes "graph_ok g"
  shows "\<forall>e\<in>set (incoming g u). snd e < length (all_edges g) \<and>
            all_edges g ! snd e = (fst e, u) \<and> fst e < nodes g"
  using assms unfolding incoming_def graph_ok_def by (auto simp: prod_eq_iff)

lemma incident_mem:
  assumes "i < length (all_edges g)" "fst (all_edges g ! i) = u"
  shows "(snd (all_edges g ! i), i) \<in> set (incident g u)"
  using assms unfolding incident_def by auto

lemma incoming_mem:
  assumes "i < length (all_edges g)" "snd (all_edges g ! i) = u"
  shows "(fst (all_edges g ! i), i) \<in> set (incoming g u)"
  using assms unfolding incoming_def by auto

lemma closed_set_UNIV: "closed_set E cap en F UNIV"
  by (simp add: closed_set_def)

text \<open>One turn of the loop over the queue, when no shortcut arc is tried.\<close>

lemma bfs_turn_ok:
  assumes gw: "graph_ok g" and inv: "bfs_inv g cap root t sc A st"
    and u: "u < nodes g" "reached st u" "u \<in> A"
    and cl: "closed_set (all_edges g) cap (edge_enabled st) (ek_F st) A"
    and r1: "r1 = bfs_incident cap t u (incident g u) st"
    and r2: "r2 = bfs_incoming t u (incoming g u) (snd r1)"
  shows "bfs_inv g cap root t sc A (snd r1)" "bfs_ext t (fst r1) st (snd r1)"
    "bfs_inv g cap root t sc A (snd r2)" "bfs_ext t (fst r1 \<or> fst r2) st (snd r2)"
    "\<not> fst r1 \<and> \<not> fst r2 \<longrightarrow> node_closed g cap (snd r2) u"
proof -
  from bfs_incident_ok[OF inv u cl incident_props[OF gw, of u]]
  have a: "bfs_inv g cap root t sc A (snd r1)" "bfs_ext t (fst r1) st (snd r1)"
    "\<not> fst r1 \<longrightarrow> (\<forall>e\<in>set (incident g u). edge_enabled st ! snd e \<and> 0 < cap ! snd e - ek_F st ! snd e \<longrightarrow>
                reached (snd r1) (fst e))"
    unfolding r1 by blast+
  note fr1 = bfs_ext_frame[OF a(2)]
  have cl1: "closed_set (all_edges g) cap (edge_enabled (snd r1)) (ek_F (snd r1)) A"
    using cl by (simp add: fr1)
  from bfs_incoming_ok[OF a(1) u(1) bfs_ext_reached[OF a(2) u(2)] u(3) cl1 incoming_props[OF gw, of u]]
  have b: "bfs_inv g cap root t sc A (snd r2)" "bfs_ext t (fst r2) (snd r1) (snd r2)"
    "\<not> fst r2 \<longrightarrow> (\<forall>e\<in>set (incoming g u). edge_enabled st ! snd e \<and> 0 < ek_F st ! snd e \<longrightarrow>
                reached (snd r2) (fst e))"
    unfolding r2 fr1 by blast+
  show "bfs_inv g cap root t sc A (snd r1)" "bfs_ext t (fst r1) st (snd r1)"
    "bfs_inv g cap root t sc A (snd r2)" by fact+
  show ext: "bfs_ext t (fst r1 \<or> fst r2) st (snd r2)" by (rule bfs_ext_trans[OF a(2) b(2)])
  note fr2 = bfs_ext_frame[OF ext]
  show "\<not> fst r1 \<and> \<not> fst r2 \<longrightarrow> node_closed g cap (snd r2) u"
  proof
    assume nf: "\<not> fst r1 \<and> \<not> fst r2"
    show "node_closed g cap (snd r2) u"
      unfolding node_closed_def fr2
    proof (intro allI impI conjI)
      fix i assume i: "i < length (all_edges g)" "edge_enabled st ! i"
      { assume h: "fst (all_edges g ! i) = u \<and> 0 < cap ! i - ek_F st ! i"
        from incident_mem[OF i(1)] h have "(snd (all_edges g ! i), i) \<in> set (incident g u)" by blast
        with a(3) nf i(2) h have "reached (snd r1) (snd (all_edges g ! i))" by fastforce
        then show "reached (snd r2) (snd (all_edges g ! i))" by (rule bfs_ext_reached[OF b(2)]) }
      { assume h: "snd (all_edges g ! i) = u \<and> 0 < ek_F st ! i"
        from incoming_mem[OF i(1)] h have "(fst (all_edges g ! i), i) \<in> set (incoming g u)" by blast
        with b(3) nf i(2) h show "reached (snd r2) (fst (all_edges g ! i))" by fastforce }
    qed
  qed
qed

text \<open>The loop over the queue of the plain search.\<close>

lemma bfs_queue_ok:
  assumes "bfs_queue g cap t j found st = Some r"
    and "graph_ok g"
    and "bfs_inv g cap root t None UNIV st"
    and "found \<longrightarrow> reached st t"
    and "\<not> found \<longrightarrow> \<not> reached st t \<and>
           (\<forall>k<j. k < length (ek_Q st) \<longrightarrow> node_closed g cap st (ek_Q st ! k))"
  shows "bfs_inv g cap root t None UNIV (snd r) \<and> bfs_frame st (snd r) \<and>
         (fst r \<longrightarrow> reached (snd r) t) \<and>
         (\<not> fst r \<longrightarrow> \<not> reached (snd r) t \<and> (\<forall>x\<in>set (ek_Q (snd r)). node_closed g cap (snd r) x))"
  using assms
proof (induction g cap t j found st r rule: bfs_queue.raw_induct[rotated 1, consumes 1])
  case (1 bq g cap t j found st r)
  show ?case
  proof (cases "j < length (ek_Q st)")
    case False
    with 1(2) have r: "r = (found, st)" by simp
    have "\<not> found \<longrightarrow> (\<forall>x\<in>set (ek_Q st). node_closed g cap st x)"
    proof (intro impI ballI)
      fix x assume nf: "\<not> found" and "x \<in> set (ek_Q st)"
      then obtain k where "k < length (ek_Q st)" "ek_Q st ! k = x" by (auto simp: in_set_conv_nth)
      with 1(6) nf False show "node_closed g cap st x" by auto
    qed
    with 1(4,5,6) show ?thesis by (simp add: r bfs_frame_refl)
  next
    case True
    define u where "u = ek_Q st ! j"
    define r1 where "r1 = bfs_incident cap t u (incident g u) st"
    define r2 where "r2 = bfs_incoming t u (incoming g u) (snd r1)"
    from 1(2) True have rec: "bq g cap t (j + 1) (found \<or> fst r1 \<or> fst r2) (snd r2) = Some r"
      by (simp add: Let_def r1_def r2_def u_def)
    have uq: "u \<in> set (ek_Q st)" using True by (simp add: u_def)
    with 1(4) have u: "u < nodes g" "reached st u" by (auto simp: bfs_inv_def)
    note turn = bfs_turn_ok[OF 1(3) 1(4) u UNIV_I closed_set_UNIV r1_def r2_def]
    have f1: "(found \<or> fst r1 \<or> fst r2) \<longrightarrow> reached (snd r2) t"
      using 1(5) bfs_ext_found[OF turn(4)] bfs_ext_reached[OF turn(4), of t] by blast
    have f2: "\<not> (found \<or> fst r1 \<or> fst r2) \<longrightarrow> \<not> reached (snd r2) t \<and>
           (\<forall>k<j + 1. k < length (ek_Q (snd r2)) \<longrightarrow> node_closed g cap (snd r2) (ek_Q (snd r2) ! k))"
    proof (intro impI conjI allI)
      assume nf: "\<not> (found \<or> fst r1 \<or> fst r2)"
      then have e: "bfs_ext t False st (snd r2)" using turn(4) by simp
      from nf 1(6) show "\<not> reached (snd r2) t" using bfs_ext_not_found[OF e] by blast
      fix k assume k: "k < j + 1" "k < length (ek_Q (snd r2))"
      show "node_closed g cap (snd r2) (ek_Q (snd r2) ! k)"
      proof (cases "k = j")
        case True
        then have "ek_Q (snd r2) ! k = u" using bfs_ext_queue(1)[OF e \<open>j < length (ek_Q st)\<close>]
          by (simp add: u_def)
        with turn(5) nf show ?thesis by simp
      next
        case False
        with k have kj: "k < j" by simp
        then have kl: "k < length (ek_Q st)" using \<open>j < length (ek_Q st)\<close> by simp
        with 1(6) nf kj have "node_closed g cap st (ek_Q st ! k)" by blast
        then show ?thesis using node_closed_ext[OF e] bfs_ext_queue(1)[OF e kl] by simp
      qed
    qed
    from 1(1)[OF rec 1(3) turn(3) f1 f2]
    have ih: "bfs_inv g cap root t None UNIV (snd r)" "bfs_frame (snd r2) (snd r)"
      "fst r \<longrightarrow> reached (snd r) t"
      "\<not> fst r \<longrightarrow> \<not> reached (snd r) t \<and> (\<forall>x\<in>set (ek_Q (snd r)). node_closed g cap (snd r) x)"
      by blast+
    have "bfs_frame st (snd r)"
      by (rule bfs_frame_trans[OF bfs_ext_weaken[OF turn(4)] ih(2)])
    with ih show ?thesis by blast
  qed
qed

lemma reset_prev_full:
  assumes "length ps = n"
  shows "reset_prev n ps = map (\<lambda>p. p\<lparr>lfrom := -1\<rparr>) ps"
  using assms by (simp add: reset_prev_def)

lemma bfs_start_inv:
  assumes len: "length (prev st) = nodes g" "length (ek_M st) = nodes g"
    and s: "s < nodes g" "0 < ek_M st ! s" "s \<in> A"
    and st0: "st0 = st\<lparr>prev := (reset_prev (nodes g) (prev st))[s := (reset_prev (nodes g) (prev st) ! s)\<lparr>lfrom := -2\<rparr>],
                       ek_Q := [s]\<rparr>"
  shows "bfs_inv g cap s t sc A st0 \<and> (\<forall>x<nodes g. reached st0 x \<longleftrightarrow> x = s) \<and>
    ek_M st0 = ek_M st \<and> ek_F st0 = ek_F st \<and> edge_enabled st0 = edge_enabled st \<and>
    st0 = st\<lparr>prev := prev st0, ek_Q := ek_Q st0\<rparr>"
proof -
  have p0: "prev st0 = (map (\<lambda>p. p\<lparr>lfrom := -1\<rparr>) (prev st))[s := (prev st ! s)\<lparr>lfrom := -2\<rparr>]"
    using len s(1) by (simp add: st0 reset_prev_full)
  have q0: "ek_Q st0 = [s]" and m0: "ek_M st0 = ek_M st" by (simp_all add: st0)
  have vis: "\<forall>x<nodes g. reached st0 x \<longleftrightarrow> x = s"
    using len s(1) by (auto simp: reached_def p0 nth_list_update)
  have rest: "ek_F st0 = ek_F st" "edge_enabled st0 = edge_enabled st"
    "st0 = st\<lparr>prev := prev st0, ek_Q := ek_Q st0\<rparr>"
    by (simp_all add: st0)
  have lp: "length (prev st0) = nodes g" using len by (simp add: p0)
  have "bfs_inv g cap s t sc A st0"
    unfolding bfs_inv_def q0 m0 lp using vis len s by auto
  with vis m0 rest show ?thesis by blast
qed

lemma BreadthFirstSearch_ok:
  assumes run: "BreadthFirstSearch g cap s t st = Some (m, st')"
    and gw: "graph_ok g"
    and len: "length (prev st) = nodes g" "length (ek_M st) = nodes g"
    and s: "s < nodes g" "0 < ek_M st ! s" and t: "t < nodes g" "s \<noteq> t"
  shows "st' = st\<lparr>prev := prev st', ek_M := ek_M st', ek_Q := ek_Q st'\<rparr>"
    and "bfs_inv g cap s t None UNIV st'"
    and "\<forall>x. \<not> reached st' x \<longrightarrow> ek_M st' ! x = ek_M st ! x"
    and "0 \<le> m"
    and "m \<noteq> 0 \<longrightarrow> reached st' t \<and> m = ek_M st' ! t"
    and "m = 0 \<longrightarrow> \<not> reached st' t \<and>
           closed_set (all_edges g) cap (edge_enabled st) (ek_F st) {x. x < nodes g \<and> reached st' x}"
proof -
  define st0 where "st0 = st\<lparr>prev := (reset_prev (nodes g) (prev st))[s := (reset_prev (nodes g) (prev st) ! s)\<lparr>lfrom := -2\<rparr>],
                       ek_Q := [s]\<rparr>"
  from bfs_start_inv[where cap = cap and t = t and sc = None, OF len s UNIV_I st0_def]
  have start: "bfs_inv g cap s t None UNIV st0" "\<forall>x<nodes g. reached st0 x \<longleftrightarrow> x = s"
    "ek_M st0 = ek_M st" "ek_F st0 = ek_F st" "edge_enabled st0 = edge_enabled st"
    "st0 = st\<lparr>prev := prev st0, ek_Q := ek_Q st0\<rparr>" by blast+
  from run obtain found where q: "bfs_queue g cap t 0 False st0 = Some (found, st')"
    and m: "m = (if found then ek_M st' ! t else 0)"
    unfolding BreadthFirstSearch_def Let_def st0_def[symmetric]
    by (auto split: option.splits)
  have nt: "\<not> reached st0 t" using start(2) t by auto
  from bfs_queue_ok[OF q gw start(1)] nt
  have r: "bfs_inv g cap s t None UNIV st'" "bfs_frame st0 st'" "found \<longrightarrow> reached st' t"
    "\<not> found \<longrightarrow> \<not> reached st' t \<and> (\<forall>x\<in>set (ek_Q st'). node_closed g cap st' x)"
    by simp_all
  show "bfs_inv g cap s t None UNIV st'" by fact
  from r(2) have e: "st' = st0\<lparr>prev := prev st', ek_M := ek_M st', ek_Q := ek_Q st'\<rparr>"
    and un: "\<forall>x. \<not> reached st' x \<longrightarrow> ek_M st' ! x = ek_M st0 ! x"
    by (simp_all add: bfs_frame_def)
  show eq: "st' = st\<lparr>prev := prev st', ek_M := ek_M st', ek_Q := ek_Q st'\<rparr>"
    by (subst e, subst start(6)) simp
  show "\<forall>x. \<not> reached st' x \<longrightarrow> ek_M st' ! x = ek_M st ! x"
    using un by (simp add: start(3))
  have Mt: "found \<longrightarrow> 0 < ek_M st' ! t"
  proof
    assume found
    with r(3) have "reached st' t" by simp
    with r(1) t have "node_ok g cap None st' t" by (auto simp: bfs_inv_def)
    then show "0 < ek_M st' ! t" by (simp add: node_ok_def)
  qed
  show "0 \<le> m" using Mt by (auto simp: m)
  show "m \<noteq> 0 \<longrightarrow> reached st' t \<and> m = ek_M st' ! t"
    using r(3) by (auto simp: m split: if_splits)
  have fr: "ek_F st' = ek_F st" "edge_enabled st' = edge_enabled st"
    by (subst eq, simp)+
  show "m = 0 \<longrightarrow> \<not> reached st' t \<and>
           closed_set (all_edges g) cap (edge_enabled st) (ek_F st) {x. x < nodes g \<and> reached st' x}"
  proof
    assume "m = 0"
    with Mt have nf: "\<not> found" by (auto simp: m)
    with r(4) have nvt: "\<not> reached st' t"
      and cl: "\<forall>x\<in>set (ek_Q st'). node_closed g cap st' x" by simp_all
    have inQ: "\<And>x. x < nodes g \<Longrightarrow> reached st' x \<Longrightarrow> node_closed g cap st' x"
      using r(1) nvt cl unfolding bfs_inv_def by blast
    have "closed_set (all_edges g) cap (edge_enabled st) (ek_F st) {x. x < nodes g \<and> reached st' x}"
      unfolding closed_set_def
    proof (intro allI impI conjI)
      fix i assume i: "i < length (all_edges g)" "edge_enabled st ! i"
      then have ends: "fst (all_edges g ! i) < nodes g" "snd (all_edges g ! i) < nodes g"
        using gw by (auto simp: graph_ok_def)
      { assume h: "fst (all_edges g ! i) \<in> {x. x < nodes g \<and> reached st' x} \<and>
                   snd (all_edges g ! i) \<notin> {x. x < nodes g \<and> reached st' x}"
        then have "node_closed g cap st' (fst (all_edges g ! i))" using inQ by simp
        with h i ends show "cap ! i \<le> ek_F st ! i"
          unfolding node_closed_def fr by (auto dest!: spec[of _ i]) }
      { assume h: "snd (all_edges g ! i) \<in> {x. x < nodes g \<and> reached st' x} \<and>
                   fst (all_edges g ! i) \<notin> {x. x < nodes g \<and> reached st' x}"
        then have "node_closed g cap st' (snd (all_edges g ! i))" using inQ by simp
        with h i ends show "ek_F st ! i \<le> 0"
          unfolding node_closed_def fr by (auto dest!: spec[of _ i]) }
    qed
    with nvt show "\<not> reached st' t \<and>
           closed_set (all_edges g) cap (edge_enabled st) (ek_F st) {x. x < nodes g \<and> reached st' x}"
      by simp
  qed
qed

lemma walk_det:
  assumes "walk f s v a" "walk f s v b"
  shows "a = b"
  using assms
proof (induction arbitrary: b rule: walk.induct)
  case walk_root
  then show ?case by (auto elim: walk.cases)
next
  case (walk_step v vs)
  from walk_step.prems walk_step.hyps(1) obtain vs' where "b = v # vs'" "walk f s (f v) vs'"
    by (auto elim: walk.cases)
  with walk_step.IH show ?case by simp
qed

lemma walk_suffix:
  assumes "walk f s v vs" "x \<in> set vs"
  shows "\<exists>pre suf. vs = pre @ suf \<and> walk f s x suf"
  using assms
proof (induction rule: walk.induct)
  case walk_root
  then show ?case by simp
next
  case (walk_step v vs)
  show ?case
  proof (cases "x = v")
    case True
    have "walk f s v (v # vs)" using walk_step.hyps by (rule walk.walk_step)
    then show ?thesis using True by (intro exI[of _ "[]"] exI[of _ "v # vs"]) simp
  next
    case False
    with walk_step.prems have "x \<in> set vs" by simp
    from walk_step.IH[OF this] obtain pre suf where "vs = pre @ suf" "walk f s x suf" by blast
    then show ?thesis by (intro exI[of _ "v # pre"] exI[of _ suf]) simp
  qed
qed

lemma walk_distinct:
  assumes "walk f s v vs"
  shows "distinct vs"
  using assms
proof (induction rule: walk.induct)
  case walk_root
  show ?case by simp
next
  case (walk_step v vs)
  have w: "walk f s v (v # vs)" using walk_step.hyps by (rule walk.walk_step)
  have "v \<notin> set vs"
  proof
    assume "v \<in> set vs"
    from walk_suffix[OF walk_step.hyps(2) this] obtain pre suf where
      ps: "vs = pre @ suf" "walk f s v suf" by blast
    from walk_det[OF w ps(2)] have "suf = v # vs" by simp
    with ps(1) show False by (metis append_eq_Cons_conv length_append not_add_less2 length_Cons lessI list.size(4) add_Suc_right)
  qed
  with walk_step.IH show ?case by simp
qed

lemma walk_not_root:
  assumes "walk f s v vs"
  shows "s \<notin> set vs"
  using assms by (induction rule: walk.induct) auto

lemma walk_next:
  assumes "walk f s v vs" "x \<in> set vs"
  shows "f x = s \<or> f x \<in> set vs"
  using assms
proof (induction rule: walk.induct)
  case walk_root
  then show ?case by simp
next
  case (walk_step v vs)
  show ?case
  proof (cases "x = v")
    case True
    from walk_step.hyps(2) show ?thesis unfolding True by (cases rule: walk.cases) auto
  next
    case False
    with walk_step.prems walk_step.IH show ?thesis by auto
  qed
qed

lemma walk_head:
  assumes "walk f s v vs"
  shows "vs = [] \<and> v = s \<or> (\<exists>vs'. vs = v # vs')"
  using assms by (cases rule: walk.cases) auto

lemma push_flow_F: "push_flow e m st = st\<lparr>ek_F := push_F e m (ek_F st)\<rparr>"
  by (simp add: push_flow_def push_F_def)

text \<open>The walk of \<open>maxFlow_p(s, t)\<close> and of \<open>maxFlow_residual\<close>.\<close>

lemma augment_walk:
  assumes "augment s m v st = Some st'"
  shows "\<exists>vs. walk (nx (prev st) sf) s v vs \<and> (\<forall>x\<in>set vs. 0 \<le> lid (prev st ! x)) \<and>
              st' = st\<lparr>ek_F := fold (apply_step (prev st) m) vs (ek_F st)\<rparr>"
  using assms
proof (induction s m v st st' rule: augment.raw_induct[rotated 1, consumes 1])
  case (1 aug s m v st st')
  show ?case
  proof (cases "v = s")
    case True
    with 1(2) have "st' = st" by simp
    then show ?thesis using True by (intro exI[of _ "[]"]) (simp add: walk_root)
  next
    case False
    with 1(2) have ok: "0 \<le> lfrom (prev st ! v)" "0 \<le> lid (prev st ! v)"
      and rec: "aug s m (nat (lfrom (prev st ! v))) (push_flow (prev st ! v) m st) = Some st'"
      by (auto split: if_splits)
    define st1 where "st1 = push_flow (prev st ! v) m st"
    have p1: "prev st1 = prev st" and F1: "ek_F st1 = push_F (prev st ! v) m (ek_F st)"
      by (simp_all add: st1_def push_flow_F)
    from 1(1)[OF rec] obtain vs where vs: "walk (nx (prev st) sf) s (nat (lfrom (prev st ! v))) vs"
      "\<forall>x\<in>set vs. 0 \<le> lid (prev st ! x)"
      "st' = st1\<lparr>ek_F := fold (apply_step (prev st) m) vs (ek_F st1)\<rparr>"
      unfolding st1_def[symmetric] p1 by blast
    have n: "nx (prev st) sf v = nat (lfrom (prev st ! v))" using ok by (simp add: nx_def)
    have w: "walk (nx (prev st) sf) s v (v # vs)"
      using False vs(1) by (intro walk_step) (simp_all add: n)
    have "st' = st\<lparr>ek_F := fold (apply_step (prev st) m) (v # vs) (ek_F st)\<rparr>"
      using vs(3) ok by (simp add: F1 apply_step_def st1_def push_flow_F)
    with w vs(2) ok show ?thesis by (intro exI[of _ "v # vs"]) simp
  qed
qed

text \<open>The walk of \<open>maxFlow_p(s, t, shortCircuitFrom, shortCircuitTo, bound)\<close>.\<close>

lemma augment_sc_walk:
  assumes "augment_sc s sf m v st = Some st'"
  shows "\<exists>vs. walk (nx (prev st) sf) s v vs \<and>
              st' = st\<lparr>ek_F := fold (apply_step (prev st) m) vs (ek_F st)\<rparr>"
  using assms
proof (induction s sf m v st st' rule: augment_sc.raw_induct[rotated 1, consumes 1])
  case (1 aug s sf m v st st')
  show ?case
  proof (cases "v = s")
    case True
    with 1(2) have "st' = st" by simp
    then show ?thesis using True by (intro exI[of _ "[]"]) (simp add: walk_root)
  next
    case False
    show ?thesis
    proof (cases "0 \<le> lid (prev st ! v)")
      case True
      with 1(2) False have rec: "aug s sf m (nat (lfrom (prev st ! v))) (push_flow (prev st ! v) m st) = Some st'"
        by (auto split: if_splits)
      define st1 where "st1 = push_flow (prev st ! v) m st"
      have p1: "prev st1 = prev st" and F1: "ek_F st1 = push_F (prev st ! v) m (ek_F st)"
        by (simp_all add: st1_def push_flow_F)
      from 1(1)[OF rec] obtain vs where vs: "walk (nx (prev st) sf) s (nat (lfrom (prev st ! v))) vs"
        "st' = st1\<lparr>ek_F := fold (apply_step (prev st) m) vs (ek_F st1)\<rparr>"
        unfolding st1_def[symmetric] p1 by blast
      have n: "nx (prev st) sf v = nat (lfrom (prev st ! v))" using True by (simp add: nx_def)
      have w: "walk (nx (prev st) sf) s v (v # vs)"
        using False vs(1) by (intro walk_step) (simp_all add: n)
      have "st' = st\<lparr>ek_F := fold (apply_step (prev st) m) (v # vs) (ek_F st)\<rparr>"
        using vs(2) True by (simp add: F1 apply_step_def st1_def push_flow_F)
      with w show ?thesis by (intro exI[of _ "v # vs"]) simp
    next
      case neg: False
      with 1(2) False have rec: "aug s sf m sf st = Some st'" by (auto split: if_splits)
      from 1(1)[OF rec] obtain vs where vs: "walk (nx (prev st) sf) s sf vs"
        "st' = st\<lparr>ek_F := fold (apply_step (prev st) m) vs (ek_F st)\<rparr>" by blast
      have n: "nx (prev st) sf v = sf" using neg by (simp add: nx_def)
      have w: "walk (nx (prev st) sf) s v (v # vs)"
        using False vs(1) by (intro walk_step) (simp_all add: n)
      have "st' = st\<lparr>ek_F := fold (apply_step (prev st) m) (v # vs) (ek_F st)\<rparr>"
        using vs(2) neg by (simp add: apply_step_def)
      with w show ?thesis by (intro exI[of _ "v # vs"]) simp
    qed
  qed
qed

lemma walk_edges_distinct:
  assumes w: "walk (nx ps sf) s (nx ps sf v) vs" and vs: "v \<noteq> s" "v \<notin> set vs"
    and sv: "arc_stat E en ps sf tsc v" and x: "x \<in> set vs" "arc_stat E en ps sf tsc x"
    and lv: "0 \<le> lid (ps ! v)" and lx: "0 \<le> lid (ps ! x)"
  shows "nat (lid (ps ! x)) \<noteq> nat (lid (ps ! v))"
proof
  assume eq: "nat (lid (ps ! x)) = nat (lid (ps ! v))"
  have xv: "x \<noteq> v" using x(1) vs(2) by auto
  from sv lv have ev: "E ! nat (lid (ps ! v)) = (if backward (ps ! v) then (v, nx ps sf v) else (nx ps sf v, v))"
    and nv: "nx ps sf v \<noteq> v" by (simp_all add: arc_stat_def)
  from x(2) lx have ex: "E ! nat (lid (ps ! x)) = (if backward (ps ! x) then (x, nx ps sf x) else (nx ps sf x, x))"
    and nxx: "nx ps sf x \<noteq> x" by (simp_all add: arc_stat_def)
  from ev ex eq xv have "nx ps sf x = v" by (auto split: if_splits)
  with walk_next[OF w x(1)] vs show False by auto
qed

lemma walk_effect:
  assumes "walk (nx ps sf) s v vs"
    and "length F = length E" and "0 \<le> m"
    and "\<forall>x\<in>set vs. arc_stat E en ps sf tsc x"
    and "\<forall>x\<in>set vs. arc_room cap ps m F x"
    and "\<forall>i<length E. en ! i \<longrightarrow> 0 \<le> F ! i \<and> F ! i \<le> cap ! i"
  shows "length (fold (apply_step ps m) vs F) = length E \<and>
         (\<forall>i<length E. en ! i \<longrightarrow> 0 \<le> fold (apply_step ps m) vs F ! i \<and>
                                   fold (apply_step ps m) vs F ! i \<le> cap ! i) \<and>
         (\<forall>i. fold (apply_step ps m) vs F ! i \<noteq> F ! i \<longrightarrow>
               (\<exists>x\<in>set vs. 0 \<le> lid (ps ! x) \<and> i = nat (lid (ps ! x)))) \<and>
         (\<forall>z. excess E en (fold (apply_step ps m) vs F) z =
               excess E en F z + m * ((if z = v then 1 else 0) - (if z = s then 1 else 0))
                 - m * int (length (filter (\<lambda>x. lid (ps ! x) < 0) vs)) *
                     ((if z = tsc then 1 else 0) - (if z = sf then 1 else 0)))"
  using assms
proof (induction arbitrary: F rule: walk.induct)
  case walk_root
  then show ?case by simp
next
  case (walk_step v vs)
  let ?f = "nx ps sf"
  have wv: "walk ?f s v (v # vs)" using walk_step.hyps by (rule walk.walk_step)
  have dv: "v \<notin> set vs" using walk_distinct[OF wv] by simp
  have sv: "arc_stat E en ps sf tsc v" using walk_step.prems(3) by simp
  have rv: "arc_room cap ps m F v" using walk_step.prems(4) by simp
  have srest: "\<forall>x\<in>set vs. arc_stat E en ps sf tsc x" using walk_step.prems(3) by simp
  define F1 where "F1 = apply_step ps m v F"
  have fold: "fold (apply_step ps m) (v # vs) F = fold (apply_step ps m) vs F1"
    by (simp add: F1_def)
  have step: "length F1 = length E \<and>
     (\<forall>i<length E. en ! i \<longrightarrow> 0 \<le> F1 ! i \<and> F1 ! i \<le> cap ! i) \<and>
     (\<forall>i. F1 ! i \<noteq> F ! i \<longrightarrow> 0 \<le> lid (ps ! v) \<and> i = nat (lid (ps ! v))) \<and>
     (\<forall>z. excess E en F1 z = excess E en F z +
        (if lid (ps ! v) < 0 then 0 else m * ((if z = v then 1 else 0) - (if z = ?f v then 1 else 0))))"
  proof (cases "lid (ps ! v) < 0")
    case True
    then have "F1 = F" by (simp add: F1_def apply_step_def)
    with walk_step.prems True show ?thesis by simp
  next
    case False
    define i where "i = nat (lid (ps ! v))"
    from sv False have i: "i < length E" "en ! i"
      and ei: "E ! i = (if backward (ps ! v) then (v, ?f v) else (?f v, v))"
      and nv: "?f v \<noteq> v"
      by (simp_all add: arc_stat_def i_def)
    show ?thesis
    proof (cases "backward (ps ! v)")
      case True
      have F1: "F1 = F[i := F ! i + (- m)]"
        using False True by (simp add: F1_def apply_step_def push_F_def i_def)
      from rv False True have room: "m \<le> F ! i" by (simp add: arc_room_def i_def)
      have a: "length F1 = length E" using walk_step.prems(1) by (simp add: F1)
      have b: "\<forall>j<length E. en ! j \<longrightarrow> 0 \<le> F1 ! j \<and> F1 ! j \<le> cap ! j"
        using walk_step.prems(1,2,5) room i unfolding F1
        by (auto simp: nth_list_update)
      have c: "\<forall>j. F1 ! j \<noteq> F ! j \<longrightarrow> 0 \<le> lid (ps ! v) \<and> j = nat (lid (ps ! v))"
      proof (intro allI impI)
        fix j assume "F1 ! j \<noteq> F ! j"
        then have "j = i" unfolding F1 by (cases "j = i") simp_all
        with False show "0 \<le> lid (ps ! v) \<and> j = nat (lid (ps ! v))" by (simp add: i_def)
      qed
      have d: "\<forall>z. excess E en F1 z = excess E en F z +
        (if lid (ps ! v) < 0 then 0 else m * ((if z = v then 1 else 0) - (if z = ?f v then 1 else 0)))"
      proof
        fix z
        have "excess E en F1 z = excess E en F z +
           (if en ! i then (if snd (E ! i) = z then - m else 0) - (if fst (E ! i) = z then - m else 0)
            else 0)"
          unfolding F1 by (rule excess_update[OF i(1) walk_step.prems(1)])
        then show "excess E en F1 z = excess E en F z +
          (if lid (ps ! v) < 0 then 0 else m * ((if z = v then 1 else 0) - (if z = ?f v then 1 else 0)))"
          using i(2) ei True False nv by auto
      qed
      from a b c d show ?thesis by blast
    next
      case fw: False
      have F1: "F1 = F[i := F ! i + m]"
        using False fw by (simp add: F1_def apply_step_def push_F_def i_def)
      from rv False fw have room: "m \<le> cap ! i - F ! i" by (simp add: arc_room_def i_def)
      have a: "length F1 = length E" using walk_step.prems(1) by (simp add: F1)
      have b: "\<forall>j<length E. en ! j \<longrightarrow> 0 \<le> F1 ! j \<and> F1 ! j \<le> cap ! j"
        using walk_step.prems(1,2,5) room i unfolding F1
        by (auto simp: nth_list_update)
      have c: "\<forall>j. F1 ! j \<noteq> F ! j \<longrightarrow> 0 \<le> lid (ps ! v) \<and> j = nat (lid (ps ! v))"
      proof (intro allI impI)
        fix j assume "F1 ! j \<noteq> F ! j"
        then have "j = i" unfolding F1 by (cases "j = i") simp_all
        with False show "0 \<le> lid (ps ! v) \<and> j = nat (lid (ps ! v))" by (simp add: i_def)
      qed
      have d: "\<forall>z. excess E en F1 z = excess E en F z +
        (if lid (ps ! v) < 0 then 0 else m * ((if z = v then 1 else 0) - (if z = ?f v then 1 else 0)))"
      proof
        fix z
        have "excess E en F1 z = excess E en F z +
           (if en ! i then (if snd (E ! i) = z then m else 0) - (if fst (E ! i) = z then m else 0)
            else 0)"
          unfolding F1 by (rule excess_update[OF i(1) walk_step.prems(1)])
        then show "excess E en F1 z = excess E en F z +
          (if lid (ps ! v) < 0 then 0 else m * ((if z = v then 1 else 0) - (if z = ?f v then 1 else 0)))"
          using i(2) ei fw False nv by auto
      qed
      from a b c d show ?thesis by blast
    qed
  qed
  then have s1: "length F1 = length E"
    and s2: "\<forall>i<length E. en ! i \<longrightarrow> 0 \<le> F1 ! i \<and> F1 ! i \<le> cap ! i"
    and s3: "\<forall>i. F1 ! i \<noteq> F ! i \<longrightarrow> 0 \<le> lid (ps ! v) \<and> i = nat (lid (ps ! v))"
    and s4: "\<forall>z. excess E en F1 z = excess E en F z +
        (if lid (ps ! v) < 0 then 0 else m * ((if z = v then 1 else 0) - (if z = ?f v then 1 else 0)))"
    by blast+
  have room1: "\<forall>x\<in>set vs. arc_room cap ps m F1 x"
  proof
    fix x assume x: "x \<in> set vs"
    then have rx: "arc_room cap ps m F x" and sx: "arc_stat E en ps sf tsc x"
      using walk_step.prems(3,4) by simp_all
    show "arc_room cap ps m F1 x"
    proof (cases "0 \<le> lid (ps ! x)")
      case False
      then show ?thesis by (simp add: arc_room_def)
    next
      case True
      have "F1 ! nat (lid (ps ! x)) = F ! nat (lid (ps ! x))"
      proof (rule ccontr)
        assume "F1 ! nat (lid (ps ! x)) \<noteq> F ! nat (lid (ps ! x))"
        with s3 have lv: "0 \<le> lid (ps ! v)" and e: "nat (lid (ps ! x)) = nat (lid (ps ! v))" by blast+
        from walk_edges_distinct[OF walk_step.hyps(2) walk_step.hyps(1) dv sv x sx lv True] e
        show False by simp
      qed
      with rx show ?thesis by (simp add: arc_room_def)
    qed
  qed
  from walk_step.IH[OF s1 walk_step.prems(2) srest room1 s2]
  have ih1: "length (fold (apply_step ps m) vs F1) = length E"
    and ih2: "\<forall>i<length E. en ! i \<longrightarrow> 0 \<le> fold (apply_step ps m) vs F1 ! i \<and>
                                   fold (apply_step ps m) vs F1 ! i \<le> cap ! i"
    and ih3: "\<forall>i. fold (apply_step ps m) vs F1 ! i \<noteq> F1 ! i \<longrightarrow>
               (\<exists>x\<in>set vs. 0 \<le> lid (ps ! x) \<and> i = nat (lid (ps ! x)))"
    and ih4: "\<forall>z. excess E en (fold (apply_step ps m) vs F1) z =
               excess E en F1 z + m * ((if z = ?f v then 1 else 0) - (if z = s then 1 else 0))
                 - m * int (length (filter (\<lambda>x. lid (ps ! x) < 0) vs)) *
                     ((if z = tsc then 1 else 0) - (if z = sf then 1 else 0))"
    by blast+
  have c3: "\<forall>i. fold (apply_step ps m) vs F1 ! i \<noteq> F ! i \<longrightarrow>
               (\<exists>x\<in>set (v # vs). 0 \<le> lid (ps ! x) \<and> i = nat (lid (ps ! x)))"
  proof (intro allI impI)
    fix i assume "fold (apply_step ps m) vs F1 ! i \<noteq> F ! i"
    then have "fold (apply_step ps m) vs F1 ! i \<noteq> F1 ! i \<or> F1 ! i \<noteq> F ! i" by auto
    then show "\<exists>x\<in>set (v # vs). 0 \<le> lid (ps ! x) \<and> i = nat (lid (ps ! x))"
      using ih3 s3 by auto
  qed
  have c4: "\<forall>z. excess E en (fold (apply_step ps m) vs F1) z =
               excess E en F z + m * ((if z = v then 1 else 0) - (if z = s then 1 else 0))
                 - m * int (length (filter (\<lambda>x. lid (ps ! x) < 0) (v # vs))) *
                     ((if z = tsc then 1 else 0) - (if z = sf then 1 else 0))"
  proof
    fix z
    show "excess E en (fold (apply_step ps m) vs F1) z =
               excess E en F z + m * ((if z = v then 1 else 0) - (if z = s then 1 else 0))
                 - m * int (length (filter (\<lambda>x. lid (ps ! x) < 0) (v # vs))) *
                     ((if z = tsc then 1 else 0) - (if z = sf then 1 else 0))"
    proof (cases "lid (ps ! v) < 0")
      case True
      with sv have "v = tsc" "?f v = sf" by (simp_all add: arc_stat_def nx_def)
      with ih4[rule_format, of z] s4[rule_format, of z] True show ?thesis
        by (simp add: algebra_simps)
    next
      case False
      with ih4[rule_format, of z] s4[rule_format, of z] show ?thesis
        by (simp add: algebra_simps)
    qed
  qed
  show ?case unfolding fold using ih1 ih2 c3 c4 by blast
qed

lemma walk_tree:
  assumes w: "walk (nx (prev st) sf) root v vs"
    and inv: "bfs_inv g cap root t sc A st"
    and sc: "sc = None \<or> sc = Some (sf, tsc)"
    and v: "v < nodes g" "reached st v" "c \<le> ek_M st ! v"
  shows "\<forall>x\<in>set vs. x < nodes g \<and> reached st x \<and>
            nx (prev st) sf x < nodes g \<and> reached st (nx (prev st) sf x) \<and>
            arc_stat (all_edges g) (edge_enabled st) (prev st) sf tsc x \<and>
            arc_room cap (prev st) c (ek_F st) x"
  using w v
proof (induction rule: walk.induct)
  case walk_root
  show ?case by simp
next
  case (walk_step v vs)
  let ?p = "prev st ! v"
  let ?u = "nat (lfrom ?p)"
  from inv walk_step.prems(1,2) walk_step.hyps(1) have ok: "node_ok g cap sc st v"
    by (simp add: bfs_inv_def)
  then have u: "?u < nodes g" "?u \<noteq> v" "reached st ?u" "ek_M st ! v \<le> ek_M st ! ?u"
    and arc: "arc_from g cap sc st ?u v ?p (ek_M st ! v)"
    by (simp_all add: node_ok_def)
  have n: "nx (prev st) sf v = ?u"
  proof (cases "lid ?p < 0")
    case True
    with arc have "sc = Some (?u, v)" by (simp add: arc_from_def)
    with sc have "?u = sf" by auto
    with True show ?thesis by (simp add: nx_def)
  next
    case False
    then show ?thesis by (simp add: nx_def)
  qed
  have nn: "nx (prev st) sf v \<noteq> v" using n u(2) by simp
  have stat: "arc_stat (all_edges g) (edge_enabled st) (prev st) sf tsc v"
  proof (cases "lid ?p < 0")
    case True
    with arc have "sc = Some (?u, v)" by (simp add: arc_from_def)
    with sc have "v = tsc" by auto
    with True nn show ?thesis unfolding arc_stat_def by auto
  next
    case False
    from arc False have "nat (lid ?p) < length (all_edges g) \<and> edge_enabled st ! nat (lid ?p) \<and>
        all_edges g ! nat (lid ?p) = (if backward ?p then (v, ?u) else (?u, v))"
      by (auto simp: arc_from_def)
    with False nn show ?thesis unfolding arc_stat_def n by auto
  qed
  have room: "arc_room cap (prev st) c (ek_F st) v"
    using arc walk_step.prems(3) by (auto simp: arc_room_def arc_from_def)
  have cu: "c \<le> ek_M st ! ?u" using u(4) walk_step.prems(3) by simp
  from walk_step.IH[unfolded n, OF u(1) u(3) cu]
  have ih: "\<forall>x\<in>set vs. x < nodes g \<and> reached st x \<and>
            nx (prev st) sf x < nodes g \<and> reached st (nx (prev st) sf x) \<and>
            arc_stat (all_edges g) (edge_enabled st) (prev st) sf tsc x \<and>
            arc_room cap (prev st) c (ek_F st) x" .
  show ?case using ih walk_step.prems(1,2) u(1,3) stat room by (simp add: n)
qed

lemma bfs_inv_reached_pos:
  assumes "bfs_inv g cap root t sc A st" "x < nodes g" "reached st x"
  shows "0 < ek_M st ! x"
proof (cases "x = root")
  case True
  with assms show ?thesis by (simp add: bfs_inv_def)
next
  case False
  with assms have "node_ok g cap sc st x" by (simp add: bfs_inv_def)
  then show ?thesis by (simp add: node_ok_def)
qed

text \<open>What one walk does to the flow, once the search has found \<open>t\<close>.\<close>

lemma walk_push:
  assumes w: "walk (nx (prev st) sf) root t vs"
    and inv: "bfs_inv g cap root t sc A st"
    and sc: "sc = None \<or> sc = Some (sf, tsc)"
    and t: "t < nodes g" "reached st t"
    and m: "0 \<le> m" "m \<le> ek_M st ! t"
    and len: "length (ek_F st) = length (all_edges g)"
    and feas: "\<forall>i<length (all_edges g). edge_enabled st ! i \<longrightarrow> 0 \<le> ek_F st ! i \<and> ek_F st ! i \<le> cap ! i"
    and F': "F' = fold (apply_step (prev st) m) vs (ek_F st)"
  shows "length F' = length (all_edges g)"
    and "\<forall>i<length (all_edges g). edge_enabled st ! i \<longrightarrow> 0 \<le> F' ! i \<and> F' ! i \<le> cap ! i"
    and "\<forall>i. F' ! i \<noteq> ek_F st ! i \<longrightarrow> i < length (all_edges g) \<and> edge_enabled st ! i \<and>
            (\<exists>x\<in>set vs. 0 \<le> lid (prev st ! x) \<and>
               all_edges g ! i = (if backward (prev st ! x) then (x, nx (prev st) sf x)
                                  else (nx (prev st) sf x, x))) \<and>
            fst (all_edges g ! i) \<noteq> snd (all_edges g ! i) \<and>
            0 < ek_M st ! fst (all_edges g ! i) \<and> 0 < ek_M st ! snd (all_edges g ! i)"
    and "\<forall>z. excess (all_edges g) (edge_enabled st) F' z =
               excess (all_edges g) (edge_enabled st) (ek_F st) z +
                 m * ((if z = t then 1 else 0) - (if z = root then 1 else 0))
                 - m * int (length (filter (\<lambda>x. lid (prev st ! x) < 0) vs)) *
                     ((if z = tsc then 1 else 0) - (if z = sf then 1 else 0))"
proof -
  note tree = walk_tree[OF w inv sc t m(2)]
  have stat: "\<forall>x\<in>set vs. arc_stat (all_edges g) (edge_enabled st) (prev st) sf tsc x"
    and room: "\<forall>x\<in>set vs. arc_room cap (prev st) m (ek_F st) x"
    using tree by blast+
  from walk_effect[OF w len m(1) stat room feas, folded F']
  have e: "length F' = length (all_edges g)"
    "\<forall>i<length (all_edges g). edge_enabled st ! i \<longrightarrow> 0 \<le> F' ! i \<and> F' ! i \<le> cap ! i"
    "\<forall>i. F' ! i \<noteq> ek_F st ! i \<longrightarrow> (\<exists>x\<in>set vs. 0 \<le> lid (prev st ! x) \<and> i = nat (lid (prev st ! x)))"
    "\<forall>z. excess (all_edges g) (edge_enabled st) F' z =
               excess (all_edges g) (edge_enabled st) (ek_F st) z +
                 m * ((if z = t then 1 else 0) - (if z = root then 1 else 0))
                 - m * int (length (filter (\<lambda>x. lid (prev st ! x) < 0) vs)) *
                     ((if z = tsc then 1 else 0) - (if z = sf then 1 else 0))"
    by blast+
  show "length F' = length (all_edges g)"
    "\<forall>i<length (all_edges g). edge_enabled st ! i \<longrightarrow> 0 \<le> F' ! i \<and> F' ! i \<le> cap ! i"
    "\<forall>z. excess (all_edges g) (edge_enabled st) F' z =
               excess (all_edges g) (edge_enabled st) (ek_F st) z +
                 m * ((if z = t then 1 else 0) - (if z = root then 1 else 0))
                 - m * int (length (filter (\<lambda>x. lid (prev st ! x) < 0) vs)) *
                     ((if z = tsc then 1 else 0) - (if z = sf then 1 else 0))"
    by fact+
  show "\<forall>i. F' ! i \<noteq> ek_F st ! i \<longrightarrow> i < length (all_edges g) \<and> edge_enabled st ! i \<and>
            (\<exists>x\<in>set vs. 0 \<le> lid (prev st ! x) \<and>
               all_edges g ! i = (if backward (prev st ! x) then (x, nx (prev st) sf x)
                                  else (nx (prev st) sf x, x))) \<and>
            fst (all_edges g ! i) \<noteq> snd (all_edges g ! i) \<and>
            0 < ek_M st ! fst (all_edges g ! i) \<and> 0 < ek_M st ! snd (all_edges g ! i)"
  proof (intro allI impI)
    fix i assume "F' ! i \<noteq> ek_F st ! i"
    with e(3) obtain x where x: "x \<in> set vs" "0 \<le> lid (prev st ! x)" "i = nat (lid (prev st ! x))"
      by blast
    from tree x(1) have tx: "x < nodes g" "reached st x" "nx (prev st) sf x < nodes g"
      "reached st (nx (prev st) sf x)"
      "arc_stat (all_edges g) (edge_enabled st) (prev st) sf tsc x" by blast+
    from tx(5) x(2,3) have a: "i < length (all_edges g)" "edge_enabled st ! i"
      "all_edges g ! i = (if backward (prev st ! x) then (x, nx (prev st) sf x)
                                  else (nx (prev st) sf x, x))"
      by (simp_all add: arc_stat_def)
    have p: "0 < ek_M st ! x" "0 < ek_M st ! nx (prev st) sf x"
      using bfs_inv_reached_pos[OF inv] tx by blast+
    have ne: "nx (prev st) sf x \<noteq> x" using tx(5) by (simp add: arc_stat_def)
    have "fst (all_edges g ! i) \<noteq> snd (all_edges g ! i) \<and>
          0 < ek_M st ! fst (all_edges g ! i) \<and> 0 < ek_M st ! snd (all_edges g ! i)"
      using a(3) p ne by (auto split: if_splits)
    with a x show "i < length (all_edges g) \<and> edge_enabled st ! i \<and>
            (\<exists>x\<in>set vs. 0 \<le> lid (prev st ! x) \<and>
               all_edges g ! i = (if backward (prev st ! x) then (x, nx (prev st) sf x)
                                  else (nx (prev st) sf x, x))) \<and>
            fst (all_edges g ! i) \<noteq> snd (all_edges g ! i) \<and>
            0 < ek_M st ! fst (all_edges g ! i) \<and> 0 < ek_M st ! snd (all_edges g ! i)"
      by blast
  qed
qed

text \<open>The plain search keeps the flow; if it fails, the reached nodes are a closed set.\<close>

lemma plain_search:
  assumes gw: "graph_ok g" and ok: "flow_ok g cap st"
    and a: "a < nodes g" "0 < ek_M st ! a" and b: "b < nodes g" "a \<noteq> b"
    and bfs: "BreadthFirstSearch g cap a b st = Some (m0, st1)"
  shows "flow_ok g cap st1" "ek_F st1 = ek_F st" "edge_enabled st1 = edge_enabled st"
    "st1 = st\<lparr>prev := prev st1, ek_M := ek_M st1, ek_Q := ek_Q st1\<rparr>"
    "\<forall>x<nodes g. 0 < ek_M st ! x \<longrightarrow> 0 < ek_M st1 ! x"
    "0 \<le> m0"
    "bfs_inv g cap a b None UNIV st1"
    "m0 \<noteq> 0 \<longrightarrow> reached st1 b \<and> m0 = ek_M st1 ! b"
    "m0 = 0 \<longrightarrow> closed_set (all_edges g) cap (edge_enabled st) (ek_F st) {x. x < nodes g \<and> reached st1 x} \<and>
         a \<in> {x. x < nodes g \<and> reached st1 x} \<and> b \<notin> {x. x < nodes g \<and> reached st1 x}"
proof -
  from ok have len: "length (prev st) = nodes g" "length (ek_M st) = nodes g"
    by (simp_all add: flow_ok_def)
  note r = BreadthFirstSearch_ok[OF bfs gw len a b]
  show eq: "st1 = st\<lparr>prev := prev st1, ek_M := ek_M st1, ek_Q := ek_Q st1\<rparr>" by (rule r(1))
  show inv: "bfs_inv g cap a b None UNIV st1" by (rule r(2))
  show "0 \<le> m0" by (rule r(4))
  show "m0 \<noteq> 0 \<longrightarrow> reached st1 b \<and> m0 = ek_M st1 ! b" by (rule r(5))
  show F: "ek_F st1 = ek_F st" by (subst eq) simp
  show en: "edge_enabled st1 = edge_enabled st" by (subst eq) simp
  show pos: "\<forall>x<nodes g. 0 < ek_M st ! x \<longrightarrow> 0 < ek_M st1 ! x"
  proof (intro allI impI)
    fix x assume x: "x < nodes g" "0 < ek_M st ! x"
    show "0 < ek_M st1 ! x"
    proof (cases "reached st1 x")
      case True
      then show ?thesis using bfs_inv_reached_pos[OF inv x(1)] by simp
    next
      case False
      with r(3) x(2) show ?thesis by simp
    qed
  qed
  have va: "reached st1 a" using inv by (simp add: bfs_inv_def)
  show "m0 = 0 \<longrightarrow> closed_set (all_edges g) cap (edge_enabled st) (ek_F st) {x. x < nodes g \<and> reached st1 x} \<and>
         a \<in> {x. x < nodes g \<and> reached st1 x} \<and> b \<notin> {x. x < nodes g \<and> reached st1 x}"
    using r(6) va a(1) by simp
  have ends: "\<And>i. i < length (all_edges g) \<Longrightarrow>
      fst (all_edges g ! i) < nodes g \<and> snd (all_edges g ! i) < nodes g"
    using gw by (simp add: graph_ok_def)
  show "flow_ok g cap st1"
    unfolding flow_ok_def F en using ok inv pos ends
    by (simp add: flow_ok_def bfs_inv_def)
qed

text \<open>One augmentation after a plain search that found \<open>b\<close>.\<close>

lemma plain_push:
  assumes gw: "graph_ok g" and ok: "flow_ok g cap st1"
    and inv: "bfs_inv g cap a b None UNIV st1"
    and b: "b < nodes g" "reached st1 b"
    and m: "0 \<le> m" "m \<le> ek_M st1 ! b"
    and stx: "stx = st1\<lparr>ek_f := c\<rparr>"
    and aug: "augment a m b stx = Some st2"
  shows "flow_ok g cap st2" "st2 = stx\<lparr>ek_F := ek_F st2\<rparr>"
    "\<forall>i. \<not> edge_enabled st1 ! i \<longrightarrow> ek_F st2 ! i = ek_F st1 ! i"
    "\<forall>z. excess (all_edges g) (edge_enabled st1) (ek_F st2) z =
           excess (all_edges g) (edge_enabled st1) (ek_F st1) z +
             m * ((if z = b then 1 else 0) - (if z = a then 1 else 0))"
proof -
  have px: "prev stx = prev st1" "ek_F stx = ek_F st1" by (simp_all add: stx)
  from augment_walk[OF aug, of a] obtain vs where
    w: "walk (nx (prev st1) a) a b vs" and real: "\<forall>x\<in>set vs. 0 \<le> lid (prev st1 ! x)"
    and st2: "st2 = stx\<lparr>ek_F := fold (apply_step (prev st1) m) vs (ek_F st1)\<rparr>"
    unfolding px by blast
  define F' where "F' = fold (apply_step (prev st1) m) vs (ek_F st1)"
  have F2: "ek_F st2 = F'" by (simp add: st2 F'_def)
  from ok have len: "length (ek_F st1) = length (all_edges g)"
    and feas: "\<forall>i<length (all_edges g). edge_enabled st1 ! i \<longrightarrow> 0 \<le> ek_F st1 ! i \<and> ek_F st1 ! i \<le> cap ! i"
    by (simp_all add: flow_ok_def)
  note p = walk_push[OF w inv _ b m len feas F'_def, of a]
  have nov: "filter (\<lambda>x. lid (prev st1 ! x) < 0) vs = []"
    using real by (auto simp: filter_empty_conv)
  show "st2 = stx\<lparr>ek_F := ek_F st2\<rparr>" by (simp add: st2)
  show "\<forall>i. \<not> edge_enabled st1 ! i \<longrightarrow> ek_F st2 ! i = ek_F st1 ! i"
    unfolding F2 using p(3) by blast
  show "\<forall>z. excess (all_edges g) (edge_enabled st1) (ek_F st2) z =
           excess (all_edges g) (edge_enabled st1) (ek_F st1) z +
             m * ((if z = b then 1 else 0) - (if z = a then 1 else 0))"
    unfolding F2 using p(4) by (simp add: nov)
  have fields: "prev st2 = prev st1" "ek_M st2 = ek_M st1" "edge_enabled st2 = edge_enabled st1"
    by (simp_all add: st2 stx)
  have pos: "\<forall>i<length (all_edges g). F' ! i \<noteq> 0 \<longrightarrow>
          fst (all_edges g ! i) \<noteq> snd (all_edges g ! i) \<and>
          0 < ek_M st1 ! fst (all_edges g ! i) \<and> 0 < ek_M st1 ! snd (all_edges g ! i)"
  proof (intro allI impI)
    fix i assume i: "i < length (all_edges g)" "F' ! i \<noteq> 0"
    show "fst (all_edges g ! i) \<noteq> snd (all_edges g ! i) \<and>
          0 < ek_M st1 ! fst (all_edges g ! i) \<and> 0 < ek_M st1 ! snd (all_edges g ! i)"
    proof (cases "F' ! i = ek_F st1 ! i")
      case True
      with i ok show ?thesis by (simp add: flow_ok_def)
    next
      case False
      with p(3) show ?thesis by blast
    qed
  qed
  show "flow_ok g cap st2"
    unfolding flow_ok_def fields F2 using ok p(1,2) pos by (simp add: flow_ok_def)
qed

lemma flow_shape_push:
  assumes "flow_shape E en F s t val u v r"
    and "\<forall>z. excess E en F' z = excess E en F z + m * ((if z = t then 1 else 0) - (if z = s then 1 else 0))"
  shows "flow_shape E en F' s t (val + m) u v r"
  unfolding flow_shape_def
proof
  fix x
  from assms(1)[unfolded flow_shape_def, rule_format, of x] assms(2)[rule_format, of x]
  show "excess E en F' x =
        r * ((if x = u then 1 else 0) - (if x = v then 1 else 0)) +
        (val + m) * ((if x = t then 1 else 0) - (if x = s then 1 else 0))"
    by (simp add: algebra_simps)
qed

lemma flow_shape_reroute:
  assumes "flow_shape E en F s t val u v r"
    and "\<forall>z. excess E en F' z = excess E en F z + m * ((if z = v then 1 else 0) - (if z = u then 1 else 0))"
  shows "flow_shape E en F' s t val u v (r - m)"
  unfolding flow_shape_def
proof
  fix x
  from assms(1)[unfolded flow_shape_def, rule_format, of x] assms(2)[rule_format, of x]
  show "excess E en F' x =
        (r - m) * ((if x = u then 1 else 0) - (if x = v then 1 else 0)) +
        val * ((if x = t then 1 else 0) - (if x = s then 1 else 0))"
    by (simp add: algebra_simps)
qed

text \<open>\<open>maxFlow_p(s, t)\<close> keeps the engine's invariant and does not lower the value of the flow.\<close>

lemma maxFlow_p_ok:
  assumes "maxFlow_p g cap s t st = Some r"
    and "graph_ok g" and "flow_ok g cap st"
    and "s < nodes g" and "0 < ek_M st ! s" and "t < nodes g" and "s \<noteq> t"
    and "flow_shape (all_edges g) (edge_enabled st) (ek_F st) s t val u v w"
  shows "flow_ok g cap (snd r) \<and> edge_enabled (snd r) = edge_enabled st \<and>
         (\<forall>i. \<not> edge_enabled st ! i \<longrightarrow> ek_F (snd r) ! i = ek_F st ! i) \<and>
         (\<forall>x<nodes g. 0 < ek_M st ! x \<longrightarrow> 0 < ek_M (snd r) ! x) \<and>
         (\<exists>val'\<ge>val. flow_shape (all_edges g) (edge_enabled st) (ek_F (snd r)) s t val' u v w)"
  using assms
proof (induction g cap s t st r arbitrary: val rule: maxFlow_p.raw_induct[rotated 1, consumes 1])
  case (1 mfp g cap s t st r)
  from 1(2) obtain m0 st1 where bfs: "BreadthFirstSearch g cap s t st = Some (m0, st1)"
    by (auto split: option.splits)
  note se = plain_search[OF 1(3) 1(4) 1(5) 1(6) 1(7) 1(8) bfs]
  show ?case
  proof (cases "m0 = 0")
    case True
    with 1(2) bfs have r: "r = (ek_f st1, st1)" by simp
    have "flow_shape (all_edges g) (edge_enabled st) (ek_F (snd r)) s t val u v w"
      using 1(9) by (simp add: r se(2))
    then show ?thesis using se(1,3,5) by (auto simp: r se(2))
  next
    case False
    define stx where "stx = st1\<lparr>ek_f := ek_f st1 + m0\<rparr>"
    from 1(2) bfs False obtain st2 where aug: "augment s m0 t stx = Some st2"
      and rec: "mfp g cap s t st2 = Some r"
      by (auto simp: stx_def split: option.splits)
    from se(8) False have vb: "reached st1 t" "m0 = ek_M st1 ! t" by simp_all
    have m0: "0 \<le> m0" "m0 \<le> ek_M st1 ! t" using se(6) vb(2) by simp_all
    note pu = plain_push[OF 1(3) se(1) se(7) 1(7) vb(1) m0 stx_def aug]
    have en2: "edge_enabled st2 = edge_enabled st"
      by (subst pu(2)) (simp add: stx_def se(3))
    have M2: "ek_M st2 = ek_M st1" by (subst pu(2)) (simp add: stx_def)
    have pos2: "\<forall>x<nodes g. 0 < ek_M st ! x \<longrightarrow> 0 < ek_M st2 ! x"
      using se(5) by (simp add: M2)
    have sh2: "flow_shape (all_edges g) (edge_enabled st2) (ek_F st2) s t (val + m0) u v w"
      unfolding en2 using flow_shape_push[OF 1(9)] pu(4) by (simp add: se(2,3))
    from 1(1)[OF rec 1(3) pu(1) 1(5) _ 1(7) 1(8) sh2] pos2 1(5,6)
    have ih: "flow_ok g cap (snd r)" "edge_enabled (snd r) = edge_enabled st2"
      "\<forall>i. \<not> edge_enabled st2 ! i \<longrightarrow> ek_F (snd r) ! i = ek_F st2 ! i"
      "\<forall>x<nodes g. 0 < ek_M st2 ! x \<longrightarrow> 0 < ek_M (snd r) ! x"
      "\<exists>val'\<ge>val + m0. flow_shape (all_edges g) (edge_enabled st2) (ek_F (snd r)) s t val' u v w"
      by blast+
    have a: "\<forall>i. \<not> edge_enabled st ! i \<longrightarrow> ek_F (snd r) ! i = ek_F st ! i"
      using ih(3) pu(3) by (simp add: en2 se(2,3))
    have b: "\<forall>x<nodes g. 0 < ek_M st ! x \<longrightarrow> 0 < ek_M (snd r) ! x"
      using ih(4) pos2 by blast
    have c: "\<exists>val'\<ge>val. flow_shape (all_edges g) (edge_enabled st) (ek_F (snd r)) s t val' u v w"
    proof -
      from ih(5) obtain val' where "val + m0 \<le> val'"
        "flow_shape (all_edges g) (edge_enabled st) (ek_F (snd r)) s t val' u v w"
        unfolding en2 by blast
      with m0(1) show ?thesis by (intro exI[of _ val']) simp
    qed
    from ih(1,2) a b c show ?thesis by (simp add: en2)
  qed
qed

text \<open>
  \<open>maxFlow_residual(a, b, bound)\<close> moves up to \<open>bound\<close> units from \<open>a\<close> to \<open>b\<close>; if it stops
  short, a closed set holds \<open>a\<close> and not \<open>b\<close>.
\<close>

lemma maxFlow_residual_loop_ok:
  assumes "maxFlow_residual_loop g cap a b bound new_flow st = Some r"
    and "graph_ok g" and "flow_ok g cap st"
    and "a < nodes g" and "0 < ek_M st ! a" and "b < nodes g" and "a \<noteq> b"
    and "flow_shape (all_edges g) (edge_enabled st) (ek_F st) s t val a b (bound - new_flow)"
    and "new_flow \<le> bound" and "0 \<le> new_flow"
  shows "flow_ok g cap (snd r) \<and> edge_enabled (snd r) = edge_enabled st \<and>
         (\<forall>i. \<not> edge_enabled st ! i \<longrightarrow> ek_F (snd r) ! i = ek_F st ! i) \<and>
         (\<forall>x<nodes g. 0 < ek_M st ! x \<longrightarrow> 0 < ek_M (snd r) ! x) \<and>
         new_flow \<le> fst r \<and> fst r \<le> bound \<and>
         flow_shape (all_edges g) (edge_enabled st) (ek_F (snd r)) s t val a b (bound - fst r) \<and>
         (fst r < bound \<longrightarrow>
            (\<exists>R. R \<subseteq> {..<nodes g} \<and>
                 closed_set (all_edges g) cap (edge_enabled st) (ek_F (snd r)) R \<and> a \<in> R \<and> b \<notin> R))"
  using assms
proof (induction g cap a b bound new_flow st r rule: maxFlow_residual_loop.raw_induct[rotated 1, consumes 1])
  case (1 mfr g cap a b bound new_flow st r)
  from 1(2) obtain r0 where bfs0: "BreadthFirstSearch g cap a b st = Some r0"
    by (auto split: option.splits)
  define m0 where "m0 = fst r0"
  define st1 where "st1 = snd r0"
  have bfs: "BreadthFirstSearch g cap a b st = Some (m0, st1)" by (simp add: bfs0 m0_def st1_def)
  note se = plain_search[OF 1(3) 1(4) 1(5) 1(6) 1(7) 1(8) bfs]
  define m where "m = (if bound \<ge> 0 \<and> new_flow + m0 > bound then bound - new_flow else m0)"
  from 1(2) have "(let m = (if bound \<ge> 0 \<and> new_flow + fst r0 > bound then bound - new_flow else fst r0)
           in if m \<le> 0 then Some (new_flow, snd r0)
              else
                (case augment a m b (snd r0) of
                   None \<Rightarrow> None
                 | Some st2 \<Rightarrow> mfr g cap a b bound (new_flow + m) st2)) = Some r"
    by (simp add: bfs0)
  then have body: "(if m \<le> 0 then Some (new_flow, st1)
              else
                (case augment a m b st1 of
                   None \<Rightarrow> None
                 | Some st2 \<Rightarrow> mfr g cap a b bound (new_flow + m) st2)) = Some r"
    by (simp only: Let_def m_def m0_def st1_def)
  show ?case
  proof (cases "m \<le> 0")
    case True
    with body have r: "r = (new_flow, st1)" by simp
    have sh: "flow_shape (all_edges g) (edge_enabled st) (ek_F (snd r)) s t val a b (bound - fst r)"
      using 1(9) by (simp add: r se(2))
    have cert: "fst r < bound \<longrightarrow>
            (\<exists>R. R \<subseteq> {..<nodes g} \<and>
                 closed_set (all_edges g) cap (edge_enabled st) (ek_F (snd r)) R \<and> a \<in> R \<and> b \<notin> R)"
    proof
      assume "fst r < bound"
      then have lt: "new_flow < bound" by (simp add: r)
      with True se(6) have "m0 = 0" by (auto simp: m_def split: if_splits)
      with se(9) show "\<exists>R. R \<subseteq> {..<nodes g} \<and>
                 closed_set (all_edges g) cap (edge_enabled st) (ek_F (snd r)) R \<and> a \<in> R \<and> b \<notin> R"
        by (intro exI[of _ "{x. x < nodes g \<and> reached st1 x}"]) (auto simp: r se(2))
    qed
    show ?thesis using se(1,3,5) sh cert 1(10) by (auto simp: r se(2))
  next
    case False
    then have mpos: "0 < m" by simp
    from body False obtain st2 where aug: "augment a m b st1 = Some st2"
      and rec: "mfr g cap a b bound (new_flow + m) st2 = Some r"
      by (auto split: option.splits)
    have mm: "m \<le> m0" using 1(10) by (auto simp: m_def)
    with mpos have "m0 \<noteq> 0" by auto
    with se(8) have vb: "reached st1 b" "m0 = ek_M st1 ! b" by simp_all
    have m0: "0 \<le> m" "m \<le> ek_M st1 ! b" using mpos mm vb(2) by simp_all
    have stx: "st1 = st1\<lparr>ek_f := ek_f st1\<rparr>" by simp
    note pu = plain_push[OF 1(3) se(1) se(7) 1(7) vb(1) m0 stx aug]
    have en2: "edge_enabled st2 = edge_enabled st"
      by (subst pu(2)) (simp add: se(3))
    have M2: "ek_M st2 = ek_M st1" by (subst pu(2)) simp
    have pos2: "\<forall>x<nodes g. 0 < ek_M st ! x \<longrightarrow> 0 < ek_M st2 ! x"
      using se(5) by (simp add: M2)
    have sh2: "flow_shape (all_edges g) (edge_enabled st2) (ek_F st2) s t val a b (bound - (new_flow + m))"
      unfolding en2 using flow_shape_reroute[OF 1(9)] pu(4) by (simp add: se(2,3) algebra_simps)
    have le2: "new_flow + m \<le> bound" using 1(10,11) mpos by (auto simp: m_def split: if_splits)
    have ge2: "0 \<le> new_flow + m" using 1(11) mpos by simp
    from 1(1)[OF rec 1(3) pu(1) 1(5) _ 1(7) 1(8) sh2 le2 ge2] pos2 1(5,6)
    have ih: "flow_ok g cap (snd r)" "edge_enabled (snd r) = edge_enabled st2"
      "\<forall>i. \<not> edge_enabled st2 ! i \<longrightarrow> ek_F (snd r) ! i = ek_F st2 ! i"
      "\<forall>x<nodes g. 0 < ek_M st2 ! x \<longrightarrow> 0 < ek_M (snd r) ! x"
      "new_flow + m \<le> fst r" "fst r \<le> bound"
      "flow_shape (all_edges g) (edge_enabled st2) (ek_F (snd r)) s t val a b (bound - fst r)"
      "fst r < bound \<longrightarrow>
            (\<exists>R. R \<subseteq> {..<nodes g} \<and>
                 closed_set (all_edges g) cap (edge_enabled st2) (ek_F (snd r)) R \<and> a \<in> R \<and> b \<notin> R)"
      by blast+
    have x: "\<forall>i. \<not> edge_enabled st ! i \<longrightarrow> ek_F (snd r) ! i = ek_F st ! i"
      using ih(3) pu(3) by (simp add: en2 se(2,3))
    have y: "\<forall>x<nodes g. 0 < ek_M st ! x \<longrightarrow> 0 < ek_M (snd r) ! x"
      using ih(4) pos2 by blast
    from ih(1,2,5,6,7,8) x y mpos show ?thesis by (simp add: en2)
  qed
qed

lemma bfs_inv_mono:
  assumes "bfs_inv g cap root t sc A st" "A \<subseteq> B"
  shows "bfs_inv g cap root t sc B st"
  using assms unfolding bfs_inv_def by blast

lemma sc_closed_ext:
  assumes "bfs_ext t a st st'" "sc_closed g cap sf tsc st x"
  shows "sc_closed g cap sf tsc st' x"
  using assms node_closed_ext[OF assms(1)] bfs_ext_reached[OF assms(1)]
  unfolding sc_closed_def by blast

text \<open>The shortcut arc, tried when \<open>shortCircuitFrom\<close> is taken from the queue.\<close>

lemma bfs_shortcut_ok:
  assumes inv: "bfs_inv g cap root t (Some (sf, tsc)) UNIV st"
    and u: "u = sf" "u < nodes g" "reached st u"
    and c: "0 < c - scFlow" and tsc: "tsc < nodes g" "\<not> reached st tsc"
  shows "bfs_inv g cap root t (Some (sf, tsc)) UNIV (snd (bfs_shortcut t u sf tsc c scFlow st))"
    "bfs_ext t (fst (bfs_shortcut t u sf tsc c scFlow st)) st (snd (bfs_shortcut t u sf tsc c scFlow st))"
    "reached (snd (bfs_shortcut t u sf tsc c scFlow st)) tsc"
proof -
  define p where "p = \<lparr>lfrom = int u, lid = -1, backward = False\<rparr>"
  define b where "b = c - scFlow"
  define st1 where "st1 = st\<lparr>prev := (prev st)[tsc := p], ek_M := (ek_M st)[tsc := min (ek_M st ! u) b]\<rparr>"
  define st2 where "st2 = (if tsc \<noteq> t then st1\<lparr>ek_Q := ek_Q st1 @ [tsc]\<rparr> else st1)"
  have arc: "arc_from g cap (Some (sf, tsc)) st u tsc p b"
    using u(1) by (simp add: arc_from_def p_def)
  have b0: "0 < b" using c by (simp add: b_def)
  from discover_ok[OF inv u(2,3) tsc UNIV_I b0 arc st1_def st2_def]
  have d: "bfs_inv g cap root t (Some (sf, tsc)) UNIV st2" "bfs_ext t (tsc = t) st st2" by blast+
  have eq: "bfs_shortcut t u sf tsc c scFlow st = (tsc = t, st2)"
    using u(1) c by (simp add: bfs_shortcut_def Let_def st2_def st1_def p_def b_def)
  have len: "length (prev st) = nodes g" using inv by (simp add: bfs_inv_def)
  have v: "reached st2 tsc"
    using tsc(1) len by (simp add: reached_def st2_def st1_def p_def)
  show "bfs_inv g cap root t (Some (sf, tsc)) UNIV (snd (bfs_shortcut t u sf tsc c scFlow st))"
    "bfs_ext t (fst (bfs_shortcut t u sf tsc c scFlow st)) st (snd (bfs_shortcut t u sf tsc c scFlow st))"
    "reached (snd (bfs_shortcut t u sf tsc c scFlow st)) tsc"
    unfolding eq using d v by simp_all
qed

lemma bfs_shortcut_other:
  assumes "u \<noteq> sf"
  shows "bfs_shortcut t u sf tsc c scFlow st = (False, st)"
  using assms by (simp add: bfs_shortcut_def)

lemma take_Suc_queue:
  assumes "j < length q"
  shows "set (take (j + 1) (q @ new)) = insert (q ! j) (set (take j q))"
  using assms by (simp add: take_Suc_conv_app_nth)

text \<open>The loop over the queue of the search with the shortcut arc.\<close>

lemma bfs_queue_sc_ok:
  assumes "bfs_queue_sc g cap t sf tsc c scFlow j st = Some r"
    and "graph_ok g" and "0 < c - scFlow" and "tsc < nodes g"
    and "closed_set (all_edges g) cap (edge_enabled st) (ek_F st) R" and "tsc \<notin> R"
    and "bfs_inv g cap root t (Some (sf, tsc)) (if sf \<in> set (take j (ek_Q st)) then UNIV else R) st"
    and "j \<le> length (ek_Q st)"
    and "\<not> reached st t"
    and "\<forall>k<j. sc_closed g cap sf tsc st (ek_Q st ! k)"
    and "t < nodes g"
  shows "bfs_inv g cap root t (Some (sf, tsc)) UNIV (snd r) \<and> bfs_frame st (snd r) \<and>
         (fst r \<noteq> 0 \<longrightarrow> reached (snd r) t \<and> fst r = ek_M (snd r) ! t) \<and>
         (fst r = 0 \<longrightarrow> \<not> reached (snd r) t \<and>
            (\<forall>x\<in>set (ek_Q (snd r)). sc_closed g cap sf tsc (snd r) x))"
  using assms
proof (induction g cap t sf tsc c scFlow j st r rule: bfs_queue_sc.raw_induct[rotated 1, consumes 1])
  case (1 bq g cap t sf tsc c scFlow j st r)
  let ?A = "if sf \<in> set (take j (ek_Q st)) then UNIV else R"
  have invU: "bfs_inv g cap root t (Some (sf, tsc)) UNIV st"
    by (rule bfs_inv_mono[OF 1(8)]) simp
  show ?case
  proof (cases "j < length (ek_Q st)")
    case False
    with 1(2) have r: "r = (0, st)" by simp
    have "\<forall>x\<in>set (ek_Q st). sc_closed g cap sf tsc st x"
    proof
      fix x assume "x \<in> set (ek_Q st)"
      then obtain k where "k < length (ek_Q st)" "ek_Q st ! k = x" by (auto simp: in_set_conv_nth)
      with 1(11) False 1(9) show "sc_closed g cap sf tsc st x" by auto
    qed
    with invU 1(10) show ?thesis by (simp add: r bfs_frame_refl)
  next
    case True
    define u where "u = ek_Q st ! j"
    define r0 where "r0 = bfs_shortcut t u sf tsc c scFlow st"
    define r1 where "r1 = bfs_incident cap t u (incident g u) (snd r0)"
    define r2 where "r2 = bfs_incoming t u (incoming g u) (snd r1)"
    have body: "(if fst r0 then Some (ek_M (snd r0) ! t, snd r0)
            else if fst r1 then Some (ek_M (snd r1) ! t, snd r1)
            else if fst r2 then Some (ek_M (snd r2) ! t, snd r2)
            else bq g cap t sf tsc c scFlow (j + 1) (snd r2)) = Some r"
      using 1(2) True unfolding r0_def r1_def r2_def u_def Let_def by (simp only: if_True)
    have uq: "u \<in> set (ek_Q st)" using True by (simp add: u_def)
    with 1(8) have u: "u < nodes g" "reached st u" "u \<in> ?A"
      unfolding bfs_inv_def by blast+
    have dq: "distinct (ek_Q st)" using 1(8) by (simp add: bfs_inv_def)
    have unot: "u \<notin> set (take j (ek_Q st))"
    proof
      assume "u \<in> set (take j (ek_Q st))"
      then obtain k where k: "k < j" "ek_Q st ! k = u"
        using True by (auto simp: in_set_conv_nth)
      with dq True show False unfolding u_def
        by (metis nth_eq_iff_index_eq less_trans nat_neq_iff)
    qed
    define A' where "A' = (if u = sf then UNIV else ?A)"
    have step0: "bfs_inv g cap root t (Some (sf, tsc)) A' (snd r0) \<and> bfs_ext t (fst r0) st (snd r0) \<and>
                 (u = sf \<longrightarrow> reached (snd r0) tsc)"
    proof (cases "u = sf")
      case True
      with unot have "?A = R" by simp
      with 1(8) 1(5) 1(7) have nv: "\<not> reached st tsc" unfolding bfs_inv_def by auto
      from bfs_shortcut_ok[OF invU True u(1,2) 1(4) 1(5) nv] True
      show ?thesis by (simp add: A'_def r0_def)
    next
      case False
      then show ?thesis using 1(8) by (simp add: A'_def r0_def bfs_shortcut_other bfs_ext_refl)
    qed
    then have inv0: "bfs_inv g cap root t (Some (sf, tsc)) A' (snd r0)"
      and ext0: "bfs_ext t (fst r0) st (snd r0)"
      and vt0: "u = sf \<longrightarrow> reached (snd r0) tsc" by blast+
    note fr0 = bfs_ext_frame[OF ext0]
    have uA: "u \<in> A'" using u(3) by (simp add: A'_def)
    have clA: "closed_set (all_edges g) cap (edge_enabled (snd r0)) (ek_F (snd r0)) A'"
      using 1(6) by (simp add: A'_def fr0 closed_set_UNIV)
    note turn = bfs_turn_ok[OF 1(3) inv0 u(1) bfs_ext_reached[OF ext0 u(2)] uA clA r1_def r2_def]
    have ext1: "bfs_ext t (fst r0 \<or> fst r1) st (snd r1)" by (rule bfs_ext_trans[OF ext0 turn(2)])
    have ext2: "bfs_ext t (fst r0 \<or> (fst r1 \<or> fst r2)) st (snd r2)"
      by (rule bfs_ext_trans[OF ext0 turn(4)])
    have found: "bfs_inv g cap root t (Some (sf, tsc)) UNIV (snd r) \<and> bfs_frame st (snd r) \<and>
         (fst r \<noteq> 0 \<longrightarrow> reached (snd r) t \<and> fst r = ek_M (snd r) ! t) \<and>
         (fst r = 0 \<longrightarrow> \<not> reached (snd r) t \<and>
            (\<forall>x\<in>set (ek_Q (snd r)). sc_closed g cap sf tsc (snd r) x))"
      if r: "r = (ek_M st' ! t, st')" and i: "bfs_inv g cap root t (Some (sf, tsc)) A' st'"
        and e: "bfs_ext t True st st'" for st'
    proof -
      have iu: "bfs_inv g cap root t (Some (sf, tsc)) UNIV st'" by (rule bfs_inv_mono[OF i]) simp
      have vt: "reached st' t" using bfs_ext_found[OF e] by simp
      have "0 < ek_M st' ! t" by (rule bfs_inv_reached_pos[OF iu 1(12) vt])
      with iu vt bfs_ext_weaken[OF e] show ?thesis by (simp add: r)
    qed
    show ?thesis
    proof (cases "fst r0")
      case True
      with body have r: "r = (ek_M (snd r0) ! t, snd r0)" by simp
      from found[OF r inv0] ext0 True show ?thesis by simp
    next
      case f0: False
      show ?thesis
      proof (cases "fst r1")
        case True
        with body f0 have r: "r = (ek_M (snd r1) ! t, snd r1)" by simp
        from found[OF r turn(1)] ext1 True show ?thesis by simp
      next
        case f1: False
        show ?thesis
        proof (cases "fst r2")
          case True
          with body f0 f1 have r: "r = (ek_M (snd r2) ! t, snd r2)" by simp
          from found[OF r turn(3)] ext2 True show ?thesis by simp
        next
          case f2: False
          with body f0 f1 have rec: "bq g cap t sf tsc c scFlow (j + 1) (snd r2) = Some r" by simp
          have e2: "bfs_ext t False st (snd r2)" using ext2 f0 f1 f2 by simp
          note fr2 = bfs_ext_frame[OF e2]
          obtain new where Q2: "ek_Q (snd r2) = ek_Q st @ new"
            using e2 unfolding bfs_ext_def by blast
          have tk: "set (take (j + 1) (ek_Q (snd r2))) = insert u (set (take j (ek_Q st)))"
            unfolding Q2 u_def by (rule take_Suc_queue[OF \<open>j < length (ek_Q st)\<close>])
          have A2: "(if sf \<in> set (take (j + 1) (ek_Q (snd r2))) then UNIV else R) = A'"
            unfolding tk A'_def by auto
          have cl2: "closed_set (all_edges g) cap (edge_enabled (snd r2)) (ek_F (snd r2)) R"
            using 1(6) by (simp add: fr2)
          have inv2: "bfs_inv g cap root t (Some (sf, tsc))
                        (if sf \<in> set (take (j + 1) (ek_Q (snd r2))) then UNIV else R) (snd r2)"
            unfolding A2 by (rule turn(3))
          have j2: "j + 1 \<le> length (ek_Q (snd r2))" using True by (simp add: Q2)
          have nt2: "\<not> reached (snd r2) t" by (rule bfs_ext_not_found[OF e2 1(10)])
          have cl: "\<forall>k<j + 1. sc_closed g cap sf tsc (snd r2) (ek_Q (snd r2) ! k)"
          proof (intro allI impI)
            fix k assume k: "k < j + 1"
            show "sc_closed g cap sf tsc (snd r2) (ek_Q (snd r2) ! k)"
            proof (cases "k = j")
              case True
              have qk: "ek_Q (snd r2) ! k = u"
                using \<open>j < length (ek_Q st)\<close> by (simp add: Q2 True u_def nth_append)
              have "node_closed g cap (snd r2) u" using turn(5) f1 f2 by simp
              moreover have "u = sf \<longrightarrow> reached (snd r2) tsc"
                using vt0 bfs_ext_reached[OF turn(4)] by blast
              ultimately show ?thesis by (simp add: qk sc_closed_def)
            next
              case False
              with k have kj: "k < j" by simp
              then have kl: "k < length (ek_Q st)" using \<open>j < length (ek_Q st)\<close> by simp
              from 1(11) kj have "sc_closed g cap sf tsc st (ek_Q st ! k)" by blast
              then show ?thesis using sc_closed_ext[OF e2] bfs_ext_queue(1)[OF e2 kl] by simp
            qed
          qed
          from 1(1)[OF rec 1(3) 1(4) 1(5) cl2 1(7) inv2 j2 nt2 cl 1(12)]
          have ih: "bfs_inv g cap root t (Some (sf, tsc)) UNIV (snd r)" "bfs_frame (snd r2) (snd r)"
            "fst r \<noteq> 0 \<longrightarrow> reached (snd r) t \<and> fst r = ek_M (snd r) ! t"
            "fst r = 0 \<longrightarrow> \<not> reached (snd r) t \<and>
               (\<forall>x\<in>set (ek_Q (snd r)). sc_closed g cap sf tsc (snd r) x)"
            by blast+
          have "bfs_frame st (snd r)"
            by (rule bfs_frame_trans[OF bfs_ext_weaken[OF e2] ih(2)])
          with ih show ?thesis by blast
        qed
      qed
    qed
  qed
qed

lemma walk_all_in:
  assumes "walk f s v vs" and "s \<in> R"
    and "\<forall>x\<in>set vs. f x \<in> R \<longrightarrow> x \<in> R"
  shows "\<forall>x\<in>set vs. x \<in> R \<and> f x \<in> R"
  using assms
proof (induction rule: walk.induct)
  case walk_root
  show ?case by simp
next
  case (walk_step v vs)
  from walk_step.IH walk_step.prems have ih: "\<forall>x\<in>set vs. x \<in> R \<and> f x \<in> R" by simp
  have "f v \<in> R"
    using walk_head[OF walk_step.hyps(2)] walk_step.prems(1) ih by auto
  with walk_step.prems(2) have "v \<in> R" by simp
  with \<open>f v \<in> R\<close> ih show ?case by simp
qed

lemma walk_sides:
  assumes "walk f s v vs" and "v \<notin> R" and "s \<in> R"
    and "\<forall>x\<in>set vs. P x \<longrightarrow> (f x \<in> R \<longrightarrow> x \<in> R)"
    and "\<forall>x\<in>set vs. \<not> P x \<longrightarrow> x = c"
  shows "\<forall>x\<in>set vs. P x \<longrightarrow> (x \<in> R \<longleftrightarrow> f x \<in> R)"
  using assms
proof (induction rule: walk.induct)
  case walk_root
  show ?case by simp
next
  case (walk_step v vs)
  have wv: "walk f s v (v # vs)" using walk_step.hyps by (rule walk.walk_step)
  have dv: "v \<notin> set vs" using walk_distinct[OF wv] by simp
  show ?case
  proof (cases "P v")
    case True
    with walk_step.prems(1,3) have fv: "f v \<notin> R" by auto
    from walk_step.IH[OF fv walk_step.prems(2)] walk_step.prems(3,4)
    have "\<forall>x\<in>set vs. P x \<longrightarrow> (x \<in> R \<longleftrightarrow> f x \<in> R)" by simp
    with fv walk_step.prems(1) show ?thesis by simp
  next
    case False
    with walk_step.prems(4) have vc: "v = c" by simp
    have allP: "\<forall>x\<in>set vs. P x" using walk_step.prems(4) dv vc by auto
    with walk_step.prems(3) have "\<forall>x\<in>set vs. f x \<in> R \<longrightarrow> x \<in> R" by simp
    from walk_all_in[OF walk_step.hyps(2) walk_step.prems(2) this]
    show ?thesis using False by simp
  qed
qed

lemma filter_le_one:
  assumes "distinct vs" "\<forall>x\<in>set vs. P x \<longrightarrow> x = c"
  shows "length (filter P vs) \<le> 1"
proof -
  have d: "distinct (filter P vs)" using assms(1) by simp
  have "set (filter P vs) \<subseteq> {c}" using assms(2) by auto
  then have "card (set (filter P vs)) \<le> card {c}" by (intro card_mono) simp_all
  with distinct_card[OF d] show ?thesis by simp
qed

lemma flow_shape_sc:
  assumes "flow_shape E en F s t val u v r"
    and "\<forall>z. excess E en F' z = excess E en F z + m * ((if z = v then 1 else 0) - (if z = u then 1 else 0))
               - m * k * ((if z = t then 1 else 0) - (if z = s then 1 else 0))"
  shows "flow_shape E en F' s t (val - m * k) u v (r - m)"
  unfolding flow_shape_def
proof
  fix x
  from assms(1)[unfolded flow_shape_def, rule_format, of x] assms(2)[rule_format, of x]
  show "excess E en F' x =
        (r - m) * ((if x = u then 1 else 0) - (if x = v then 1 else 0)) +
        (val - m * k) * ((if x = t then 1 else 0) - (if x = s then 1 else 0))"
    by (simp add: algebra_simps)
qed

text \<open>The search with the shortcut arc from \<open>sf\<close> to \<open>tsc\<close>, started inside a closed set.\<close>

lemma sc_search:
  assumes gw: "graph_ok g" and ok: "flow_ok g cap st"
    and a: "a < nodes g" "0 < ek_M st ! a" and b: "b < nodes g" "a \<noteq> b"
    and tsc: "tsc < nodes g" and c: "0 < c - scFlow"
    and cert: "closed_set (all_edges g) cap (edge_enabled st) (ek_F st) R" "a \<in> R" "tsc \<notin> R"
    and bfs: "BreadthFirstSearch_sc g cap a b sf tsc c scFlow st = Some (m0, st1)"
  shows "flow_ok g cap st1" "ek_F st1 = ek_F st" "edge_enabled st1 = edge_enabled st"
    "st1 = st\<lparr>prev := prev st1, ek_M := ek_M st1, ek_Q := ek_Q st1\<rparr>"
    "\<forall>x<nodes g. 0 < ek_M st ! x \<longrightarrow> 0 < ek_M st1 ! x"
    "0 \<le> m0"
    "bfs_inv g cap a b (Some (sf, tsc)) UNIV st1"
    "m0 \<noteq> 0 \<longrightarrow> reached st1 b \<and> m0 = ek_M st1 ! b"
    "m0 = 0 \<longrightarrow> closed_set (all_edges g) cap (edge_enabled st) (ek_F st) {x. x < nodes g \<and> reached st1 x} \<and>
         a \<in> {x. x < nodes g \<and> reached st1 x} \<and> b \<notin> {x. x < nodes g \<and> reached st1 x} \<and>
         (sf \<in> {x. x < nodes g \<and> reached st1 x} \<longrightarrow> tsc \<in> {x. x < nodes g \<and> reached st1 x})"
proof -
  from ok have len: "length (prev st) = nodes g" "length (ek_M st) = nodes g"
    by (simp_all add: flow_ok_def)
  define st0 where "st0 = st\<lparr>prev := (reset_prev (nodes g) (prev st))[a := (reset_prev (nodes g) (prev st) ! a)\<lparr>lfrom := -2\<rparr>],
                       ek_Q := [a]\<rparr>"
  from bfs_start_inv[where cap = cap and t = b and sc = "Some (sf, tsc)", OF len a cert(2) st0_def]
  have start: "bfs_inv g cap a b (Some (sf, tsc)) R st0" "\<forall>x<nodes g. reached st0 x \<longleftrightarrow> x = a"
    "ek_M st0 = ek_M st" "ek_F st0 = ek_F st" "edge_enabled st0 = edge_enabled st"
    "st0 = st\<lparr>prev := prev st0, ek_Q := ek_Q st0\<rparr>" by blast+
  from bfs have q: "bfs_queue_sc g cap b sf tsc c scFlow 0 st0 = Some (m0, st1)"
    unfolding BreadthFirstSearch_sc_def Let_def st0_def[symmetric] by simp
  have nt: "\<not> reached st0 b" using start(2) b by auto
  have cl0: "closed_set (all_edges g) cap (edge_enabled st0) (ek_F st0) R"
    using cert(1) by (simp add: start(4,5))
  have inv0: "bfs_inv g cap a b (Some (sf, tsc)) (if sf \<in> set (take 0 (ek_Q st0)) then UNIV else R) st0"
    using start(1) by simp
  from bfs_queue_sc_ok[OF q gw c tsc cl0 cert(3) inv0 _ nt _ b(1)]
  have r: "bfs_inv g cap a b (Some (sf, tsc)) UNIV st1" "bfs_frame st0 st1"
    "m0 \<noteq> 0 \<longrightarrow> reached st1 b \<and> m0 = ek_M st1 ! b"
    "m0 = 0 \<longrightarrow> \<not> reached st1 b \<and> (\<forall>x\<in>set (ek_Q st1). sc_closed g cap sf tsc st1 x)"
    by simp_all
  show inv: "bfs_inv g cap a b (Some (sf, tsc)) UNIV st1" by fact
  show "m0 \<noteq> 0 \<longrightarrow> reached st1 b \<and> m0 = ek_M st1 ! b" by fact
  from r(2) have e: "st1 = st0\<lparr>prev := prev st1, ek_M := ek_M st1, ek_Q := ek_Q st1\<rparr>"
    and un: "\<forall>x. \<not> reached st1 x \<longrightarrow> ek_M st1 ! x = ek_M st0 ! x"
    by (simp_all add: bfs_frame_def)
  show eq: "st1 = st\<lparr>prev := prev st1, ek_M := ek_M st1, ek_Q := ek_Q st1\<rparr>"
    by (subst e, subst start(6)) simp
  show F: "ek_F st1 = ek_F st" by (subst eq) simp
  show en: "edge_enabled st1 = edge_enabled st" by (subst eq) simp
  show pos: "\<forall>x<nodes g. 0 < ek_M st ! x \<longrightarrow> 0 < ek_M st1 ! x"
  proof (intro allI impI)
    fix x assume x: "x < nodes g" "0 < ek_M st ! x"
    show "0 < ek_M st1 ! x"
    proof (cases "reached st1 x")
      case True
      then show ?thesis using bfs_inv_reached_pos[OF inv x(1)] by simp
    next
      case False
      with un x(2) show ?thesis by (simp add: start(3))
    qed
  qed
  show "0 \<le> m0"
  proof (cases "m0 = 0")
    case False
    with r(3) have "reached st1 b" "m0 = ek_M st1 ! b" by simp_all
    with bfs_inv_reached_pos[OF inv b(1)] show ?thesis by simp
  qed simp
  have ends: "\<And>i. i < length (all_edges g) \<Longrightarrow>
      fst (all_edges g ! i) < nodes g \<and> snd (all_edges g ! i) < nodes g"
    using gw by (simp add: graph_ok_def)
  show "flow_ok g cap st1"
    unfolding flow_ok_def F en using ok inv pos ends
    by (simp add: flow_ok_def bfs_inv_def)
  have va: "reached st1 a" using inv by (simp add: bfs_inv_def)
  show "m0 = 0 \<longrightarrow> closed_set (all_edges g) cap (edge_enabled st) (ek_F st) {x. x < nodes g \<and> reached st1 x} \<and>
         a \<in> {x. x < nodes g \<and> reached st1 x} \<and> b \<notin> {x. x < nodes g \<and> reached st1 x} \<and>
         (sf \<in> {x. x < nodes g \<and> reached st1 x} \<longrightarrow> tsc \<in> {x. x < nodes g \<and> reached st1 x})"
  proof
    assume "m0 = 0"
    with r(4) have nvt: "\<not> reached st1 b"
      and cl: "\<forall>x\<in>set (ek_Q st1). sc_closed g cap sf tsc st1 x" by simp_all
    have inQ: "\<And>x. x < nodes g \<Longrightarrow> reached st1 x \<Longrightarrow> sc_closed g cap sf tsc st1 x"
      using inv nvt cl unfolding bfs_inv_def by blast
    have "closed_set (all_edges g) cap (edge_enabled st) (ek_F st) {x. x < nodes g \<and> reached st1 x}"
      unfolding closed_set_def
    proof (intro allI impI conjI)
      fix i assume i: "i < length (all_edges g)" "edge_enabled st ! i"
      note ei = ends[OF i(1)]
      { assume h: "fst (all_edges g ! i) \<in> {x. x < nodes g \<and> reached st1 x} \<and>
                   snd (all_edges g ! i) \<notin> {x. x < nodes g \<and> reached st1 x}"
        then have "node_closed g cap st1 (fst (all_edges g ! i))" using inQ by (simp add: sc_closed_def)
        with h i ei show "cap ! i \<le> ek_F st ! i"
          unfolding node_closed_def F en by (auto dest!: spec[of _ i]) }
      { assume h: "snd (all_edges g ! i) \<in> {x. x < nodes g \<and> reached st1 x} \<and>
                   fst (all_edges g ! i) \<notin> {x. x < nodes g \<and> reached st1 x}"
        then have "node_closed g cap st1 (snd (all_edges g ! i))" using inQ by (simp add: sc_closed_def)
        with h i ei show "ek_F st ! i \<le> 0"
          unfolding node_closed_def F en by (auto dest!: spec[of _ i]) }
    qed
    moreover have "sf \<in> {x. x < nodes g \<and> reached st1 x} \<longrightarrow> tsc \<in> {x. x < nodes g \<and> reached st1 x}"
      using inQ[of sf] tsc by (auto simp: sc_closed_def)
    ultimately show "closed_set (all_edges g) cap (edge_enabled st) (ek_F st) {x. x < nodes g \<and> reached st1 x} \<and>
         a \<in> {x. x < nodes g \<and> reached st1 x} \<and> b \<notin> {x. x < nodes g \<and> reached st1 x} \<and>
         (sf \<in> {x. x < nodes g \<and> reached st1 x} \<longrightarrow> tsc \<in> {x. x < nodes g \<and> reached st1 x})"
      using nvt va a(1) by simp
  qed
qed

text \<open>One augmentation after a search with the shortcut arc; the closed set stays closed.\<close>

lemma sc_push:
  assumes ok: "flow_ok g cap st1"
    and inv: "bfs_inv g cap a b (Some (sf, tsc)) UNIV st1"
    and b: "b < nodes g" "reached st1 b"
    and m: "0 < m" "m \<le> ek_M st1 ! b"
    and aug: "augment_sc a sf m b st1 = Some st2"
    and cert: "closed_set (all_edges g) cap (edge_enabled st1) (ek_F st1) R" "a \<in> R" "b \<notin> R"
  shows "flow_ok g cap st2" "st2 = st1\<lparr>ek_F := ek_F st2\<rparr>"
    "\<forall>i. \<not> edge_enabled st1 ! i \<longrightarrow> ek_F st2 ! i = ek_F st1 ! i"
    "\<exists>k. (k = 0 \<or> k = 1) \<and>
       (\<forall>z. excess (all_edges g) (edge_enabled st1) (ek_F st2) z =
           excess (all_edges g) (edge_enabled st1) (ek_F st1) z +
             m * ((if z = b then 1 else 0) - (if z = a then 1 else 0))
             - m * k * ((if z = tsc then 1 else 0) - (if z = sf then 1 else 0)))"
    "closed_set (all_edges g) cap (edge_enabled st1) (ek_F st2) R"
proof -
  let ?ps = "prev st1"
  let ?f = "nx ?ps sf"
  from augment_sc_walk[OF aug] obtain vs where
    w: "walk ?f a b vs"
    and st2: "st2 = st1\<lparr>ek_F := fold (apply_step ?ps m) vs (ek_F st1)\<rparr>"
    by blast
  define F' where "F' = fold (apply_step ?ps m) vs (ek_F st1)"
  have F2: "ek_F st2 = F'" by (simp add: st2 F'_def)
  from ok have len: "length (ek_F st1) = length (all_edges g)"
    and feas: "\<forall>i<length (all_edges g). edge_enabled st1 ! i \<longrightarrow> 0 \<le> ek_F st1 ! i \<and> ek_F st1 ! i \<le> cap ! i"
    by (simp_all add: flow_ok_def)
  have sc: "Some (sf, tsc) = None \<or> Some (sf, tsc) = Some (sf, tsc)" by simp
  have m0: "0 \<le> m" using m(1) by simp
  note p = walk_push[OF w inv sc b m0 m(2) len feas F'_def]
  note tree = walk_tree[OF w inv sc b m(2)]
  have stat: "\<forall>x\<in>set vs. arc_stat (all_edges g) (edge_enabled st1) ?ps sf tsc x"
    and room: "\<forall>x\<in>set vs. arc_room cap ?ps m (ek_F st1) x"
    using tree by blast+
  have virt: "\<forall>x\<in>set vs. \<not> 0 \<le> lid (?ps ! x) \<longrightarrow> x = tsc"
    using stat by (auto simp: arc_stat_def)
  have virt': "\<forall>x\<in>set vs. lid (?ps ! x) < 0 \<longrightarrow> x = tsc"
    using stat by (auto simp: arc_stat_def)
  have k1: "length (filter (\<lambda>x. lid (?ps ! x) < 0) vs) \<le> 1"
    by (rule filter_le_one[OF walk_distinct[OF w] virt'])
  show "st2 = st1\<lparr>ek_F := ek_F st2\<rparr>" by (simp add: st2)
  show "\<forall>i. \<not> edge_enabled st1 ! i \<longrightarrow> ek_F st2 ! i = ek_F st1 ! i"
    unfolding F2 using p(3) by blast
  show "\<exists>k. (k = 0 \<or> k = 1) \<and>
       (\<forall>z. excess (all_edges g) (edge_enabled st1) (ek_F st2) z =
           excess (all_edges g) (edge_enabled st1) (ek_F st1) z +
             m * ((if z = b then 1 else 0) - (if z = a then 1 else 0))
             - m * k * ((if z = tsc then 1 else 0) - (if z = sf then 1 else 0)))"
  proof (intro exI[of _ "int (length (filter (\<lambda>x. lid (?ps ! x) < 0) vs))"] conjI)
    show "int (length (filter (\<lambda>x. lid (?ps ! x) < 0) vs)) = 0 \<or>
          int (length (filter (\<lambda>x. lid (?ps ! x) < 0) vs)) = 1"
      using k1 by linarith
    show "\<forall>z. excess (all_edges g) (edge_enabled st1) (ek_F st2) z =
           excess (all_edges g) (edge_enabled st1) (ek_F st1) z +
             m * ((if z = b then 1 else 0) - (if z = a then 1 else 0))
             - m * int (length (filter (\<lambda>x. lid (?ps ! x) < 0) vs)) *
                 ((if z = tsc then 1 else 0) - (if z = sf then 1 else 0))"
      unfolding F2 by (rule p(4))
  qed
  have fields: "prev st2 = prev st1" "ek_M st2 = ek_M st1" "edge_enabled st2 = edge_enabled st1"
    by (simp_all add: st2)
  have pos: "\<forall>i<length (all_edges g). F' ! i \<noteq> 0 \<longrightarrow>
          fst (all_edges g ! i) \<noteq> snd (all_edges g ! i) \<and>
          0 < ek_M st1 ! fst (all_edges g ! i) \<and> 0 < ek_M st1 ! snd (all_edges g ! i)"
  proof (intro allI impI)
    fix i assume i: "i < length (all_edges g)" "F' ! i \<noteq> 0"
    show "fst (all_edges g ! i) \<noteq> snd (all_edges g ! i) \<and>
          0 < ek_M st1 ! fst (all_edges g ! i) \<and> 0 < ek_M st1 ! snd (all_edges g ! i)"
    proof (cases "F' ! i = ek_F st1 ! i")
      case True
      with i ok show ?thesis by (simp add: flow_ok_def)
    next
      case False
      with p(3) show ?thesis by blast
    qed
  qed
  show "flow_ok g cap st2"
    unfolding flow_ok_def fields F2 using ok p(1,2) pos by (simp add: flow_ok_def)
  have arcs: "\<forall>x\<in>set vs. 0 \<le> lid (?ps ! x) \<longrightarrow> (?f x \<in> R \<longrightarrow> x \<in> R)"
  proof (intro ballI impI)
    fix x assume x: "x \<in> set vs" "0 \<le> lid (?ps ! x)" "?f x \<in> R"
    define i where "i = nat (lid (?ps ! x))"
    from stat x(1,2) have i: "i < length (all_edges g)" "edge_enabled st1 ! i"
      "all_edges g ! i = (if backward (?ps ! x) then (x, ?f x) else (?f x, x))"
      by (simp_all add: arc_stat_def i_def)
    from room x(1,2) have r: "if backward (?ps ! x) then m \<le> ek_F st1 ! i
         else m \<le> cap ! i - ek_F st1 ! i"
      by (simp add: arc_room_def i_def)
    show "x \<in> R"
    proof (rule ccontr)
      assume "x \<notin> R"
      with cert(1) i x(3) have "if backward (?ps ! x) then ek_F st1 ! i \<le> 0 else cap ! i \<le> ek_F st1 ! i"
        unfolding closed_set_def by (auto dest!: spec[of _ i] split: if_splits)
      with r m(1) show False by (auto split: if_splits)
    qed
  qed
  from walk_sides[OF w cert(3) cert(2), of "\<lambda>x. 0 \<le> lid (?ps ! x)" tsc] arcs virt
  have sides: "\<forall>x\<in>set vs. 0 \<le> lid (?ps ! x) \<longrightarrow> (x \<in> R \<longleftrightarrow> ?f x \<in> R)" by blast
  show "closed_set (all_edges g) cap (edge_enabled st1) (ek_F st2) R"
    unfolding closed_set_def F2
  proof (intro allI impI)
    fix i assume i: "i < length (all_edges g)" "edge_enabled st1 ! i"
    show "(fst (all_edges g ! i) \<in> R \<and> snd (all_edges g ! i) \<notin> R \<longrightarrow> cap ! i \<le> F' ! i) \<and>
          (snd (all_edges g ! i) \<in> R \<and> fst (all_edges g ! i) \<notin> R \<longrightarrow> F' ! i \<le> 0)"
    proof (cases "F' ! i = ek_F st1 ! i")
      case True
      with cert(1) i show ?thesis unfolding closed_set_def by simp
    next
      case False
      with p(3) obtain x where x: "x \<in> set vs" "0 \<le> lid (?ps ! x)"
        "all_edges g ! i = (if backward (?ps ! x) then (x, ?f x) else (?f x, x))" by blast
      with sides have "x \<in> R \<longleftrightarrow> ?f x \<in> R" by blast
      with x(3) show ?thesis by (auto split: if_splits)
    qed
  qed
qed

text \<open>
  \<open>maxFlow_p(a, b, sf, tsc, bound)\<close> moves exactly \<open>bound\<close> units from \<open>a\<close> to \<open>b\<close> when the
  flow from \<open>sf\<close> to \<open>tsc\<close> has at least that value and a closed set separates \<open>a\<close> from \<open>b\<close>
  and \<open>tsc\<close>.
\<close>

lemma maxFlow_p_sc_loop_ok:
  assumes "maxFlow_p_sc_loop g cap a b sf tsc bound newFlow st = Some r"
    and "graph_ok g" and "flow_ok g cap st"
    and "a < nodes g" and "0 < ek_M st ! a" and "b < nodes g" and "a \<noteq> b"
    and "tsc < nodes g" and "shortCircuitFlow st = 0" and "0 < bound"
    and "0 \<le> newFlow" and "newFlow \<le> bound"
    and "flow_shape (all_edges g) (edge_enabled st) (ek_F st) sf tsc val a b (bound - newFlow)"
    and "bound - newFlow \<le> val" and "0 \<le> val"
    and "R \<subseteq> {..<nodes g}"
    and "closed_set (all_edges g) cap (edge_enabled st) (ek_F st) R"
    and "a \<in> R" and "b \<notin> R" and "tsc \<notin> R"
  shows "flow_ok g cap (snd r) \<and> edge_enabled (snd r) = edge_enabled st \<and>
         (\<forall>i. \<not> edge_enabled st ! i \<longrightarrow> ek_F (snd r) ! i = ek_F st ! i) \<and>
         (\<forall>x<nodes g. 0 < ek_M st ! x \<longrightarrow> 0 < ek_M (snd r) ! x) \<and>
         (\<exists>val'\<ge>0. flow_shape (all_edges g) (edge_enabled st) (ek_F (snd r)) sf tsc val' a b 0)"
  using assms
proof (induction g cap a b sf tsc bound newFlow st r arbitrary: val
    rule: maxFlow_p_sc_loop.raw_induct[rotated 1, consumes 1])
  case (1 mfs g cap a b sf tsc bound newFlow st r)
  from 1(2) obtain r0 where bfs0: "BreadthFirstSearch_sc g cap a b sf tsc bound (shortCircuitFlow st) st = Some r0"
    by (auto split: option.splits)
  define m0 where "m0 = fst r0"
  define st1 where "st1 = snd r0"
  have bfs: "BreadthFirstSearch_sc g cap a b sf tsc bound 0 st = Some (m0, st1)"
    using bfs0 by (simp add: m0_def st1_def 1(10))
  have c: "0 < bound - (0::int)" using 1(11) by simp
  note se = sc_search[OF 1(3) 1(4) 1(5) 1(6) 1(7) 1(8) 1(9) c 1(18) 1(19) 1(21) bfs]
  define m where "m = (if bound \<ge> 0 \<and> newFlow + m0 > bound then bound - newFlow else m0)"
  from 1(2) have "(let m = (if bound \<ge> 0 \<and> newFlow + fst r0 > bound then bound - newFlow else fst r0)
           in if m = 0 then Some (newFlow, snd r0)
              else
                (case augment_sc a sf m b (snd r0) of
                   None \<Rightarrow> None
                 | Some st2 \<Rightarrow> mfs g cap a b sf tsc bound (newFlow + m) st2)) = Some r"
    by (simp add: bfs0)
  then have body: "(if m = 0 then Some (newFlow, st1)
              else
                (case augment_sc a sf m b st1 of
                   None \<Rightarrow> None
                 | Some st2 \<Rightarrow> mfs g cap a b sf tsc bound (newFlow + m) st2)) = Some r"
    by (simp only: Let_def m_def m0_def st1_def)
  have nn: "\<forall>i<length (all_edges g). edge_enabled st ! i \<longrightarrow> 0 \<le> ek_F st ! i"
    using 1(4) by (simp add: flow_ok_def)
  show ?case
  proof (cases "m = 0")
    case True
    with body have r: "r = (newFlow, st1)" by simp
    have r0: "bound - newFlow = 0"
    proof (cases "bound \<ge> 0 \<and> newFlow + m0 > bound")
      case True
      with \<open>m = 0\<close> show ?thesis by (simp add: m_def)
    next
      case False
      with \<open>m = 0\<close> have "m0 = 0" by (simp add: m_def)
      define Rs where "Rs = {x. x < nodes g \<and> reached st1 x}"
      from se(9) \<open>m0 = 0\<close> have cl: "closed_set (all_edges g) cap (edge_enabled st) (ek_F st) Rs"
        and ia: "a \<in> Rs" and ib: "b \<notin> Rs" and it: "sf \<in> Rs \<longrightarrow> tsc \<in> Rs"
        unfolding Rs_def by blast+
      have fin: "finite Rs" by (simp add: Rs_def)
      from cut_bound[OF fin cl nn 1(14)] ia ib
      have le: "(bound - newFlow) + val * ((if tsc \<in> Rs then 1 else 0) - (if sf \<in> Rs then 1 else 0)) \<le> 0"
        by simp
      have "0 \<le> val * ((if tsc \<in> Rs then 1 else 0) - (if sf \<in> Rs then 1 else 0))"
        using it 1(16) by auto
      with le 1(13) show ?thesis by linarith
    qed
    have sh: "flow_shape (all_edges g) (edge_enabled st) (ek_F (snd r)) sf tsc val a b 0"
      using 1(14) by (simp add: r se(2) r0)
    show ?thesis using se(1,3,5) sh 1(16) by (auto simp: r se(2))
  next
    case False
    from body False obtain st2 where aug: "augment_sc a sf m b st1 = Some st2"
      and rec: "mfs g cap a b sf tsc bound (newFlow + m) st2 = Some r"
      by (auto split: option.splits)
    have mm: "m \<le> m0" "0 \<le> m" "m \<le> bound - newFlow"
      using 1(12,13) se(6) by (auto simp: m_def)
    with False have mpos: "0 < m" by simp
    with mm(1) have "m0 \<noteq> 0" by auto
    with se(8) have vb: "reached st1 b" "m0 = ek_M st1 ! b" by simp_all
    have mb: "m \<le> ek_M st1 ! b" using mm(1) vb(2) by simp
    have cert1: "closed_set (all_edges g) cap (edge_enabled st1) (ek_F st1) R"
      using 1(18) by (simp add: se(2,3))
    note pu = sc_push[OF se(1) se(7) 1(7) vb(1) mpos mb aug cert1 1(19) 1(20)]
    have en2: "edge_enabled st2 = edge_enabled st"
      by (subst pu(2)) (simp add: se(3))
    have M2: "ek_M st2 = ek_M st1" by (subst pu(2)) simp
    have scf2: "shortCircuitFlow st2 = 0"
      by (subst pu(2), simp, subst se(4), simp add: 1(10))
    have pos2: "\<forall>x<nodes g. 0 < ek_M st ! x \<longrightarrow> 0 < ek_M st2 ! x"
      using se(5) by (simp add: M2)
    from pu(4) obtain k where k: "k = 0 \<or> k = 1"
      and ex: "\<forall>z. excess (all_edges g) (edge_enabled st) (ek_F st2) z =
           excess (all_edges g) (edge_enabled st) (ek_F st) z +
             m * ((if z = b then 1 else 0) - (if z = a then 1 else 0))
             - m * k * ((if z = tsc then 1 else 0) - (if z = sf then 1 else 0))"
      unfolding se(2,3) by blast
    have sh2: "flow_shape (all_edges g) (edge_enabled st2) (ek_F st2) sf tsc (val - m * k) a b
                 (bound - (newFlow + m))"
      unfolding en2 using flow_shape_sc[OF 1(14) ex] by (simp add: algebra_simps)
    have v2: "bound - (newFlow + m) \<le> val - m * k" "0 \<le> val - m * k"
      using k 1(15) mm mpos by auto
    have cl2: "closed_set (all_edges g) cap (edge_enabled st2) (ek_F st2) R"
      using pu(5) by (simp add: en2 se(3))
    have le2: "0 \<le> newFlow + m" "newFlow + m \<le> bound" using mm 1(12) by simp_all
    from 1(1)[OF rec 1(3) pu(1) 1(5) _ 1(7) 1(8) 1(9) scf2 1(11) le2 sh2 v2 1(17) cl2 1(19) 1(20) 1(21)]
      pos2 1(5,6)
    have ih: "flow_ok g cap (snd r)" "edge_enabled (snd r) = edge_enabled st2"
      "\<forall>i. \<not> edge_enabled st2 ! i \<longrightarrow> ek_F (snd r) ! i = ek_F st2 ! i"
      "\<forall>x<nodes g. 0 < ek_M st2 ! x \<longrightarrow> 0 < ek_M (snd r) ! x"
      "\<exists>val'\<ge>0. flow_shape (all_edges g) (edge_enabled st2) (ek_F (snd r)) sf tsc val' a b 0"
      by blast+
    have x: "\<forall>i. \<not> edge_enabled st ! i \<longrightarrow> ek_F (snd r) ! i = ek_F st ! i"
      using ih(3) pu(3) by (simp add: en2 se(2,3))
    have y: "\<forall>x<nodes g. 0 < ek_M st ! x \<longrightarrow> 0 < ek_M (snd r) ! x"
      using ih(4) pos2 by blast
    from ih(1,2,5) x y show ?thesis by (simp add: en2)
  qed
qed

lemma flow_shape_zero:
  "flow_shape E en F s t val u v 0 \<Longrightarrow> flow_shape E en F s t val u' v' 0"
  by (simp add: flow_shape_def)

lemma excess_disable:
  assumes "i < length E" "i < length en" "en ! i"
  shows "excess E (en[i := False]) F x =
         excess E en F x - ((if snd (E ! i) = x then F ! i else 0) - (if fst (E ! i) = x then F ! i else 0))"
  unfolding excess_def
  by (subst sum_upd_one[where i = i and f = "\<lambda>i. if en ! i
        then (if snd (E ! i) = x then F ! i else 0) - (if fst (E ! i) = x then F ! i else 0)
        else 0"]) (use assms in auto)

text \<open>The last step of a repair: the entry of the deleted edge is set to zero.\<close>

lemma repair_finish:
  assumes ok: "flow_ok g cap stf" and Ms: "0 < ek_M stf ! s"
    and e: "e < length (all_edges g)" "\<not> edge_enabled stf ! e"
    and dz: "\<forall>i<length (all_edges g). \<not> edge_enabled stf ! i \<and> i \<noteq> e \<longrightarrow> ek_F stf ! i = 0"
    and sh: "flow_shape (all_edges g) (edge_enabled stf) (ek_F stf) s t val u v 0" and val: "0 \<le> val"
  shows "engine_rest g cap s t (stf\<lparr>ek_F := (ek_F stf)[e := 0]\<rparr>)"
proof -
  let ?st = "stf\<lparr>ek_F := (ek_F stf)[e := 0]\<rparr>"
  have len: "length (ek_F stf) = length (all_edges g)" using ok by (simp add: flow_ok_def)
  have F: "\<And>i. i \<noteq> e \<Longrightarrow> ek_F ?st ! i = ek_F stf ! i" by simp
  have Fe: "ek_F ?st ! e = 0" using e(1) len by simp
  have a: "flow_ok g cap ?st"
    unfolding flow_ok_def
  proof (intro conjI allI impI)
    show "length (prev ?st) = nodes g" "length (ek_M ?st) = nodes g"
      "length (ek_F ?st) = length (all_edges g)" "length (edge_enabled ?st) = length (all_edges g)"
      using ok by (simp_all add: flow_ok_def)
  next
    fix i assume i: "i < length (all_edges g)" "edge_enabled ?st ! i"
    then have "i \<noteq> e" using e(2) by auto
    with i ok show "0 \<le> ek_F ?st ! i" "ek_F ?st ! i \<le> cap ! i" by (simp_all add: flow_ok_def)
  next
    fix i assume i: "i < length (all_edges g)" "ek_F ?st ! i \<noteq> 0"
    then have "i \<noteq> e" using Fe by auto
    with i ok show "fst (all_edges g ! i) \<noteq> snd (all_edges g ! i)"
      "0 < ek_M ?st ! fst (all_edges g ! i)" "0 < ek_M ?st ! snd (all_edges g ! i)"
      by (simp_all add: flow_ok_def)
  qed
  have b: "\<forall>i<length (all_edges g). \<not> edge_enabled ?st ! i \<longrightarrow> ek_F ?st ! i = 0"
  proof (intro allI impI)
    fix i assume i: "i < length (all_edges g)" "\<not> edge_enabled ?st ! i"
    show "ek_F ?st ! i = 0"
    proof (cases "i = e")
      case True then show ?thesis using Fe by simp
    next
      case False with i dz show ?thesis by simp
    qed
  qed
  have c: "flow_shape (all_edges g) (edge_enabled ?st) (ek_F ?st) s t val s s 0"
    using flow_shape_zero[OF sh, of s s] e(2)
    by (simp add: flow_shape_def excess_set_disabled)
  show ?thesis unfolding engine_rest_def using a b c val Ms by auto
qed

text \<open>The repair after the deletion of an edge that carries flow.\<close>

lemma repair_deleted_edge_ok:
  assumes run: "repair_deleted_edge g cap s t e st = Some r"
    and gw: "graph_ok g" and ok: "flow_ok g cap st"
    and s: "s < nodes g" "0 < ek_M st ! s" and t: "t < nodes g" "s \<noteq> t"
    and e: "e < length (all_edges g)" "\<not> edge_enabled st ! e" "0 < ek_F st ! e"
    and dz: "\<forall>i<length (all_edges g). \<not> edge_enabled st ! i \<and> i \<noteq> e \<longrightarrow> ek_F st ! i = 0"
    and sh: "flow_shape (all_edges g) (edge_enabled st) (ek_F st) s t val
               (fst (all_edges g ! e)) (snd (all_edges g ! e)) (ek_F st ! e)"
    and val: "0 \<le> val"
  shows "engine_rest g cap s t (snd r) \<and> edge_enabled (snd r) = edge_enabled st"
proof -
  define u where "u = fst (all_edges g ! e)"
  define v where "v = snd (all_edges g ! e)"
  define fv where "fv = ek_F st ! e"
  have fne: "ek_F st ! e \<noteq> 0" using e(3) by simp
  from ok e(1) fne have uv: "u \<noteq> v" and Mu: "0 < ek_M st ! u"
    unfolding flow_ok_def u_def v_def by blast+
  have un: "u < nodes g" and vn: "v < nodes g"
    using gw e(1) by (auto simp: graph_ok_def u_def v_def)
  have run': "(case maxFlow_residual g cap u v fv st of
           None \<Rightarrow> None
         | Some r \<Rightarrow>
             (if fst r = fv then Some (False, (snd r)\<lparr>ek_F := (ek_F (snd r))[e := 0]\<rparr>)
              else
                (case maxFlow_p_sc g cap u v s t (fv - fst r) (snd r) of
                   None \<Rightarrow> None
                 | Some r2 \<Rightarrow> Some (True, (snd r2)\<lparr>ek_F := (ek_F (snd r2))[e := 0]\<rparr>)))) = Some r"
    using run e(3) unfolding repair_deleted_edge_def Let_def u_def v_def fv_def
    by (simp cong: option.case_cong if_cong)
  then obtain r1 where r1: "maxFlow_residual_loop g cap u v fv 0 st = Some r1"
    by (auto simp: maxFlow_residual_def split: option.splits)
  have sh0: "flow_shape (all_edges g) (edge_enabled st) (ek_F st) s t val u v (fv - 0)"
    using sh by (simp add: u_def v_def fv_def)
  have fv0: "0 \<le> fv" using e(3) by (simp add: fv_def)
  from maxFlow_residual_loop_ok[OF r1 gw ok un Mu vn uv sh0 fv0]
  have A: "flow_ok g cap (snd r1)" "edge_enabled (snd r1) = edge_enabled st"
    "\<forall>i. \<not> edge_enabled st ! i \<longrightarrow> ek_F (snd r1) ! i = ek_F st ! i"
    "\<forall>x<nodes g. 0 < ek_M st ! x \<longrightarrow> 0 < ek_M (snd r1) ! x"
    "0 \<le> fst r1" "fst r1 \<le> fv"
    "flow_shape (all_edges g) (edge_enabled st) (ek_F (snd r1)) s t val u v (fv - fst r1)"
    "fst r1 < fv \<longrightarrow>
            (\<exists>R. R \<subseteq> {..<nodes g} \<and>
                 closed_set (all_edges g) cap (edge_enabled st) (ek_F (snd r1)) R \<and> u \<in> R \<and> v \<notin> R)"
    by simp_all
  show ?thesis
  proof (cases "fst r1 = fv")
    case True
    with run' r1 have r: "r = (False, (snd r1)\<lparr>ek_F := (ek_F (snd r1))[e := 0]\<rparr>)"
      by (simp add: maxFlow_residual_def)
    have sh1: "flow_shape (all_edges g) (edge_enabled (snd r1)) (ek_F (snd r1)) s t val u v 0"
      using A(7) True by (simp add: A(2))
    have dz1: "\<forall>i<length (all_edges g). \<not> edge_enabled (snd r1) ! i \<and> i \<noteq> e \<longrightarrow> ek_F (snd r1) ! i = 0"
      using dz A(3) by (simp add: A(2))
    have Ms1: "0 < ek_M (snd r1) ! s" using A(4) s by simp
    have e1: "\<not> edge_enabled (snd r1) ! e" using e(2) by (simp add: A(2))
    from repair_finish[OF A(1) Ms1 e(1) e1 dz1 sh1 val] A(2)
    show ?thesis by (simp add: r)
  next
    case False
    define delta where "delta = fv - fst r1"
    have dpos: "0 < delta" using False A(6) by (simp add: delta_def)
    from run' r1 False obtain r2 where
      r2: "maxFlow_p_sc_loop g cap u v s t delta 0 ((snd r1)\<lparr>shortCircuitFlow := 0\<rparr>) = Some r2"
      and r: "r = (True, (snd r2)\<lparr>ek_F := (ek_F (snd r2))[e := 0]\<rparr>)"
      by (auto simp: maxFlow_residual_def maxFlow_p_sc_def delta_def split: option.splits)
    from A(8) False A(6) obtain R where R: "R \<subseteq> {..<nodes g}"
      "closed_set (all_edges g) cap (edge_enabled st) (ek_F (snd r1)) R" "u \<in> R" "v \<notin> R"
      by auto
    have fin: "finite R" using R(1) by (rule finite_subset) simp
    have nn: "\<forall>i<length (all_edges g). edge_enabled st ! i \<longrightarrow> 0 \<le> ek_F (snd r1) ! i"
      using A(1) by (simp add: flow_ok_def A(2))
    from cut_bound[OF fin R(2) nn A(7)] R(3,4)
    have le: "delta + val * ((if t \<in> R then 1 else 0) - (if s \<in> R then 1 else 0)) \<le> 0"
      by (simp add: delta_def)
    have tR: "t \<notin> R"
    proof
      assume "t \<in> R"
      then have "0 \<le> val * ((if t \<in> R then 1 else 0) - (if s \<in> R then 1 else 0))"
        using val by auto
      with le dpos show False by linarith
    qed
    have dv: "delta \<le> val"
    proof -
      have "val * ((if t \<in> R then 1 else 0) - (if s \<in> R then 1 else 0)) \<ge> - val"
        using tR val by auto
      with le show ?thesis by linarith
    qed
    define st2 where "st2 = (snd r1)\<lparr>shortCircuitFlow := 0\<rparr>"
    have ok2: "flow_ok g cap st2" using A(1) by (simp add: flow_ok_def st2_def)
    have f2: "edge_enabled st2 = edge_enabled st" "ek_F st2 = ek_F (snd r1)" "ek_M st2 = ek_M (snd r1)"
      "shortCircuitFlow st2 = 0" by (simp_all add: st2_def A(2))
    have Mu2: "0 < ek_M st2 ! u" using A(4) un Mu by (simp add: f2)
    have sh2: "flow_shape (all_edges g) (edge_enabled st2) (ek_F st2) s t val u v (delta - 0)"
      using A(7) by (simp add: f2 delta_def)
    have cl2: "closed_set (all_edges g) cap (edge_enabled st2) (ek_F st2) R"
      using R(2) by (simp add: f2)
    have dv0: "delta - 0 \<le> val" using dv by simp
    from maxFlow_p_sc_loop_ok[OF r2[folded st2_def] gw ok2 un Mu2 vn uv t(1) f2(4) dpos _ _ sh2 dv0 val
        R(1) cl2 R(3) R(4) tR] dpos
    have B: "flow_ok g cap (snd r2)" "edge_enabled (snd r2) = edge_enabled st2"
      "\<forall>i. \<not> edge_enabled st2 ! i \<longrightarrow> ek_F (snd r2) ! i = ek_F st2 ! i"
      "\<forall>x<nodes g. 0 < ek_M st2 ! x \<longrightarrow> 0 < ek_M (snd r2) ! x"
      "\<exists>val'\<ge>0. flow_shape (all_edges g) (edge_enabled st2) (ek_F (snd r2)) s t val' u v 0"
      by simp_all
    from B(5) obtain val' where val': "0 \<le> val'"
      "flow_shape (all_edges g) (edge_enabled (snd r2)) (ek_F (snd r2)) s t val' u v 0"
      unfolding B(2) by blast
    have dz2: "\<forall>i<length (all_edges g). \<not> edge_enabled (snd r2) ! i \<and> i \<noteq> e \<longrightarrow> ek_F (snd r2) ! i = 0"
      using dz A(3) B(3) by (simp add: B(2) f2)
    have Ms2: "0 < ek_M (snd r2) ! s" using A(4) B(4) s by (simp add: f2)
    have e2: "\<not> edge_enabled (snd r2) ! e" using e(2) by (simp add: B(2) f2)
    from repair_finish[OF B(1) Ms2 e(1) e2 dz2 val'(2) val'(1)] B(2) f2(1)
    show ?thesis by (simp add: r)
  qed
qed

lemma engine_rest_cong:
  assumes "ek_F st' = ek_F st" "ek_M st' = ek_M st" "edge_enabled st' = edge_enabled st"
    "length (prev st') = length (prev st)"
  shows "engine_rest g cap s t st' = engine_rest g cap s t st"
  using assms by (simp add: engine_rest_def flow_ok_def)

lemma flow_ok_flag:
  assumes ok: "flow_ok g cap st" and e: "e < length (all_edges g)"
    and b: "b \<longrightarrow> 0 \<le> ek_F st ! e \<and> ek_F st ! e \<le> cap ! e"
  shows "flow_ok g cap (st\<lparr>edge_enabled := (edge_enabled st)[e := b]\<rparr>)"
  unfolding flow_ok_def
proof (intro conjI allI impI)
  let ?st = "st\<lparr>edge_enabled := (edge_enabled st)[e := b]\<rparr>"
  show "length (prev ?st) = nodes g" "length (ek_M ?st) = nodes g"
    "length (ek_F ?st) = length (all_edges g)" "length (edge_enabled ?st) = length (all_edges g)"
    using ok by (simp_all add: flow_ok_def)
  fix i assume i: "i < length (all_edges g)"
  { assume en: "edge_enabled ?st ! i"
    show "0 \<le> ek_F ?st ! i" "ek_F ?st ! i \<le> cap ! i"
    proof -
      have "0 \<le> ek_F st ! i \<and> ek_F st ! i \<le> cap ! i"
      proof (cases "i = e")
        case True
        with en ok e have "b" by (simp add: flow_ok_def)
        with b True show ?thesis by simp
      next
        case False
        with en i ok show ?thesis by (simp add: flow_ok_def)
      qed
      then show "0 \<le> ek_F ?st ! i" "ek_F ?st ! i \<le> cap ! i" by simp_all
    qed }
  { assume "ek_F ?st ! i \<noteq> 0"
    with i ok show "fst (all_edges g ! i) \<noteq> snd (all_edges g ! i)"
      "0 < ek_M ?st ! fst (all_edges g ! i)" "0 < ek_M ?st ! snd (all_edges g ! i)"
      by (simp_all add: flow_ok_def) }
qed

text \<open>A change of the flag of an edge without flow keeps the engine at rest.\<close>

lemma engine_rest_flag:
  assumes rest: "engine_rest g cap s t st" and cw: "capacity_ok g cap"
    and e: "e < length (all_edges g)" and z: "ek_F st ! e = 0 \<or> edge_enabled st ! e = b"
  shows "engine_rest g cap s t (st\<lparr>edge_enabled := (edge_enabled st)[e := b]\<rparr>)"
proof -
  let ?st = "st\<lparr>edge_enabled := (edge_enabled st)[e := b]\<rparr>"
  from rest have ok: "flow_ok g cap st"
    and dz: "\<forall>i<length (all_edges g). \<not> edge_enabled st ! i \<longrightarrow> ek_F st ! i = 0"
    and Ms: "0 < ek_M st ! s" by (simp_all add: engine_rest_def)
  from rest obtain val where val: "0 \<le> val"
    "flow_shape (all_edges g) (edge_enabled st) (ek_F st) s t val s s 0"
    unfolding engine_rest_def by blast
  have len: "length (edge_enabled st) = length (all_edges g)" using ok by (simp add: flow_ok_def)
  have feas: "0 \<le> ek_F st ! e \<and> ek_F st ! e \<le> cap ! e"
  proof (cases "edge_enabled st ! e")
    case True
    with ok e show ?thesis by (simp add: flow_ok_def)
  next
    case False
    with dz e have "ek_F st ! e = 0" by simp
    with cw e show ?thesis by (simp add: capacity_ok_def)
  qed
  have a: "flow_ok g cap ?st" by (rule flow_ok_flag[OF ok e]) (simp add: feas)
  have b': "\<forall>i<length (all_edges g). \<not> edge_enabled ?st ! i \<longrightarrow> ek_F ?st ! i = 0"
  proof (intro allI impI)
    fix i assume i: "i < length (all_edges g)" "\<not> edge_enabled ?st ! i"
    show "ek_F ?st ! i = 0"
    proof (cases "i = e")
      case True
      with i len e have nb: "\<not> b" by simp
      from z show ?thesis
      proof
        assume "ek_F st ! e = 0" then show ?thesis using True by simp
      next
        assume "edge_enabled st ! e = b"
        with nb dz e True show ?thesis by simp
      qed
    next
      case False
      with i dz show ?thesis by simp
    qed
  qed
  have ex: "\<And>x. excess (all_edges g) ((edge_enabled st)[e := b]) (ek_F st) x =
                 excess (all_edges g) (edge_enabled st) (ek_F st) x"
  proof -
    fix x
    from z show "excess (all_edges g) ((edge_enabled st)[e := b]) (ek_F st) x =
                 excess (all_edges g) (edge_enabled st) (ek_F st) x"
    proof
      assume "ek_F st ! e = 0" then show ?thesis by (rule excess_flag)
    next
      assume "edge_enabled st ! e = b"
      then show ?thesis using e len by (simp add: excess_flag_same)
    qed
  qed
  have c: "flow_shape (all_edges g) (edge_enabled ?st) (ek_F ?st) s t val s s 0"
    using val(2) by (simp add: flow_shape_def ex)
  show ?thesis unfolding engine_rest_def using a b' c val(1) Ms by auto
qed

text \<open>One event of the log.\<close>

lemma replay_event_ok:
  assumes run: "replay_event g cap s t (e, a) (aE, nR, st) = Some acc'"
    and gw: "graph_ok g" and cw: "capacity_ok g cap"
    and s: "s < nodes g" and t: "t < nodes g" "s \<noteq> t"
    and rest: "engine_rest g cap s t st" and e: "e < length (all_edges g)"
  shows "engine_rest g cap s t (snd (snd acc')) \<and>
         edge_enabled (snd (snd acc')) =
           (if a = edge_status g ! e then (edge_enabled st)[e := a] else edge_enabled st)"
proof -
  from rest have ok: "flow_ok g cap st"
    and dz: "\<forall>i<length (all_edges g). \<not> edge_enabled st ! i \<longrightarrow> ek_F st ! i = 0"
    and Ms: "0 < ek_M st ! s" by (simp_all add: engine_rest_def)
  from rest obtain val where val: "0 \<le> val"
    "flow_shape (all_edges g) (edge_enabled st) (ek_F st) s t val s s 0"
    unfolding engine_rest_def by blast
  have len: "length (edge_enabled st) = length (all_edges g)" using ok by (simp add: flow_ok_def)
  consider (add) "a" "edge_status g ! e" | (del) "\<not> a" "\<not> edge_status g ! e"
    | (skip) "a \<noteq> edge_status g ! e" by blast
  then show ?thesis
  proof cases
    case add
    with run have acc: "acc' = (True, nR, st\<lparr>edge_enabled := (edge_enabled st)[e := True]\<rparr>)"
      by (simp add: replay_event_def edgeEnabled_def)
    have z: "ek_F st ! e = 0 \<or> edge_enabled st ! e = True" using dz e by auto
    from engine_rest_flag[OF rest cw e z] add show ?thesis by (simp add: acc)
  next
    case skip
    with run have "acc' = (aE, nR, st)" by (auto simp: replay_event_def edgeEnabled_def)
    with rest skip show ?thesis by auto
  next
    case del
    define st1 where "st1 = st\<lparr>edge_enabled := (edge_enabled st)[e := False]\<rparr>"
    have f1: "ek_F st1 = ek_F st" "ek_M st1 = ek_M st" "edge_enabled st1 = (edge_enabled st)[e := False]"
      by (simp_all add: st1_def)
    show ?thesis
    proof (cases "ek_F st ! e = 0")
      case True
      with run del have acc: "acc' = (aE, nR, st1)"
        by (simp add: replay_event_def edgeEnabled_def st1_def Let_def)
      from engine_rest_flag[OF rest cw e, of False] True del show ?thesis
        by (simp add: acc st1_def)
    next
      case False
      with run del obtain r where rep: "repair_deleted_edge g cap s t e st1 = Some r"
        and acc: "acc' = (aE, nR \<or> fst r, snd r)"
        by (auto simp: replay_event_def edgeEnabled_def st1_def Let_def split: option.splits)
      from False dz e have en: "edge_enabled st ! e" by auto
      with ok e False have pos: "0 < ek_F st ! e" by (auto simp: flow_ok_def dest!: spec[of _ e])
      have ok1: "flow_ok g cap st1" unfolding st1_def by (rule flow_ok_flag[OF ok e]) simp
      have e1: "\<not> edge_enabled st1 ! e" using e len by (simp add: f1)
      have dz1: "\<forall>i<length (all_edges g). \<not> edge_enabled st1 ! i \<and> i \<noteq> e \<longrightarrow> ek_F st1 ! i = 0"
        using dz by (auto simp: f1 nth_list_update)
      have sh1: "flow_shape (all_edges g) (edge_enabled st1) (ek_F st1) s t val
               (fst (all_edges g ! e)) (snd (all_edges g ! e)) (ek_F st1 ! e)"
        unfolding flow_shape_def f1
      proof
        fix x
        have "excess (all_edges g) ((edge_enabled st)[e := False]) (ek_F st) x =
              excess (all_edges g) (edge_enabled st) (ek_F st) x -
                ((if snd (all_edges g ! e) = x then ek_F st ! e else 0) -
                 (if fst (all_edges g ! e) = x then ek_F st ! e else 0))"
          using e len en by (intro excess_disable) simp_all
        with val(2)[unfolded flow_shape_def, rule_format, of x]
        show "excess (all_edges g) ((edge_enabled st)[e := False]) (ek_F st) x =
              ek_F st ! e * ((if x = fst (all_edges g ! e) then 1 else 0) -
                             (if x = snd (all_edges g ! e) then 1 else 0)) +
              val * ((if x = t then 1 else 0) - (if x = s then 1 else 0))"
          by auto
      qed
      have Ms1: "0 < ek_M st1 ! s" using Ms by (simp add: f1)
      have pos1: "0 < ek_F st1 ! e" using pos by (simp add: f1)
      from repair_deleted_edge_ok[OF rep gw ok1 s Ms1 t e e1 pos1 dz1 sh1 val(1)] del
      show ?thesis by (simp add: acc f1)
    qed
  qed
qed

text \<open>The replay of the log.\<close>

lemma replay_ok:
  assumes "replay g cap s t evs acc = Some acc'"
    and "graph_ok g" and "capacity_ok g cap" and "s < nodes g" and "t < nodes g" and "s \<noteq> t"
    and "engine_rest g cap s t (snd (snd acc))"
    and "\<forall>ev\<in>set evs. fst ev < length (all_edges g)"
  shows "engine_rest g cap s t (snd (snd acc')) \<and>
         (\<forall>i<length (all_edges g). edge_enabled (snd (snd acc')) ! i =
             (if (i, edge_status g ! i) \<in> set evs then edge_status g ! i
              else edge_enabled (snd (snd acc)) ! i))"
  using assms
proof (induction evs arbitrary: acc)
  case Nil
  then show ?case by simp
next
  case (Cons ev evs)
  obtain e a where ev: "ev = (e, a)" by (cases ev)
  obtain aE nR st where acc: "acc = (aE, nR, st)" by (cases acc)
  from Cons.prems(1) obtain acc1 where
    e1: "replay_event g cap s t (e, a) (aE, nR, st) = Some acc1"
    and r1: "replay g cap s t evs acc1 = Some acc'"
    by (auto simp: ev acc split: option.splits)
  have eb: "e < length (all_edges g)" using Cons.prems(8) by (simp add: ev)
  have rest: "engine_rest g cap s t st" using Cons.prems(7) by (simp add: acc)
  note ee = replay_event_ok[OF e1 Cons.prems(2,3,4,5,6) rest eb]
  have ids: "\<forall>ev\<in>set evs. fst ev < length (all_edges g)" using Cons.prems(8) by simp
  from Cons.IH[OF r1 Cons.prems(2,3,4,5,6) _ ids] ee
  have ih: "engine_rest g cap s t (snd (snd acc'))"
    "\<forall>i<length (all_edges g). edge_enabled (snd (snd acc')) ! i =
             (if (i, edge_status g ! i) \<in> set evs then edge_status g ! i
              else edge_enabled (snd (snd acc1)) ! i)"
    by blast+
  have len: "length (edge_enabled st) = length (all_edges g)"
    using rest by (simp add: engine_rest_def flow_ok_def)
  have "\<forall>i<length (all_edges g). edge_enabled (snd (snd acc')) ! i =
             (if (i, edge_status g ! i) \<in> set (ev # evs) then edge_status g ! i
              else edge_enabled st ! i)"
  proof (intro allI impI)
    fix i assume i: "i < length (all_edges g)"
    have en1: "edge_enabled (snd (snd acc1)) =
           (if a = edge_status g ! e then (edge_enabled st)[e := a] else edge_enabled st)"
      using ee by simp
    show "edge_enabled (snd (snd acc')) ! i =
             (if (i, edge_status g ! i) \<in> set (ev # evs) then edge_status g ! i
              else edge_enabled st ! i)"
    proof (cases "(i, edge_status g ! i) \<in> set evs")
      case True
      with ih(2) i show ?thesis by simp
    next
      case False
      with ih(2) i have x: "edge_enabled (snd (snd acc')) ! i = edge_enabled (snd (snd acc1)) ! i"
        by simp
      show ?thesis
      proof (cases "i = e \<and> a = edge_status g ! e")
        case True
        then show ?thesis using x en1 len i by (simp add: ev)
      next
        case f: False
        then have "edge_enabled (snd (snd acc1)) ! i = edge_enabled st ! i"
          using en1 by (auto simp: nth_list_update)
        with x f False show ?thesis by (auto simp: ev)
      qed
    qed
  qed
  with ih(1) show ?case by (simp add: acc)
qed

lemma sum_list_filter_upt:
  "sum_list (map f (filter P [0..<m])) = (\<Sum>i<m. if P i then f i else (0::int))"
proof -
  have "sum_list (map f (filter P [0..<m])) = sum_list (map (\<lambda>i. if P i then f i else 0) [0..<m])"
    by (rule sum_list_map_filter') 
  also have "\<dots> = (\<Sum>i\<in>set [0..<m]. if P i then f i else 0)"
    by (rule interv_sum_list_conv_sum_set_nat)
  also have "set [0..<m] = {..<m}" by auto
  finally show ?thesis .
qed

lemma inflow_sum:
  fixes F :: "int list"
  shows "sum_list (map (\<lambda>e. F ! snd e) (filter (\<lambda>e. en ! snd e) (incoming g u))) =
   (\<Sum>i<length (all_edges g). if snd (all_edges g ! i) = u \<and> en ! i then F ! i else 0)"
proof -
  have "map (\<lambda>e. F ! snd e) (filter (\<lambda>e. en ! snd e) (incoming g u)) =
        map (\<lambda>i. F ! i) (filter (\<lambda>i. snd (all_edges g ! i) = u \<and> en ! i) [0..<length (all_edges g)])"
    unfolding incoming_def by (simp add: filter_map comp_def conj_commute)
  then show ?thesis
    using sum_list_filter_upt[of "\<lambda>i. F ! i" "\<lambda>i. snd (all_edges g ! i) = u \<and> en ! i"
        "length (all_edges g)"] by simp
qed

lemma outflow_sum:
  fixes F :: "int list"
  shows "sum_list (map (\<lambda>e. F ! snd e) (filter (\<lambda>e. en ! snd e) (incident g u))) =
   (\<Sum>i<length (all_edges g). if fst (all_edges g ! i) = u \<and> en ! i then F ! i else 0)"
proof -
  have "map (\<lambda>e. F ! snd e) (filter (\<lambda>e. en ! snd e) (incident g u)) =
        map (\<lambda>i. F ! i) (filter (\<lambda>i. fst (all_edges g ! i) = u \<and> en ! i) [0..<length (all_edges g)])"
    unfolding incident_def by (simp add: filter_map comp_def conj_commute)
  then show ?thesis
    using sum_list_filter_upt[of "\<lambda>i. F ! i" "\<lambda>i. fst (all_edges g ! i) = u \<and> en ! i"
        "length (all_edges g)"] by simp
qed

lemma excess_in_out:
  "excess (all_edges g) en F u =
     sum_list (map (\<lambda>e. F ! snd e) (filter (\<lambda>e. en ! snd e) (incoming g u))) -
     sum_list (map (\<lambda>e. F ! snd e) (filter (\<lambda>e. en ! snd e) (incident g u)))"
  unfolding inflow_sum outflow_sum excess_def sum_subtractf[symmetric]
  by (rule sum.cong) auto

text \<open>An engine at rest whose flags are those of the graph holds a feasible flow.\<close>

lemma rest_feasible:
  assumes rest: "engine_rest g cap s t st" and en: "edge_enabled st = edge_status g"
  shows "flow_feasible g cap s t (ek_F st)"
proof -
  from rest have ok: "flow_ok g cap st"
    and dz: "\<forall>i<length (all_edges g). \<not> edge_enabled st ! i \<longrightarrow> ek_F st ! i = 0"
    by (simp_all add: engine_rest_def)
  from rest obtain val where val: 
    "flow_shape (all_edges g) (edge_enabled st) (ek_F st) s t val s s 0"
    unfolding engine_rest_def by blast
  have ee: "edgeEnabled g = (\<lambda>i. edge_enabled st ! i)" by (simp add: edgeEnabled_def en fun_eq_iff)
  have a: "list_all (\<lambda>i. if edgeEnabled g i then 0 \<le> ek_F st ! i \<and> ek_F st ! i \<le> cap ! i else ek_F st ! i = 0)
        [0..<edges g]"
    unfolding list_all_iff ee using ok dz by (auto simp: flow_ok_def edges_def)
  have b: "list_all (\<lambda>u. u = s \<or> u = t \<or>
          sum_list (map (\<lambda>e. ek_F st ! snd e) (filter (\<lambda>e. edgeEnabled g (snd e)) (incoming g u))) =
          sum_list (map (\<lambda>e. ek_F st ! snd e) (filter (\<lambda>e. edgeEnabled g (snd e)) (incident g u))))
        [0..<nodes g]"
    unfolding list_all_iff ee
  proof (intro ballI)
    fix u
    show "u = s \<or> u = t \<or>
          sum_list (map (\<lambda>e. ek_F st ! snd e) (filter (\<lambda>e. edge_enabled st ! snd e) (incoming g u))) =
          sum_list (map (\<lambda>e. ek_F st ! snd e) (filter (\<lambda>e. edge_enabled st ! snd e) (incident g u)))"
    proof (cases "u = s \<or> u = t")
      case False
      with val have "excess (all_edges g) (edge_enabled st) (ek_F st) u = 0"
        by (simp add: flow_shape_def)
      then show ?thesis by (simp add: excess_in_out)
    qed blast
  qed
  show ?thesis unfolding flow_feasible_def using a b by simp
qed

lemma excess_zero:
  "excess E en (replicate (length E) 0) x = 0"
  unfolding excess_def by (rule sum.neutral) simp

text \<open>The full reinitialisation leaves the engine at rest with the zero flow.\<close>

lemma full_reinit_rest:
  assumes gw: "graph_ok g" and cw: "capacity_ok g cap" and s: "s < nodes g"
  shows "engine_rest g cap s t (full_reinit g s st)"
    and "edge_enabled (full_reinit g s st) = edge_status g"
proof -
  let ?st = "full_reinit g s st"
  have F: "ek_F ?st = replicate (length (all_edges g)) 0"
    and M: "ek_M ?st = (replicate (nodes g) 0)[s := ek_INF]"
    and en: "edge_enabled ?st = map (\<lambda>i. isEdge g i \<and> edgeEnabled g i) [0..<edges g]"
    and lp: "length (prev ?st) = nodes g"
    by (simp_all add: full_reinit_def Let_def resize_list_def)
  have ls: "length (edge_status g) = length (all_edges g)" using gw by (simp add: graph_ok_def)
  show en': "edge_enabled ?st = edge_status g"
    unfolding en by (rule nth_equalityI) (simp_all add: ls edges_def isEdge_def edgeEnabled_def)
  have ok: "flow_ok g cap ?st"
    unfolding flow_ok_def F M lp en' using cw ls by (simp add: capacity_ok_def)
  have Ms: "0 < ek_M ?st ! s" using s by (simp add: M ek_INF_def)
  have sh: "flow_shape (all_edges g) (edge_enabled ?st) (ek_F ?st) s t 0 s s 0"
    unfolding flow_shape_def F by (simp add: excess_zero)
  show "engine_rest g cap s t ?st"
    unfolding engine_rest_def using ok Ms sh by (auto simp: F)
qed

lemma maxFlow_p_rest:
  assumes run: "maxFlow_p g cap s t st = Some r"
    and gw: "graph_ok g" and s: "s < nodes g" and t: "t < nodes g" "s \<noteq> t"
    and rest: "engine_rest g cap s t st"
  shows "engine_rest g cap s t (snd r)" "edge_enabled (snd r) = edge_enabled st"
proof -
  from rest have ok: "flow_ok g cap st"
    and dz: "\<forall>i<length (all_edges g). \<not> edge_enabled st ! i \<longrightarrow> ek_F st ! i = 0"
    and Ms: "0 < ek_M st ! s" by (simp_all add: engine_rest_def)
  from rest obtain val where val: "0 \<le> val"
    "flow_shape (all_edges g) (edge_enabled st) (ek_F st) s t val s s 0"
    unfolding engine_rest_def by blast
  from maxFlow_p_ok[OF run gw ok s Ms t val(2)]
  have A: "flow_ok g cap (snd r)" "edge_enabled (snd r) = edge_enabled st"
    "\<forall>i. \<not> edge_enabled st ! i \<longrightarrow> ek_F (snd r) ! i = ek_F st ! i"
    "\<forall>x<nodes g. 0 < ek_M st ! x \<longrightarrow> 0 < ek_M (snd r) ! x"
    "\<exists>val'\<ge>val. flow_shape (all_edges g) (edge_enabled st) (ek_F (snd r)) s t val' s s 0"
    by blast+
  show "edge_enabled (snd r) = edge_enabled st" by fact
  from A(5) obtain val' where v': "val \<le> val'"
    "flow_shape (all_edges g) (edge_enabled st) (ek_F (snd r)) s t val' s s 0"
    by blast
  from v' val(1) have "0 \<le> val'"
    "flow_shape (all_edges g) (edge_enabled (snd r)) (ek_F (snd r)) s t val' s s 0"
    by (simp_all add: A(2))
  then show "engine_rest g cap s t (snd r)"
    unfolding engine_rest_def using A(1,3,4) dz Ms s by (auto simp: A(2))
qed

lemma update_stamps_fields:
  "ek_F (update_stamps g st) = ek_F st" "ek_M (update_stamps g st) = ek_M st"
  "edge_enabled (update_stamps g st) = edge_enabled st" "prev (update_stamps g st) = prev st"
  "last_modification (update_stamps g st) = modifications g"
  "history_qhead (update_stamps g st) = length (history g)"
  by (simp_all add: update_stamps_def)

text \<open>
  C5, for an engine that is always asked for the same \<open>s\<close> and \<open>t\<close>. Let the graph be well
  formed, the capacities non-negative, \<open>s\<close> and \<open>t\<close> two different nodes, and the engine ready
  for \<open>s\<close> and \<open>t\<close>: fresh, or left by earlier calls \<open>maxFlow(s, t)\<close>, the graph being changed
  in between by \<open>enableEdge\<close> and \<open>disableEdge\<close>. When \<open>maxFlow(s, t)\<close> returns, the flow map
  \<open>F\<close> is feasible: \<open>0 \<le> F[e] \<le> capacity[e]\<close> for every enabled edge, \<open>F[e] = 0\<close> for every
  disabled edge, and at every node other than \<open>s\<close> and \<open>t\<close> the enabled incoming edges carry as
  much as the enabled outgoing edges. The engine is again ready for \<open>s\<close> and \<open>t\<close>.
\<close>

theorem C5_flow_feasible:
  assumes gw: "graph_ok g" and cw: "capacity_ok g cap"
    and s: "s < nodes g" and t: "t < nodes g" "s \<noteq> t"
    and ready: "engine_ready g cap s t st"
    and run: "maxFlow g cap s t st = Some (f, st')"
  shows "flow_feasible g cap s t (ek_F st') \<and> engine_ready g cap s t st'"
proof (cases "cache_hit g st")
  case True
  with run have "st' = st" by (simp add: maxFlow_def cache_hit_def)
  moreover from ready True have "engine_rest g cap s t st" "edge_enabled st = edge_status g"
    by (simp_all add: engine_ready_def)
  ultimately show ?thesis using rest_feasible ready by simp
next
  case False
  define st1o where "st1o =
     (if last_modification st \<le> 0 \<or> historyclears g \<noteq> last_history_clear st \<or> is_changed g
      then (case maxFlow_p g cap s t (full_reinit g s st) of
              None \<Rightarrow> None
            | Some r \<Rightarrow> Some ((snd r)\<lparr>ek_f := fst r\<rparr>))
      else Some st)"
  from run False obtain st1 where st1: "st1o = Some st1"
    unfolding maxFlow_def cache_hit_def st1o_def by (auto split: option.splits)
  from run False st1 obtain acc where
    rp: "replay g cap s t (drop (history_qhead st1) (history g)) (False, False, st1) = Some acc"
    unfolding maxFlow_def cache_hit_def st1o_def[symmetric] by (auto split: option.splits)
  define st2 where "st2 = snd (snd acc)"
  define st3 where "st3 = (if fst (snd acc) then st2\<lparr>ek_f := reflow g s st2\<rparr> else st2)"
  define st4o where "st4o =
     (if fst acc
      then (case maxFlow_p g cap s t st3 of
              None \<Rightarrow> None
            | Some r \<Rightarrow> Some ((snd r)\<lparr>ek_f := fst r\<rparr>))
      else Some st3)"
  from run False st1 rp obtain st4 where st4: "st4o = Some st4"
    and st': "st' = update_stamps g st4"
    unfolding maxFlow_def cache_hit_def st1o_def[symmetric] st4o_def st3_def st2_def
    by (auto simp: Let_def split: option.splits)
  have r1: "engine_rest g cap s t st1 \<and>
            (\<forall>i<length (all_edges g). edge_status g ! i \<noteq> edge_enabled st1 ! i \<longrightarrow>
               (i, edge_status g ! i) \<in> set (drop (history_qhead st1) (history g)))"
  proof (cases "full_due g st")
    case True
    with st1 obtain r where mf: "maxFlow_p g cap s t (full_reinit g s st) = Some r"
      and e: "st1 = (snd r)\<lparr>ek_f := fst r\<rparr>"
      unfolding st1o_def full_due_def by (auto split: option.splits)
    have fr: "engine_rest g cap s t (full_reinit g s st)"
      "edge_enabled (full_reinit g s st) = edge_status g"
      using full_reinit_rest[OF gw cw s] by blast+
    note mp = maxFlow_p_rest[OF mf gw s t fr(1)]
    have "engine_rest g cap s t st1"
      using mp(1) engine_rest_cong[of st1 "snd r" g cap s t] by (simp add: e)
    moreover have "edge_enabled st1 = edge_status g" using mp(2) fr(2) by (simp add: e)
    ultimately show ?thesis by simp
  next
    case nf: False
    with st1 have "st1 = st" unfolding st1o_def full_due_def by simp
    with ready False nf show ?thesis by (simp add: engine_ready_def log_faithful_def)
  qed
  have ids: "\<forall>ev\<in>set (drop (history_qhead st1) (history g)). fst ev < length (all_edges g)"
    using gw set_drop_subset[of "history_qhead st1" "history g"] unfolding graph_ok_def by blast
  have r1': "engine_rest g cap s t (snd (snd (False, False, st1)))" using r1 by simp
  from replay_ok[OF rp gw cw s t r1' ids]
  have r2: "engine_rest g cap s t st2"
    and en2: "\<forall>i<length (all_edges g). edge_enabled st2 ! i =
             (if (i, edge_status g ! i) \<in> set (drop (history_qhead st1) (history g))
              then edge_status g ! i else edge_enabled st1 ! i)"
    by (simp_all add: st2_def)
  have l2: "length (edge_enabled st2) = length (all_edges g)"
    using r2 by (simp add: engine_rest_def flow_ok_def)
  have ls: "length (edge_status g) = length (all_edges g)" using gw by (simp add: graph_ok_def)
  have e2: "edge_enabled st2 = edge_status g"
  proof (rule nth_equalityI)
    show "length (edge_enabled st2) = length (edge_status g)" by (simp add: l2 ls)
    fix i assume "i < length (edge_enabled st2)"
    then have i: "i < length (all_edges g)" by (simp add: l2)
    from r1 i have lf: "edge_status g ! i \<noteq> edge_enabled st1 ! i \<longrightarrow>
               (i, edge_status g ! i) \<in> set (drop (history_qhead st1) (history g))" by blast
    from en2 i have "edge_enabled st2 ! i =
             (if (i, edge_status g ! i) \<in> set (drop (history_qhead st1) (history g))
              then edge_status g ! i else edge_enabled st1 ! i)" by blast
    with lf show "edge_enabled st2 ! i = edge_status g ! i" by (cases "edge_status g ! i = edge_enabled st1 ! i") simp_all
  qed
  have r3: "engine_rest g cap s t st3" "edge_enabled st3 = edge_status g"
    using r2 e2 engine_rest_cong[of "st2\<lparr>ek_f := reflow g s st2\<rparr>" st2 g cap s t]
    by (auto simp: st3_def)
  have r4: "engine_rest g cap s t st4 \<and> edge_enabled st4 = edge_status g"
  proof (cases "fst acc")
    case True
    with st4 obtain r where mf: "maxFlow_p g cap s t st3 = Some r"
      and e: "st4 = (snd r)\<lparr>ek_f := fst r\<rparr>"
      unfolding st4o_def by (auto split: option.splits)
    note mp = maxFlow_p_rest[OF mf gw s t r3(1)]
    have "engine_rest g cap s t st4"
      using mp(1) engine_rest_cong[of st4 "snd r" g cap s t] by (simp add: e)
    moreover have "edge_enabled st4 = edge_status g" using mp(2) r3(2) by (simp add: e)
    ultimately show ?thesis by simp
  next
    case False
    with st4 have "st4 = st3" unfolding st4o_def by simp
    with r3 show ?thesis by simp
  qed
  have rest': "engine_rest g cap s t st'"
    using r4 engine_rest_cong[of st' st4 g cap s t] by (simp add: st' update_stamps_fields)
  have en': "edge_enabled st' = edge_status g" using r4 by (simp add: st' update_stamps_fields)
  have lm: "last_modification st' = modifications g" by (simp add: st' update_stamps_fields)
  have qh: "history_qhead st' = length (history g)" by (simp add: st' update_stamps_fields)
  have "engine_ready g cap s t st'"
    unfolding engine_ready_def cache_hit_def full_due_def lm qh using rest' en' by auto
  with rest_feasible[OF rest' en'] show ?thesis by simp
qed

lemma engine_rest_graph:
  assumes "nodes g' = nodes g" "all_edges g' = all_edges g"
  shows "engine_rest g' cap s t st = engine_rest g cap s t st"
  using assms by (simp add: engine_rest_def flow_ok_def)

lemma engine_ready_fresh:
  assumes "0 \<le> modifications g"
  shows "engine_ready g cap s t EdmondsKarpDynamic_init"
  using assms by (simp add: engine_ready_def cache_hit_def full_due_def EdmondsKarpDynamic_init_def)

text \<open>A mutation of the graph keeps the engine ready for the next call.\<close>

lemma engine_ready_mutation:
  assumes ready: "engine_ready g cap s t st" and gw: "graph_ok g"
    and i: "i < length (all_edges g)"
    and g': "nodes g' = nodes g" "all_edges g' = all_edges g" "historyclears g' = historyclears g"
      "is_changed g' = is_changed g" "modifications g' = modifications g + 1"
      "edge_status g' = (edge_status g)[i := b]" "history g' = history g @ [(i, b)]"
  shows "engine_ready g' cap s t st"
proof -
  have lm: "last_modification st \<le> modifications g" using ready by (simp add: engine_ready_def)
  then have nc: "\<not> cache_hit g' st" by (simp add: cache_hit_def g')
  have ls: "length (edge_status g) = length (all_edges g)" using gw by (simp add: graph_ok_def)
  have "full_due g' st \<or> (engine_rest g' cap s t st \<and> log_faithful g' st)"
  proof (cases "cache_hit g st")
    case True
    with ready have r: "engine_rest g cap s t st" "edge_enabled st = edge_status g"
      "history_qhead st \<le> length (history g)" by (simp_all add: engine_ready_def)
    have "log_faithful g' st"
      unfolding log_faithful_def g'
    proof (intro conjI allI impI)
      show "history_qhead st \<le> length (history g @ [(i, b)])" using r(3) by simp
      fix j assume j: "j < length (all_edges g)" "(edge_status g)[i := b] ! j \<noteq> edge_enabled st ! j"
      then have "j = i" using r(2) by (cases "j = i") simp_all
      with j ls i show "(j, (edge_status g)[i := b] ! j) \<in> set (drop (history_qhead st) (history g @ [(i, b)]))"
        using r(3) by simp
    qed
    with r(1) show ?thesis by (simp add: engine_rest_graph[OF g'(1,2)])
  next
    case False
    with ready have "full_due g st \<or> (engine_rest g cap s t st \<and> log_faithful g st)"
      by (simp add: engine_ready_def)
    then show ?thesis
    proof
      assume "full_due g st"
      then show ?thesis by (simp add: full_due_def g')
    next
      assume r: "engine_rest g cap s t st \<and> log_faithful g st"
      then have q: "history_qhead st \<le> length (history g)"
        and lf: "\<forall>j<length (all_edges g). edge_status g ! j \<noteq> edge_enabled st ! j \<longrightarrow>
          (j, edge_status g ! j) \<in> set (drop (history_qhead st) (history g))"
        by (simp_all add: log_faithful_def)
      have "log_faithful g' st"
        unfolding log_faithful_def g'
      proof (intro conjI allI impI)
        show "history_qhead st \<le> length (history g @ [(i, b)])" using q by simp
        fix j assume j: "j < length (all_edges g)" "(edge_status g)[i := b] ! j \<noteq> edge_enabled st ! j"
        show "(j, (edge_status g)[i := b] ! j) \<in> set (drop (history_qhead st) (history g @ [(i, b)]))"
        proof (cases "j = i")
          case True
          with ls i q show ?thesis by simp
        next
          case False
          with j lf have "(j, edge_status g ! j) \<in> set (drop (history_qhead st) (history g))" by simp
          with False q show ?thesis by simp
        qed
      qed
      with r show ?thesis by (simp add: engine_rest_graph[OF g'(1,2)])
    qed
  qed
  with nc lm show ?thesis by (simp add: engine_ready_def g')
qed

lemma engine_ready_disableEdge:
  assumes "engine_ready g cap s t st" "graph_ok g" "i < length (all_edges g)"
  shows "engine_ready (disableEdge i g) cap s t st"
proof (cases "edge_status g ! i")
  case True
  show ?thesis
    by (rule engine_ready_mutation[OF assms, where b = False]) (simp_all add: disableEdge_def True)
next
  case False
  with assms(1) show ?thesis by (simp add: disableEdge_def)
qed

lemma engine_ready_enableEdge:
  assumes "engine_ready g cap s t st" "graph_ok g" "i < length (all_edges g)"
  shows "engine_ready (enableEdge i g) cap s t st"
proof (cases "edge_status g ! i")
  case False
  show ?thesis
    by (rule engine_ready_mutation[OF assms, where b = True]) (simp_all add: enableEdge_def False)
next
  case True
  with assms(1) show ?thesis by (simp add: enableEdge_def)
qed

lemma graph_ok_disableEdge:
  assumes "graph_ok g" "i < length (all_edges g)"
  shows "graph_ok (disableEdge i g)"
  using assms by (simp add: graph_ok_def disableEdge_def)

lemma graph_ok_enableEdge:
  assumes "graph_ok g" "i < length (all_edges g)"
  shows "graph_ok (enableEdge i g)"
  using assms by (simp add: graph_ok_def enableEdge_def)

lemma graph_ok_graph_A: "graph_ok graph_A"
  by (simp add: graph_ok_def graph_A_def)

lemma capacity_ok_graph_A: "capacity_ok graph_A capacity_A"
  by (simp add: capacity_ok_def graph_A_def capacity_A_def less_Suc_eq numeral_nat)

text \<open>
  C5 on scenario A: the first call on the fresh engine, the deletion of edge 3, and the second
  call, which reroutes the flow of the deleted edge and ends with \<open>F = [1, 2, 1, 0, 3]\<close>.
\<close>

theorem C5_flow_feasible_witness:
  "graph_ok graph_A' \<and> capacity_ok graph_A' capacity_A \<and> 0 < nodes graph_A' \<and>
   3 < nodes graph_A' \<and> (0::nat) \<noteq> 3 \<and> engine_ready graph_A' capacity_A 0 3 engine_A \<and>
   (\<exists>f st'. maxFlow graph_A' capacity_A 0 3 engine_A = Some (f, st') \<and>
       ek_F st' = [1, 2, 1, 0, 3] \<and>
       flow_feasible graph_A' capacity_A 0 3 (ek_F st') \<and>
       engine_ready graph_A' capacity_A 0 3 st')"
proof -
  have n: "0 < nodes graph_A" "3 < nodes graph_A" "(0::nat) \<noteq> 3" by (simp_all add: graph_A_def)
  have fresh: "engine_ready graph_A capacity_A 0 3 EdmondsKarpDynamic_init"
    by (rule engine_ready_fresh) (simp add: graph_A_def)
  from C5_flow_feasible[OF graph_ok_graph_A capacity_ok_graph_A n fresh maxFlow_graph_A]
  have r1: "engine_ready graph_A capacity_A 0 3 engine_A" by simp
  have i: "3 < length (all_edges graph_A)" by (simp add: graph_A_def)
  have gw': "graph_ok graph_A'"
    unfolding graph_A'_def by (rule graph_ok_disableEdge[OF graph_ok_graph_A i])
  have cw': "capacity_ok graph_A' capacity_A"
    using capacity_ok_graph_A by (simp add: capacity_ok_def graph_A'_def disableEdge_def)
  have n': "0 < nodes graph_A'" "3 < nodes graph_A'"
    by (simp_all add: graph_A'_def disableEdge_def graph_A_def)
  have r1': "engine_ready graph_A' capacity_A 0 3 engine_A"
    unfolding graph_A'_def by (rule engine_ready_disableEdge[OF r1 graph_ok_graph_A i])
  from maxFlow_graph_A_disabled_F obtain f st' where
    run: "maxFlow graph_A' capacity_A 0 3 engine_A = Some (f, st')" and F: "ek_F st' = [1, 2, 1, 0, 3]"
    unfolding graph_A'_def by auto
  from C5_flow_feasible[OF gw' cw' n' n(3) r1' run] run F gw' cw' n' n(3) r1'
  show ?thesis by blast
qed

text \<open>
  C5 as stated fails when \<open>s\<close> changes between two calls: after \<open>maxFlow(0, 3)\<close> on scenario A,
  \<open>maxFlow(1, 3)\<close> returns the cached value and leaves \<open>F\<close> as it is; node \<open>0\<close>, which is
  neither \<open>1\<close> nor \<open>3\<close>, sends 5 units and receives none.
\<close>

theorem C5_counterexample:
  "maxFlow graph_A capacity_A 1 3 engine_A = Some (5, engine_A) \<and>
   \<not> flow_feasible graph_A capacity_A 1 3 (ek_F engine_A)"
  by code_simp

end
